(* ===== verification/Prelude.thy ===== *)
theory Prelude
  imports Main "HOL-Library.Word" "HOL-Library.Monad_Syntax"
begin

unbundle bit_operations_syntax

text \<open>
  What the components of the NexusOS development share: the machine integers of the C sources,
  bounds-checked array access, counted loops, linked lists over a next-pointer function, and the
  lemmas on them.

  Convention: a definition of type \<open>\<dots> \<Rightarrow> 'a option\<close> that models a C function returns \<open>None\<close> when
  the C code would access memory outside the object at hand, dereference a null or dangling
  pointer, or not return. A theorem that ends in \<open>= Some \<dots>\<close> therefore states memory safety and
  termination together with the result. C results that signal an error (0, -1, NULL) are ordinary
  values of the model.
\<close>

section \<open>Machine integers\<close>

type_synonym u8 = "8 word"
type_synonym u16 = "16 word"
type_synonym u32 = "32 word"
type_synonym u64 = "64 word"

named_theorems kdefs \<open>definitions of kernel operations that proofs unfold\<close>
named_theorems kinv \<open>invariant preservation facts\<close>

section \<open>Checked array access\<close>

definition rd :: "'a list \<Rightarrow> nat \<Rightarrow> 'a option" where
  "rd xs i = (if i < length xs then Some (xs ! i) else None)"

definition wr :: "'a list \<Rightarrow> nat \<Rightarrow> 'a \<Rightarrow> 'a list option" where
  "wr xs i v = (if i < length xs then Some (xs[i := v]) else None)"

lemma rd_Some [simp]: "i < length xs \<Longrightarrow> rd xs i = Some (xs ! i)"
  by (simp add: rd_def)

lemma rd_None [simp]: "length xs \<le> i \<Longrightarrow> rd xs i = None"
  by (simp add: rd_def)

lemma rd_eq_Some_iff: "rd xs i = Some v \<longleftrightarrow> i < length xs \<and> v = xs ! i"
  by (auto simp: rd_def)

lemma wr_Some [simp]: "i < length xs \<Longrightarrow> wr xs i v = Some (xs[i := v])"
  by (simp add: wr_def)

lemma wr_None [simp]: "length xs \<le> i \<Longrightarrow> wr xs i v = None"
  by (simp add: wr_def)

lemma wr_eq_Some_iff: "wr xs i v = Some ys \<longleftrightarrow> i < length xs \<and> ys = xs[i := v]"
  by (auto simp: wr_def)

section \<open>Counted loops\<close>

text \<open>\<open>for_range f a n s\<close> is \<open>for (p = a; p < a + n; p++) s = f(p, s)\<close>.\<close>

primrec for_range :: "(nat \<Rightarrow> 's \<Rightarrow> 's option) \<Rightarrow> nat \<Rightarrow> nat \<Rightarrow> 's \<Rightarrow> 's option" where
  "for_range f a 0 s = Some s"
| "for_range f a (Suc n) s = Option.bind (f a s) (for_range f (Suc a) n)"

lemma for_range_invariant:
  assumes "P a s"
    and "\<And>i s. a \<le> i \<Longrightarrow> i < a + n \<Longrightarrow> P i s \<Longrightarrow> \<exists>s'. f i s = Some s' \<and> P (Suc i) s'"
  shows "\<exists>s'. for_range f a n s = Some s' \<and> P (a + n) s'"
  using assms
proof (induction n arbitrary: a s)
  case 0
  then show ?case by simp
next
  case (Suc n)
  obtain s1 where s1: "f a s = Some s1" "P (Suc a) s1"
    using Suc.prems(2)[of a s] Suc.prems(1) by auto
  have "\<exists>s'. for_range f (Suc a) n s1 = Some s' \<and> P (Suc a + n) s'"
    using Suc.IH[of "Suc a" s1] s1(2) Suc.prems(2) by auto
  with s1 show ?case by simp
qed

lemma for_range_snoc:
  "for_range f a (Suc n) s = Option.bind (for_range f a n s) (f (a + n))"
proof (induction n arbitrary: a s)
  case 0
  then show ?case by (cases "f a s") auto
next
  case (Suc n)
  show ?case
  proof (cases "f a s")
    case None
    then show ?thesis by simp
  next
    case (Some s1)
    then show ?thesis using Suc.IH[of "Suc a" s1] by simp
  qed
qed

section \<open>Linked lists\<close>

text \<open>
  \<open>lseg nx a xs b\<close>: following the next-pointer function \<open>nx\<close> from the pointer \<open>a\<close> visits exactly
  the nodes \<open>xs\<close> in this order and arrives at the pointer \<open>b\<close>. A C null pointer is \<open>None\<close>.
\<close>

primrec lseg :: "('p \<Rightarrow> 'p option) \<Rightarrow> 'p option \<Rightarrow> 'p list \<Rightarrow> 'p option \<Rightarrow> bool" where
  "lseg nx a [] b \<longleftrightarrow> a = b"
| "lseg nx a (x # xs) b \<longleftrightarrow> a = Some x \<and> lseg nx (nx x) xs b"

lemma lseg_append: "lseg nx a (xs @ ys) b \<longleftrightarrow> (\<exists>m. lseg nx a xs m \<and> lseg nx m ys b)"
  by (induction xs arbitrary: a) auto

lemma lseg_cong: "(\<And>x. x \<in> set xs \<Longrightarrow> nx x = nx' x) \<Longrightarrow> lseg nx a xs b = lseg nx' a xs b"
  by (induction xs arbitrary: a) auto

lemma lseg_upd_notin [simp]: "x \<notin> set xs \<Longrightarrow> lseg (nx(x := y)) a xs b = lseg nx a xs b"
  by (rule lseg_cong) auto

lemma lseg_unique: "lseg nx a xs None \<Longrightarrow> lseg nx a ys None \<Longrightarrow> xs = ys"
proof (induction xs arbitrary: a ys)
  case Nil
  then show ?case by (cases ys) auto
next
  case (Cons x xs)
  then show ?case by (cases ys) auto
qed

lemma lseg_snoc: "lseg nx a (xs @ [x]) b \<longleftrightarrow> lseg nx a xs (Some x) \<and> nx x = b"
  by (auto simp: lseg_append)

lemma lseg_None_Nil [simp]: "lseg nx None xs b \<longleftrightarrow> xs = [] \<and> b = None"
  by (cases xs) auto

section \<open>Words\<close>

lemma unat_of_nat_u64 [simp]: "n < 2 ^ 64 \<Longrightarrow> unat (of_nat n :: u64) = n"
  by (simp add: unsigned_of_nat take_bit_nat_eq_self)

lemma unat_add_u64: "unat a + unat b < 2 ^ 64 \<Longrightarrow> unat (a + b :: u64) = unat a + unat b"
  by (simp add: unat_add_lem[THEN iffD1])

lemma unat_sub_u64: "unat b \<le> unat a \<Longrightarrow> unat (a - b :: u64) = unat a - unat b"
  by (simp add: unat_sub word_le_nat_alt)

lemma unat_neg_of_nat:
  assumes "0 < k" "k < 2 ^ 64"
  shows "unat (- of_nat k :: u64) = 2 ^ 64 - k"
proof -
  have "(of_nat (2 ^ 64 - k) :: u64) = of_nat (2 ^ 64) - of_nat k"
    using assms(2) by (intro of_nat_diff) simp
  moreover have "(of_nat (2 ^ 64) :: u64) = 0" by simp
  ultimately have "- of_nat k = (of_nat (2 ^ 64 - k) :: u64)" by (metis diff_0)
  moreover have "unat (of_nat (2 ^ 64 - k) :: u64) = 2 ^ 64 - k"
    using assms(1) by (intro unat_of_nat_u64) simp
  ultimately show ?thesis by simp
qed

lemma unat_div_4096: "unat (x div 4096 :: u64) = unat x div 4096"
  by (simp add: unat_div_distrib)

lemma unat_u64_less [simp]: "unat (x :: u64) < 18446744073709551616"
  using unsigned_less[of x] by simp

lemma frame_address:
  assumes "p < 2 ^ 52"
  shows "unat (of_nat p * 4096 :: u64) = p * 4096"
proof -
  have "unat (of_nat (p * 4096) :: u64) = p * 4096"
    by (rule unat_of_nat_u64) (use assms in simp)
  then show ?thesis by simp
qed

lemma frame_address_inj:
  assumes "p < 2 ^ 52" "q < 2 ^ 52"
  shows "(of_nat p * 4096 :: u64) = of_nat q * 4096 \<longleftrightarrow> p = q"
  using frame_address[OF assms(1)] frame_address[OF assms(2)]
  by (metis mult_right_cancel zero_neq_numeral)

end
