(* ===== verification/KString.thy ===== *)
theory KString
  imports Prelude "HOL-Library.Sublist"
begin

text \<open>
  The memory and string routines of the kernel, \<open>kernel/src/lib/string.c\<close>. Memory is a list of
  bytes and a pointer an index into it, so that source and destination may overlap and every
  access is checked. Routines that return their destination argument return the memory here,
  and a null result is \<open>None\<close>.
\<close>

type_synonym cmem = "u8 list"

section \<open>Memory operations\<close>

definition copy_byte :: "nat \<Rightarrow> nat \<Rightarrow> nat \<Rightarrow> cmem \<Rightarrow> cmem option" where
  "copy_byte d s i m = do { v \<leftarrow> rd m (s + i); wr m (d + i) v }"

definition memcpy :: "nat \<Rightarrow> nat \<Rightarrow> nat \<Rightarrow> cmem \<Rightarrow> cmem option" where
  "memcpy dest src n m = for_range (copy_byte dest src) 0 n m"

definition memset :: "nat \<Rightarrow> int \<Rightarrow> nat \<Rightarrow> cmem \<Rightarrow> cmem option" where
  "memset dest c n m = for_range (\<lambda>i m. wr m (dest + i) (of_int c)) 0 n m"

primrec memcmp_loop :: "cmem \<Rightarrow> nat \<Rightarrow> nat \<Rightarrow> nat \<Rightarrow> int option" where
  "memcmp_loop m s1 s2 0 = Some 0"
| "memcmp_loop m s1 s2 (Suc n) = do {
     a \<leftarrow> rd m s1;
     b \<leftarrow> rd m s2;
     if a \<noteq> b then Some (uint a - uint b) else memcmp_loop m (Suc s1) (Suc s2) n }"

definition memcmp :: "nat \<Rightarrow> nat \<Rightarrow> nat \<Rightarrow> cmem \<Rightarrow> int option" where
  "memcmp s1 s2 n m = memcmp_loop m s1 s2 n"

text \<open>\<open>for (i = n; i > 0; i--) d[i - 1] = s[i - 1]\<close>\<close>

primrec copy_down :: "nat \<Rightarrow> nat \<Rightarrow> nat \<Rightarrow> cmem \<Rightarrow> cmem option" where
  "copy_down d s 0 m = Some m"
| "copy_down d s (Suc i) m = do { m1 \<leftarrow> copy_byte d s i m; copy_down d s i m1 }"

definition memmove :: "nat \<Rightarrow> nat \<Rightarrow> nat \<Rightarrow> cmem \<Rightarrow> cmem option" where
  "memmove dest src n m =
     (if dest < src then for_range (copy_byte dest src) 0 n m
      else if dest > src then copy_down dest src n m
      else Some m)"

section \<open>String operations\<close>

text \<open>
  Each loop advances its pointers by one, so that the distance to the end of memory bounds it;
  a loop that runs off the memory is a fault.
\<close>

function strlen_loop :: "cmem \<Rightarrow> nat \<Rightarrow> nat \<Rightarrow> nat option" where
  "strlen_loop m s len = (case rd m (s + len) of
      None \<Rightarrow> None
    | Some c \<Rightarrow> if c \<noteq> 0 then strlen_loop m s (Suc len) else Some len)"
  by pat_completeness auto
termination
  by (relation "measure (\<lambda>(m, s, len). length m - (s + len))") (auto simp: rd_eq_Some_iff)

definition strlen :: "nat \<Rightarrow> cmem \<Rightarrow> nat option" where
  "strlen s m = strlen_loop m s 0"

function strcmp :: "nat \<Rightarrow> nat \<Rightarrow> cmem \<Rightarrow> int option" where
  "strcmp s1 s2 m = (case rd m s1 of
      None \<Rightarrow> None
    | Some a \<Rightarrow> (case rd m s2 of
        None \<Rightarrow> None
      | Some b \<Rightarrow> if a \<noteq> 0 \<and> a = b then strcmp (Suc s1) (Suc s2) m else Some (uint a - uint b)))"
  by pat_completeness auto
termination
  by (relation "measure (\<lambda>(s1, s2, m). length m - s1)") (auto simp: rd_eq_Some_iff)

primrec strncmp_loop :: "cmem \<Rightarrow> nat \<Rightarrow> nat \<Rightarrow> nat \<Rightarrow> int option" where
  "strncmp_loop m s1 s2 0 = Some 0"
| "strncmp_loop m s1 s2 (Suc n) = do {
     a \<leftarrow> rd m s1;
     b \<leftarrow> rd m s2;
     if a \<noteq> b then Some (uint a - uint b)
     else if a = 0 then Some 0
     else strncmp_loop m (Suc s1) (Suc s2) n }"

definition strncmp :: "nat \<Rightarrow> nat \<Rightarrow> nat \<Rightarrow> cmem \<Rightarrow> int option" where
  "strncmp s1 s2 n m = strncmp_loop m s1 s2 n"

text \<open>The source pointer may move into bytes just written, so the loop reads the current memory.\<close>

function strcpy :: "nat \<Rightarrow> nat \<Rightarrow> cmem \<Rightarrow> cmem option" where
  "strcpy d src m = (case rd m src of
      None \<Rightarrow> None
    | Some c \<Rightarrow> (case wr m d c of
        None \<Rightarrow> None
      | Some m1 \<Rightarrow> if c \<noteq> 0 then strcpy (Suc d) (Suc src) m1 else Some m1))"
  by pat_completeness auto
termination
  by (relation "measure (\<lambda>(d, src, m). length m - src)") (auto simp: rd_eq_Some_iff wr_eq_Some_iff)

text \<open>The first loop of \<open>strncpy\<close>, with the number of bytes still to write, and the padding loop.\<close>

primrec strncpy_loop :: "nat \<Rightarrow> nat \<Rightarrow> nat \<Rightarrow> cmem \<Rightarrow> cmem option" where
  "strncpy_loop dest src 0 m = Some m"
| "strncpy_loop dest src (Suc n) m = do {
     c \<leftarrow> rd m src;
     if c \<noteq> 0 then do { m1 \<leftarrow> wr m dest c; strncpy_loop (Suc dest) (Suc src) n m1 }
     else for_range (\<lambda>i m. wr m i 0) dest (Suc n) m }"

definition strncpy :: "nat \<Rightarrow> nat \<Rightarrow> nat \<Rightarrow> cmem \<Rightarrow> cmem option" where
  "strncpy dest src n m = strncpy_loop dest src n m"

function find_nul :: "nat \<Rightarrow> cmem \<Rightarrow> nat option" where
  "find_nul d m = (case rd m d of
      None \<Rightarrow> None
    | Some c \<Rightarrow> if c \<noteq> 0 then find_nul (Suc d) m else Some d)"
  by pat_completeness auto
termination
  by (relation "measure (\<lambda>(d, m). length m - d)") (auto simp: rd_eq_Some_iff)

definition strcat :: "nat \<Rightarrow> nat \<Rightarrow> cmem \<Rightarrow> cmem option" where
  "strcat dest src m = do { d \<leftarrow> find_nul dest m; strcpy d src m }"

function strchr_loop :: "nat \<Rightarrow> u8 \<Rightarrow> cmem \<Rightarrow> nat option option" where
  "strchr_loop s ch m = (case rd m s of
      None \<Rightarrow> None
    | Some c \<Rightarrow> if c \<noteq> 0 then (if c = ch then Some (Some s) else strchr_loop (Suc s) ch m)
                else Some (if ch = 0 then Some s else None))"
  by pat_completeness auto
termination
  by (relation "measure (\<lambda>(s, ch, m). length m - s)") (auto simp: rd_eq_Some_iff)

definition strchr :: "nat \<Rightarrow> int \<Rightarrow> cmem \<Rightarrow> nat option option" where
  "strchr s c m = strchr_loop s (of_int c) m"

function strrchr_loop :: "nat \<Rightarrow> u8 \<Rightarrow> nat option \<Rightarrow> cmem \<Rightarrow> nat option option" where
  "strrchr_loop s ch prev m = (case rd m s of
      None \<Rightarrow> None
    | Some c \<Rightarrow> if c \<noteq> 0 then strrchr_loop (Suc s) ch (if c = ch then Some s else prev) m
                else Some (if ch = 0 then Some s else prev))"
  by pat_completeness auto
termination
  by (relation "measure (\<lambda>(s, ch, prev, m). length m - s)") (auto simp: rd_eq_Some_iff)

definition strrchr :: "nat \<Rightarrow> int \<Rightarrow> cmem \<Rightarrow> nat option option" where
  "strrchr s c m = strrchr_loop s (of_int c) None m"

function strstr_loop :: "nat \<Rightarrow> nat \<Rightarrow> nat \<Rightarrow> cmem \<Rightarrow> nat option option" where
  "strstr_loop h needle n m = (case rd m h of
      None \<Rightarrow> None
    | Some c \<Rightarrow> if c \<noteq> 0 then (case strncmp h needle n m of
          None \<Rightarrow> None
        | Some r \<Rightarrow> if r = 0 then Some (Some h) else strstr_loop (Suc h) needle n m)
      else Some None)"
  by pat_completeness auto
termination
  by (relation "measure (\<lambda>(h, needle, n, m). length m - h)") (auto simp: rd_eq_Some_iff)

definition strstr :: "nat \<Rightarrow> nat \<Rightarrow> cmem \<Rightarrow> nat option option" where
  "strstr haystack needle m = do {
     c \<leftarrow> rd m needle;
     if c = 0 then Some (Some haystack)
     else do {
       needle_len \<leftarrow> strlen needle m;
       strstr_loop haystack needle needle_len m } }"

declare strlen_loop.simps [simp del] strcmp.simps [simp del] strcpy.simps [simp del]
  find_nul.simps [simp del] strchr_loop.simps [simp del] strrchr_loop.simps [simp del]
  strstr_loop.simps [simp del]

section \<open>C strings\<close>

text \<open>\<open>cstr m p xs\<close>: at \<open>p\<close> the memory holds the bytes \<open>xs\<close>, none of them NUL, and then a NUL.\<close>

definition cstr :: "cmem \<Rightarrow> nat \<Rightarrow> u8 list \<Rightarrow> bool" where
  "cstr m p xs \<longleftrightarrow> 0 \<notin> set xs \<and> p + length xs < length m \<and> take (length xs) (drop p m) = xs \<and>
     m ! (p + length xs) = 0"

lemma cstr_Nil [simp]: "cstr m p [] \<longleftrightarrow> p < length m \<and> m ! p = 0"
  by (auto simp: cstr_def)

lemma cstr_Cons: "cstr m p (x # xs) \<longleftrightarrow> x \<noteq> 0 \<and> p < length m \<and> m ! p = x \<and> cstr m (Suc p) xs"
proof (cases "p < length m")
  case True
  then have "drop p m = m ! p # drop (Suc p) m" by (simp add: Cons_nth_drop_Suc)
  then show ?thesis by (auto simp: cstr_def)
next
  case False
  then show ?thesis by (auto simp: cstr_def)
qed

lemma cstr_unique: "cstr m p xs \<Longrightarrow> cstr m p ys \<Longrightarrow> xs = ys"
proof (induction xs arbitrary: p ys)
  case Nil
  then show ?case by (cases ys) (auto simp: cstr_Cons)
next
  case (Cons x xs)
  then show ?case by (cases ys) (auto simp: cstr_Cons)
qed

lemma cstr_suffix: "cstr m p (xs @ ys) \<Longrightarrow> cstr m (p + length xs) ys"
proof (induction xs arbitrary: p)
  case (Cons x xs)
  then have "cstr m (Suc p) (xs @ ys)" by (simp add: cstr_Cons)
  from Cons.IH[OF this] show ?case by simp
qed simp

lemma strlen_loop_cstr: "cstr m (s + len) xs \<Longrightarrow> strlen_loop m s len = Some (len + length xs)"
proof (induction xs arbitrary: len)
  case Nil
  then show ?case by (simp add: strlen_loop.simps[of m s len])
next
  case (Cons x xs)
  then show ?case using Cons.IH[of "Suc len"]
    by (simp add: strlen_loop.simps[of m s len] cstr_Cons)
qed

lemma strlen_cstr: "cstr m s xs \<Longrightarrow> strlen s m = Some (length xs)"
  using strlen_loop_cstr[of m s 0 xs] by (simp add: strlen_def)

text \<open>Comparison is lexicographic on the bytes; a proper prefix is smaller.\<close>

fun cstr_diff :: "u8 list \<Rightarrow> u8 list \<Rightarrow> int" where
  "cstr_diff [] [] = 0"
| "cstr_diff (x # xs) [] = uint x"
| "cstr_diff [] (y # ys) = - uint y"
| "cstr_diff (x # xs) (y # ys) = (if x = y then cstr_diff xs ys else uint x - uint y)"

lemma strcmp_cstr: "cstr m p xs \<Longrightarrow> cstr m q ys \<Longrightarrow> strcmp p q m = Some (cstr_diff xs ys)"
proof (induction xs ys arbitrary: p q rule: cstr_diff.induct)
  case 1
  then show ?case by (simp add: strcmp.simps[of p q m])
next
  case (2 x xs)
  then show ?case by (simp add: strcmp.simps[of p q m] cstr_Cons)
next
  case (3 y ys)
  then show ?case by (simp add: strcmp.simps[of p q m] cstr_Cons)
next
  case (4 x xs y ys)
  then show ?case by (auto simp: strcmp.simps[of p q m] cstr_Cons)
qed

lemma cstr_diff_0: "0 \<notin> set xs \<Longrightarrow> 0 \<notin> set ys \<Longrightarrow> cstr_diff xs ys = 0 \<longleftrightarrow> xs = ys"
  by (induction xs ys rule: cstr_diff.induct) (auto simp: uint_0_iff dest: unsigned_word_eqI)

lemma strncmp_cstr:
  "cstr m p xs \<Longrightarrow> cstr m q ys \<Longrightarrow> strncmp_loop m p q n = Some (cstr_diff (take n xs) (take n ys))"
proof (induction n arbitrary: p q xs ys)
  case (Suc n)
  then show ?case
    by (cases xs; cases ys) (auto simp: cstr_Cons)
qed simp

section \<open>Copying\<close>

text \<open>\<open>blit\<close>: the memory after the \<open>n\<close> bytes at \<open>s\<close> have been moved to \<open>d\<close>.\<close>

definition blit :: "cmem \<Rightarrow> nat \<Rightarrow> nat \<Rightarrow> nat \<Rightarrow> cmem" where
  "blit m d s n = take d m @ take n (drop s m) @ drop (d + n) m"

lemma blit_nth:
  assumes "d + n \<le> length m" "s + n \<le> length m" "k < length m"
  shows "blit m d s n ! k = (if d \<le> k \<and> k < d + n then m ! (s + (k - d)) else m ! k)"
proof -
  have "min (length m - s) n = n" "min (length m) d = d" using assms by simp_all
  then show ?thesis using assms by (auto simp: blit_def nth_append)
qed

lemma blit_length: "d + n \<le> length m \<Longrightarrow> s + n \<le> length m \<Longrightarrow> length (blit m d s n) = length m"
  by (simp add: blit_def)

lemma blit_eqI:
  assumes "d + n \<le> length m" "s + n \<le> length m" "length m' = length m"
    "\<And>k. k < length m \<Longrightarrow> m' ! k = (if d \<le> k \<and> k < d + n then m ! (s + (k - d)) else m ! k)"
  shows "m' = blit m d s n"
  by (rule nth_equalityI) (use assms in \<open>auto simp: blit_nth blit_length\<close>)

lemma copy_up:
  assumes "d + n \<le> length m" "s + n \<le> length m" "d < s \<or> s + n \<le> d \<or> d = s"
  shows "for_range (copy_byte d s) 0 n m = Some (blit m d s n)"
proof -
  let ?P = "\<lambda>i m'. length m' = length m \<and>
    (\<forall>k < length m. m' ! k = (if d \<le> k \<and> k < d + i then m ! (s + (k - d)) else m ! k))"
  have "\<exists>m'. for_range (copy_byte d s) 0 n m = Some m' \<and> ?P (0 + n) m'"
  proof (rule for_range_invariant)
    show "?P 0 m" by auto
    fix i m1
    assume i: "0 \<le> i" "i < 0 + n" and P: "?P i m1"
    have src: "m1 ! (s + i) = m ! (s + i)" using P i assms by auto
    have "copy_byte d s i m1 = Some (m1[d + i := m ! (s + i)])"
      using P i assms src by (simp add: copy_byte_def)
    moreover have "?P (Suc i) (m1[d + i := m ! (s + i)])"
      using P i assms by (auto simp: nth_list_update)
    ultimately show "\<exists>m2. copy_byte d s i m1 = Some m2 \<and> ?P (Suc i) m2" by blast
  qed
  then show ?thesis using blit_eqI[OF assms(1,2)] by auto
qed

lemma copy_down_blit:
  assumes "d + n \<le> length m" "s + n \<le> length m" "s < d" "i \<le> n" "length m' = length m"
    "\<forall>k < length m. m' ! k = (if d + i \<le> k \<and> k < d + n then m ! (s + (k - d)) else m ! k)"
  shows "copy_down d s i m' = Some (blit m d s n)"
  using assms(4-6)
proof (induction i arbitrary: m')
  case 0
  then show ?case using blit_eqI[OF assms(1,2), of m'] by auto
next
  case (Suc i)
  have src: "m' ! (s + i) = m ! (s + i)" using Suc.prems assms(2,3) by auto
  then have "copy_byte d s i m' = Some (m'[d + i := m ! (s + i)])"
    using Suc.prems assms(1,2) by (simp add: copy_byte_def)
  moreover have "\<forall>k < length m. m'[d + i := m ! (s + i)] ! k =
      (if d + i \<le> k \<and> k < d + n then m ! (s + (k - d)) else m ! k)"
    using Suc.prems assms(1) by (auto simp: nth_list_update)
  ultimately show ?case using Suc.IH[of "m'[d + i := m ! (s + i)]"] Suc.prems by simp
qed

text \<open>
  C11. \<open>memmove\<close> copies correctly however source and destination overlap: within the bounds of
  memory the destination afterwards holds the bytes the source held before, and every other
  byte is unchanged.
\<close>

theorem memmove_correct:
  assumes "dest + n \<le> length m" "src + n \<le> length m"
  shows "memmove dest src n m = Some (take dest m @ take n (drop src m) @ drop (dest + n) m)"
proof -
  consider "dest < src" | "dest = src" | "src < dest" by linarith
  then show ?thesis
  proof cases
    case 1
    then show ?thesis using copy_up[OF assms] by (simp add: memmove_def blit_def)
  next
    case 2
    then have "m = blit m dest src n" by (intro blit_eqI) (use assms in auto)
    then show ?thesis using 2 by (simp add: memmove_def blit_def)
  next
    case 3
    then have "copy_down dest src n m = Some (blit m dest src n)"
      by (intro copy_down_blit[OF assms]) auto
    then show ?thesis using 3 by (simp add: memmove_def blit_def)
  qed
qed

theorem memmove_witness: "memmove 1 0 3 [1, 2, 3, 4, 5] = Some [1, 1, 2, 3, 5]"
  using memmove_correct[of 1 3 "[1, 2, 3, 4, 5]" 0] by simp

section \<open>Searching\<close>

lemma cstr_diff_prefix:
  assumes "0 \<notin> set xs" "0 \<notin> set ys" "n = length ys"
  shows "cstr_diff (take n xs) (take n ys) = 0 \<longleftrightarrow> prefix ys xs"
proof -
  have "cstr_diff (take n xs) (take n ys) = 0 \<longleftrightarrow> take n xs = take n ys"
    using assms by (intro cstr_diff_0) (auto dest: in_set_takeD)
  also have "\<dots> \<longleftrightarrow> prefix ys xs"
    using assms(3) by (auto simp: prefix_def) (metis append_take_drop_id)
  finally show ?thesis .
qed

lemma strstr_loop_cstr:
  assumes "cstr m h xs" "cstr m q ys" "ys \<noteq> []"
  shows "strstr_loop h q (length ys) m =
    Some (if \<exists>k. prefix ys (drop k xs) then Some (h + (LEAST k. prefix ys (drop k xs))) else None)"
  using assms(1)
proof (induction xs arbitrary: h)
  case Nil
  then show ?case using assms(3) by (simp add: strstr_loop.simps[of h])
next
  case (Cons x xs)
  have nz: "0 \<notin> set (x # xs)" "0 \<notin> set ys" using Cons.prems assms(2) by (simp_all add: cstr_def)
  have cmp: "strncmp h q (length ys) m = Some (cstr_diff (take (length ys) (x # xs)) (take (length ys) ys))"
    using strncmp_cstr[OF Cons.prems assms(2)] by (simp add: strncmp_def)
  have h: "rd m h = Some x" "x \<noteq> 0" "cstr m (Suc h) xs" using Cons.prems by (auto simp: cstr_Cons)
  let ?Q = "\<lambda>k. prefix ys (drop k (x # xs))"
  show ?case
  proof (cases "prefix ys (x # xs)")
    case True
    then have "strstr_loop h q (length ys) m = Some (Some h)"
      using h cmp cstr_diff_prefix[OF nz refl] by (simp add: strstr_loop.simps[of h])
    moreover have "?Q 0" using True by simp
    then have "(LEAST k. ?Q k) = 0" "\<exists>k. ?Q k" by (rule Least_eq_0, rule exI)
    ultimately show ?thesis by simp
  next
    case False
    then have eq: "strstr_loop h q (length ys) m = strstr_loop (Suc h) q (length ys) m"
      using h cmp cstr_diff_prefix[OF nz refl] by (simp add: strstr_loop.simps[of h])
    have n0: "\<not> ?Q 0" using False by simp
    have ex: "(\<exists>k. ?Q k) \<longleftrightarrow> (\<exists>k. prefix ys (drop k xs))"
      using n0 by (metis drop_Suc_Cons old.nat.exhaust)
    have "(LEAST k. ?Q k) = Suc (LEAST k. prefix ys (drop k xs))" if e: "\<exists>k. ?Q k"
    proof -
      obtain k where "?Q k" using e by blast
      from Least_Suc[of ?Q, OF this n0] show ?thesis by simp
    qed
    then show ?thesis using Cons.IH[OF h(3)] ex by (auto simp: eq)
  qed
qed

text \<open>
  C12. \<open>strstr\<close>. For two strings in memory, \<open>strstr\<close> terminates without reading past either of them
  and returns the address of the first place at which the needle occurs in the haystack, or
  NULL when there is none.
\<close>

theorem strstr_correct:
  assumes "cstr m h xs" "cstr m q ys"
  shows "strstr h q m =
    Some (if \<exists>k. prefix ys (drop k xs) then Some (h + (LEAST k. prefix ys (drop k xs))) else None)"
proof (cases ys)
  case Nil
  then have "(LEAST k. prefix ys (drop k xs)) = 0" "\<exists>k. prefix ys (drop k xs)" by (auto simp: Least_eq_0)
  then show ?thesis using assms(2) Nil by (simp add: strstr_def)
next
  case (Cons y zs)
  then have "rd m q = Some y" "y \<noteq> 0" using assms(2) by (auto simp: cstr_Cons)
  then show ?thesis
    using strstr_loop_cstr[OF assms] strlen_cstr[OF assms(2)] Cons by (simp add: strstr_def)
qed

definition demo_text :: cmem where
  "demo_text = [97, 98, 97, 99, 0, 97, 99, 0]"

theorem strstr_witness: "strstr 0 5 demo_text = Some (Some 2)"
proof -
  have c: "cstr demo_text 0 [97, 98, 97, 99]" "cstr demo_text 5 [97, 99]"
    by (simp_all add: cstr_def demo_text_def)
  have "(LEAST k. prefix [97, 99] (drop k [97, 98, 97, 99 :: u8])) = 2"
  proof (rule Least_equality)
    fix k assume "prefix [97, 99] (drop k [97, 98, 97, 99 :: u8])"
    then show "2 \<le> k" by (cases k; cases "k - 1") auto
  qed simp
  moreover have "\<exists>k. prefix [97, 99] (drop k [97, 98, 97, 99 :: u8])" by (rule exI[of _ 2]) simp
  ultimately show ?thesis using strstr_correct[OF c] by simp
qed

end
