(* ===== verification/Spinlock.thy ===== *)
theory Spinlock
  imports Prelude
begin

text \<open>
  The spinlock of \<open>kernel/src/lib/spinlock.c\<close> on the single processor the kernel runs on: a lock
  word and the saved flags register. With interrupts off nothing else runs, so a lock that is
  taken stays taken while the processor spins: the loop then does not return.
\<close>

record spinlock =
  lock :: u32
  saved_flags :: u64

record cpu =
  rflags :: u64
  slock :: spinlock

definition IF_BIT :: u64 where "IF_BIT = 0x200"

definition read_rflags :: "cpu \<Rightarrow> u64" where
  "read_rflags s = rflags s"

definition cli :: "cpu \<Rightarrow> cpu" where
  "cli s = s\<lparr>rflags := rflags s AND NOT IF_BIT\<rparr>"

definition sti :: "cpu \<Rightarrow> cpu" where
  "sti s = s\<lparr>rflags := rflags s OR IF_BIT\<rparr>"

text \<open>\<open>__sync_lock_test_and_set(&lock->lock, 1)\<close>: the old value and the state with the lock set.\<close>

definition test_and_set :: "cpu \<Rightarrow> u32 \<times> cpu" where
  "test_and_set s = (lock (slock s), s\<lparr>slock := (slock s)\<lparr>lock := 1\<rparr>\<rparr>)"

partial_function (option) spin :: "cpu \<Rightarrow> cpu option" where
  "spin s = (let (old, s1) = test_and_set s in if old \<noteq> 0 then spin s1 else Some s1)"

definition spinlock_acquire :: "cpu \<Rightarrow> cpu option" where
  "spinlock_acquire s = do {
     let flags = read_rflags s;
     s1 \<leftarrow> spin (cli s);
     Some (s1\<lparr>slock := (slock s1)\<lparr>saved_flags := flags\<rparr>\<rparr>) }"

definition spinlock_release :: "cpu \<Rightarrow> cpu" where
  "spinlock_release s =
     (let flags = saved_flags (slock s);
          s1 = s\<lparr>slock := (slock s)\<lparr>lock := 0\<rparr>\<rparr>
      in if flags AND IF_BIT \<noteq> 0 then sti s1 else s1)"

lemma spin_stuck:
  assumes "spin s = Some s'"
  shows "lock (slock s) = 0"
proof (rule spin.raw_induct[where P = "\<lambda>s _. lock (slock s) = 0", OF _ assms])
  fix f s y
  assume IH: "\<And>s y. f s = Some y \<Longrightarrow> lock (slock s) = 0"
    and step: "(let (old, s1) = test_and_set s in if old \<noteq> 0 then f s1 else Some s1) = Some y"
  show "lock (slock s) = 0"
  proof (rule ccontr)
    assume "lock (slock s) \<noteq> 0"
    with step have "f (s\<lparr>slock := (slock s)\<lparr>lock := 1\<rparr>\<rparr>) = Some y" by (simp add: test_and_set_def)
    from IH[OF this] show False by simp
  qed
qed

lemma spin_free: "lock (slock s) = 0 \<Longrightarrow> spin s = Some (s\<lparr>slock := (slock s)\<lparr>lock := 1\<rparr>\<rparr>)"
  by (subst spin.simps) (simp add: test_and_set_def)

lemma if_bit: "x AND IF_BIT \<noteq> 0 \<longleftrightarrow> bit x 9" for x :: u64
  using and_exp_eq_0_iff_not_bit[of x 9] by (simp add: IF_BIT_def)

text \<open>
  C13. Critical sections. On a free lock \<open>spinlock_acquire\<close> returns with the lock taken and
  interrupts off. A second acquire before the release never returns. The release frees the
  lock and puts the interrupt flag, and with it the whole flags register, back to what it was
  before the acquire. A section between the two is therefore not interrupted.
\<close>

theorem spinlock_critical_section:
  assumes "lock (slock s) = 0"
  shows "\<exists>s1. spinlock_acquire s = Some s1 \<and> lock (slock s1) = 1 \<and> rflags s1 AND IF_BIT = 0 \<and>
     spinlock_acquire s1 = None \<and>
     rflags (spinlock_release s1) = rflags s \<and> lock (slock (spinlock_release s1)) = 0"
proof -
  let ?s1 = "(cli s)\<lparr>slock := (slock s)\<lparr>lock := 1, saved_flags := rflags s\<rparr>\<rparr>"
  have acq: "spinlock_acquire s = Some ?s1"
    using spin_free[of "cli s"] assms by (simp add: spinlock_acquire_def read_rflags_def cli_def)
  have "spin (cli ?s1) = None"
  proof (cases "spin (cli ?s1)")
    case (Some t)
    from spin_stuck[OF this] show ?thesis by (simp add: cli_def)
  qed simp
  then have "spinlock_acquire ?s1 = None" by (simp add: spinlock_acquire_def)
  moreover have "rflags ?s1 AND IF_BIT = 0" by (simp add: cli_def and.assoc)
  moreover have "rflags (spinlock_release ?s1) = rflags s"
  proof (rule bit_word_eqI)
    fix n :: nat
    have b: "bit IF_BIT k \<longleftrightarrow> k = 9" for k
      using bit_exp_iff[of 9 k, where ?'a = u64] by (auto simp: IF_BIT_def)
    have "bit (rflags s) 9 \<longleftrightarrow> rflags s AND IF_BIT \<noteq> 0" using if_bit by blast
    then show "bit (rflags (spinlock_release ?s1)) n = bit (rflags s) n" if "n < LENGTH(64)"
      using that
      by (auto simp: spinlock_release_def cli_def sti_def bit_or_iff bit_and_iff bit_not_iff b)
  qed
  moreover have "lock (slock (spinlock_release ?s1)) = 0"
    by (simp add: spinlock_release_def sti_def Let_def)
  ultimately show ?thesis using acq by (intro exI[of _ ?s1]) simp
qed

theorem spinlock_witness:
  "\<exists>s1. spinlock_acquire \<lparr>rflags = 0x202, slock = \<lparr>lock = 0, saved_flags = 0\<rparr>\<rparr> = Some s1 \<and>
     rflags s1 AND IF_BIT = 0 \<and> rflags (spinlock_release s1) = 0x202"
proof -
  let ?s = "\<lparr>rflags = 0x202, slock = \<lparr>lock = 0, saved_flags = 0\<rparr>\<rparr>"
  have "lock (slock ?s) = 0" by simp
  from spinlock_critical_section[OF this] show ?thesis by auto
qed

end
