(* ===== verification/LibcString.thy ===== *)
theory LibcString
  imports KString
begin

text \<open>
  The string routines of the user C library, \<open>userspace/libc/src/string.c\<close>, on the memory model of
  the kernel's routines. The names carry the prefix \<open>u_\<close>. The library has its own implementation of
  each routine; here they are shown to agree with the kernel's where both exist, and \<open>strtok\<close>,
  which the kernel does not have, is shown to split a string. \<open>strdup\<close> is with the allocator.
\<close>

section \<open>Memory operations\<close>

text \<open>\<open>while (n--) *d++ = *s++\<close>\<close>

primrec u_copy :: "nat \<Rightarrow> nat \<Rightarrow> nat \<Rightarrow> cmem \<Rightarrow> cmem option" where
  "u_copy d s 0 m = Some m"
| "u_copy d s (Suc n) m = do { c \<leftarrow> rd m s; m1 \<leftarrow> wr m d c; u_copy (Suc d) (Suc s) n m1 }"

definition u_memcpy :: "nat \<Rightarrow> nat \<Rightarrow> nat \<Rightarrow> cmem \<Rightarrow> cmem option" where
  "u_memcpy dest src n m = u_copy dest src n m"

text \<open>\<open>while (n--) *--d = *--s\<close>, with \<open>d\<close> and \<open>s\<close> the ends of the regions.\<close>

primrec u_copy_back :: "nat \<Rightarrow> nat \<Rightarrow> nat \<Rightarrow> cmem \<Rightarrow> cmem option" where
  "u_copy_back d s 0 m = Some m"
| "u_copy_back d s (Suc n) m = do {
     c \<leftarrow> rd m (s - 1);
     m1 \<leftarrow> wr m (d - 1) c;
     u_copy_back (d - 1) (s - 1) n m1 }"

definition u_memmove :: "nat \<Rightarrow> nat \<Rightarrow> nat \<Rightarrow> cmem \<Rightarrow> cmem option" where
  "u_memmove dest src n m =
     (if dest < src then u_copy dest src n m else u_copy_back (dest + n) (src + n) n m)"

primrec u_fill :: "nat \<Rightarrow> u8 \<Rightarrow> nat \<Rightarrow> cmem \<Rightarrow> cmem option" where
  "u_fill p c 0 m = Some m"
| "u_fill p c (Suc n) m = do { m1 \<leftarrow> wr m p c; u_fill (Suc p) c n m1 }"

definition u_memset :: "nat \<Rightarrow> int \<Rightarrow> nat \<Rightarrow> cmem \<Rightarrow> cmem option" where
  "u_memset s c n m = u_fill s (of_int c) n m"

primrec u_memcmp :: "nat \<Rightarrow> nat \<Rightarrow> nat \<Rightarrow> cmem \<Rightarrow> int option" where
  "u_memcmp p1 p2 0 m = Some 0"
| "u_memcmp p1 p2 (Suc n) m = do {
     a \<leftarrow> rd m p1;
     b \<leftarrow> rd m p2;
     if a \<noteq> b then Some (uint a - uint b) else u_memcmp (Suc p1) (Suc p2) n m }"

primrec u_memchr :: "nat \<Rightarrow> int \<Rightarrow> nat \<Rightarrow> cmem \<Rightarrow> nat option option" where
  "u_memchr p c 0 m = Some None"
| "u_memchr p c (Suc n) m = do {
     x \<leftarrow> rd m p;
     if x = of_int c then Some (Some p) else u_memchr (Suc p) c n m }"

section \<open>String operations\<close>

function u_strlen_loop :: "cmem \<Rightarrow> nat \<Rightarrow> nat \<Rightarrow> nat option" where
  "u_strlen_loop m s len = (case rd m (s + len) of
      None \<Rightarrow> None
    | Some c \<Rightarrow> if c \<noteq> 0 then u_strlen_loop m s (Suc len) else Some len)"
  by pat_completeness auto
termination
  by (relation "measure (\<lambda>(m, s, len). length m - (s + len))") (auto simp: rd_eq_Some_iff)

definition u_strlen :: "nat \<Rightarrow> cmem \<Rightarrow> nat option" where
  "u_strlen s m = u_strlen_loop m s 0"

function u_strcpy :: "nat \<Rightarrow> nat \<Rightarrow> cmem \<Rightarrow> cmem option" where
  "u_strcpy d src m = (case rd m src of
      None \<Rightarrow> None
    | Some c \<Rightarrow> (case wr m d c of
        None \<Rightarrow> None
      | Some m1 \<Rightarrow> if c \<noteq> 0 then u_strcpy (Suc d) (Suc src) m1 else Some m1))"
  by pat_completeness auto
termination
  by (relation "measure (\<lambda>(d, src, m). length m - src)") (auto simp: rd_eq_Some_iff wr_eq_Some_iff)

text \<open>The two loops of \<open>strncpy\<close>: \<open>n - i\<close> iterations remain at index \<open>i\<close>.\<close>

primrec u_strncpy_copy :: "nat \<Rightarrow> nat \<Rightarrow> nat \<Rightarrow> nat \<Rightarrow> cmem \<Rightarrow> (nat \<times> cmem) option" where
  "u_strncpy_copy dest src i 0 m = Some (i, m)"
| "u_strncpy_copy dest src i (Suc k) m = do {
     c \<leftarrow> rd m (src + i);
     if c \<noteq> 0 then do { m1 \<leftarrow> wr m (dest + i) c; u_strncpy_copy dest src (Suc i) k m1 }
     else Some (i, m) }"

definition u_strncpy :: "nat \<Rightarrow> nat \<Rightarrow> nat \<Rightarrow> cmem \<Rightarrow> cmem option" where
  "u_strncpy dest src n m = do {
     (i, m1) \<leftarrow> u_strncpy_copy dest src 0 n m;
     for_range (\<lambda>j m. wr m (dest + j) 0) i (n - i) m1 }"

definition u_strcat :: "nat \<Rightarrow> nat \<Rightarrow> cmem \<Rightarrow> cmem option" where
  "u_strcat dest src m = do { l \<leftarrow> u_strlen dest m; u_strcpy (dest + l) src m }"

function u_strcmp :: "nat \<Rightarrow> nat \<Rightarrow> cmem \<Rightarrow> int option" where
  "u_strcmp s1 s2 m = (case rd m s1 of
      None \<Rightarrow> None
    | Some a \<Rightarrow> (case rd m s2 of
        None \<Rightarrow> None
      | Some b \<Rightarrow> if a \<noteq> 0 \<and> a = b then u_strcmp (Suc s1) (Suc s2) m else Some (uint a - uint b)))"
  by pat_completeness auto
termination
  by (relation "measure (\<lambda>(s1, s2, m). length m - s1)") (auto simp: rd_eq_Some_iff)

text \<open>
  The loop test of \<open>strncmp\<close> decrements \<open>n\<close>. It ends with \<open>n = (size_t)-1\<close> when the count ran out,
  otherwise at the first difference or terminator.
\<close>

primrec u_strncmp_loop :: "nat \<Rightarrow> nat \<Rightarrow> nat \<Rightarrow> cmem \<Rightarrow> int option" where
  "u_strncmp_loop s1 s2 0 m = Some 0"
| "u_strncmp_loop s1 s2 (Suc n) m = do {
     a \<leftarrow> rd m s1;
     if a \<noteq> 0 then do {
       b \<leftarrow> rd m s2;
       if a = b then u_strncmp_loop (Suc s1) (Suc s2) n m else Some (uint a - uint b) }
     else do { b \<leftarrow> rd m s2; Some (uint a - uint b) } }"

definition u_strncmp :: "nat \<Rightarrow> nat \<Rightarrow> nat \<Rightarrow> cmem \<Rightarrow> int option" where
  "u_strncmp s1 s2 n m = (if n = 0 then Some 0 else u_strncmp_loop s1 s2 n m)"

function u_strchr :: "nat \<Rightarrow> int \<Rightarrow> cmem \<Rightarrow> nat option option" where
  "u_strchr s c m = (case rd m s of
      None \<Rightarrow> None
    | Some x \<Rightarrow> if x \<noteq> 0 then (if x = of_int c then Some (Some s) else u_strchr (Suc s) c m)
                else Some (if c = 0 then Some s else None))"
  by pat_completeness auto
termination
  by (relation "measure (\<lambda>(s, c, m). length m - s)") (auto simp: rd_eq_Some_iff)

function u_strrchr_loop :: "nat \<Rightarrow> int \<Rightarrow> nat option \<Rightarrow> cmem \<Rightarrow> nat option option" where
  "u_strrchr_loop s c ret m = (case rd m s of
      None \<Rightarrow> None
    | Some x \<Rightarrow>
        let ret1 = (if x = of_int c then Some s else ret)
        in if x \<noteq> 0 then u_strrchr_loop (Suc s) c ret1 m else Some ret1)"
  by pat_completeness auto
termination
  by (relation "measure (\<lambda>(s, c, ret, m). length m - s)") (auto simp: rd_eq_Some_iff)

definition u_strrchr :: "nat \<Rightarrow> int \<Rightarrow> cmem \<Rightarrow> nat option option" where
  "u_strrchr s c m = u_strrchr_loop s c None m"

section \<open>Tokens\<close>

text \<open>\<open>*s\<close> of type \<open>char\<close>, which is signed, widened to the \<open>int\<close> argument of \<open>strchr\<close>.\<close>

definition as_int :: "u8 \<Rightarrow> int" where
  "as_int c = sint c"

function u_strcspn_loop :: "nat \<Rightarrow> nat \<Rightarrow> nat \<Rightarrow> cmem \<Rightarrow> nat option" where
  "u_strcspn_loop s reject count m = (case rd m s of
      None \<Rightarrow> None
    | Some x \<Rightarrow> if x \<noteq> 0 then (case u_strchr reject (as_int x) m of
          None \<Rightarrow> None
        | Some (Some _) \<Rightarrow> Some count
        | Some None \<Rightarrow> u_strcspn_loop (Suc s) reject (Suc count) m)
      else Some count)"
  by pat_completeness auto
termination
  by (relation "measure (\<lambda>(s, reject, count, m). length m - s)") (auto simp: rd_eq_Some_iff)

definition u_strcspn :: "nat \<Rightarrow> nat \<Rightarrow> cmem \<Rightarrow> nat option" where
  "u_strcspn s reject m = u_strcspn_loop s reject 0 m"

function u_strspn_loop :: "nat \<Rightarrow> nat \<Rightarrow> nat \<Rightarrow> cmem \<Rightarrow> nat option" where
  "u_strspn_loop s accept count m = (case rd m s of
      None \<Rightarrow> None
    | Some x \<Rightarrow> if x \<noteq> 0 then (case u_strchr accept (as_int x) m of
          None \<Rightarrow> None
        | Some (Some _) \<Rightarrow> u_strspn_loop (Suc s) accept (Suc count) m
        | Some None \<Rightarrow> Some count)
      else Some count)"
  by pat_completeness auto
termination
  by (relation "measure (\<lambda>(s, accept, count, m). length m - s)") (auto simp: rd_eq_Some_iff)

definition u_strspn :: "nat \<Rightarrow> nat \<Rightarrow> cmem \<Rightarrow> nat option" where
  "u_strspn s accept m = u_strspn_loop s accept 0 m"

text \<open>The result is the token, the new value of the static \<open>olds\<close>, and the memory.\<close>

definition u_strtok :: "nat option \<Rightarrow> nat \<Rightarrow> nat option \<Rightarrow> cmem \<Rightarrow> (nat option \<times> nat option \<times> cmem) option" where
  "u_strtok str delim olds m =
     (case (case str of None \<Rightarrow> olds | Some s \<Rightarrow> Some s) of
        None \<Rightarrow> Some (None, olds, m)
      | Some s \<Rightarrow> do {
          k \<leftarrow> u_strspn s delim m;
          let tok = s + k;
          c \<leftarrow> rd m tok;
          if c = 0 then Some (None, None, m)
          else do {
            n \<leftarrow> u_strcspn tok delim m;
            let e = tok + n;
            x \<leftarrow> rd m e;
            if x \<noteq> 0 then do { m1 \<leftarrow> wr m e 0; Some (Some tok, Some (Suc e), m1) }
            else Some (Some tok, None, m) } })"

declare u_strlen_loop.simps [simp del] u_strcmp.simps [simp del] u_strcpy.simps [simp del]
  u_strchr.simps [simp del] u_strrchr_loop.simps [simp del] u_strcspn_loop.simps [simp del]
  u_strspn_loop.simps [simp del]

section \<open>Agreement with the kernel's routines\<close>

lemma u_copy_for: "u_copy (d + i) (s + i) n m = for_range (copy_byte d s) i n m"
proof (induction n arbitrary: i m)
  case (Suc n)
  then show ?case using Suc.IH[of "Suc i"] by (simp add: copy_byte_def Option.bind_assoc)
qed simp

lemma u_copy_back_down: "u_copy_back (d + n) (s + n) n m = copy_down d s n m"
  by (induction n arbitrary: m) (simp_all add: copy_byte_def Option.bind_assoc)

lemma u_fill_for: "u_fill (p + i) c n m = for_range (\<lambda>i m. wr m (p + i) c) i n m"
proof (induction n arbitrary: i m)
  case (Suc n)
  then show ?case using Suc.IH[of "Suc i"] by simp
qed simp

lemma u_memcmp_eq: "u_memcmp p q n m = memcmp_loop m p q n"
  by (induction n arbitrary: p q) (simp_all cong: if_cong)

lemma u_strlen_loop_eq: "u_strlen_loop m s len = strlen_loop m s len"
proof (induction m s len rule: strlen_loop.induct)
  case (1 m s len)
  then show ?case by (subst u_strlen_loop.simps, subst strlen_loop.simps) (auto split: option.splits)
qed

lemma u_strcpy_eq: "u_strcpy d s m = strcpy d s m"
proof (induction d s m rule: strcpy.induct)
  case (1 d s m)
  then show ?case by (subst u_strcpy.simps, subst strcpy.simps) (auto split: option.splits)
qed

lemma u_strcmp_eq: "u_strcmp p q m = strcmp p q m"
proof (induction p q m rule: strcmp.induct)
  case (1 p q m)
  then show ?case by (subst u_strcmp.simps, subst strcmp.simps) (auto split: option.splits)
qed

lemma u_strncmp_loop_eq: "u_strncmp_loop p q n m = strncmp_loop m p q n"
  by (induction n arbitrary: p q) (auto split: bind_splits)

lemma find_nul_strlen: "find_nul (d + l) m = map_option ((+) d) (strlen_loop m d l)"
proof (induction m d l rule: strlen_loop.induct)
  case (1 m d l)
  then show ?case by (subst find_nul.simps, subst strlen_loop.simps) (auto split: option.splits)
qed

lemma for_range_shift: "for_range (\<lambda>j m. wr m (d + j) v) i n = for_range (\<lambda>j m. wr m j v) (d + i) n"
proof (induction n arbitrary: i)
  case (Suc n)
  then show ?case using Suc.IH[of "Suc i"] by (intro ext) simp
qed (auto intro: ext)

lemma u_strncpy_eq:
  "Option.bind (u_strncpy_copy d s i k m) (\<lambda>(j, m1). for_range (\<lambda>j m. wr m (d + j) 0) j (i + k - j) m1) =
   strncpy_loop (d + i) (s + i) k m"
proof (induction k arbitrary: i m)
  case (Suc k)
  show ?case using Suc.IH[of "Suc i"]
    by (auto simp: for_range_shift simp del: for_range.simps(2) split: bind_splits)
qed simp

lemma u_strchr_eq: "c = 0 \<or> of_int c \<noteq> (0 :: u8) \<Longrightarrow> u_strchr s c m = strchr_loop s (of_int c) m"
proof (induction s c m rule: u_strchr.induct)
  case (1 s c m)
  then show ?case by (subst u_strchr.simps, subst strchr_loop.simps) (auto split: option.splits)
qed

lemma u_strrchr_loop_eq: "u_strrchr_loop s c p m = strrchr_loop s (of_int c) p m"
proof (induction s c p m rule: u_strrchr_loop.induct)
  case (1 s c p m)
  then show ?case by (subst u_strrchr_loop.simps, subst strrchr_loop.simps) (auto simp: Let_def split: option.splits)
qed

text \<open>
  C18. The C library's routines compute exactly what the kernel's compute, on every memory and every
  argument, faults included, although their loops differ. Two of them agree under a side
  condition only: \<open>memmove\<close> when the regions do not start at the same address, and \<open>strchr\<close> when
  the character is NUL or does not become NUL by conversion to \<open>char\<close>.
\<close>

theorem libc_string_equiv:
  "u_memcpy d s n m = memcpy d s n m \<and>
   (d \<noteq> s \<longrightarrow> u_memmove d s n m = memmove d s n m) \<and>
   u_memset d c n m = memset d c n m \<and>
   u_memcmp d s n m = memcmp d s n m \<and>
   u_strlen s m = strlen s m \<and>
   u_strcpy d s m = strcpy d s m \<and>
   u_strncpy d s n m = strncpy d s n m \<and>
   u_strcat d s m = strcat d s m \<and>
   u_strcmp d s m = strcmp d s m \<and>
   u_strncmp d s n m = strncmp d s n m \<and>
   (c = 0 \<or> of_int c \<noteq> (0 :: u8) \<longrightarrow> u_strchr s c m = strchr s c m) \<and>
   u_strrchr s c m = strrchr s c m"
proof (intro conjI impI)
  show "u_memcpy d s n m = memcpy d s n m"
    using u_copy_for[of d 0 s n m] by (simp add: u_memcpy_def memcpy_def)
  show "d \<noteq> s \<Longrightarrow> u_memmove d s n m = memmove d s n m"
    using u_copy_for[of d 0 s n m] by (auto simp: u_memmove_def memmove_def u_copy_back_down)
  show "u_memset d c n m = memset d c n m"
    using u_fill_for[of d 0 "of_int c" n m] by (simp add: u_memset_def memset_def)
  show "u_memcmp d s n m = memcmp d s n m" by (simp add: memcmp_def u_memcmp_eq)
  show "u_strlen s m = strlen s m" by (simp add: u_strlen_def strlen_def u_strlen_loop_eq)
  show "u_strcpy d s m = strcpy d s m" by (rule u_strcpy_eq)
  show "u_strncpy d s n m = strncpy d s n m"
    using u_strncpy_eq[of d s 0 n m] by (simp add: u_strncpy_def strncpy_def)
  show "u_strcat d s m = strcat d s m" using find_nul_strlen[of d 0 m]
    by (cases "strlen_loop m d 0")
      (simp_all add: u_strcat_def strcat_def u_strlen_def u_strlen_loop_eq u_strcpy_eq)
  show "u_strcmp d s m = strcmp d s m" by (rule u_strcmp_eq)
  show "u_strncmp d s n m = strncmp d s n m"
    by (simp add: u_strncmp_def strncmp_def u_strncmp_loop_eq)
  show "c = 0 \<or> of_int c \<noteq> (0 :: u8) \<Longrightarrow> u_strchr s c m = strchr s c m"
    by (simp add: strchr_def u_strchr_eq)
  show "u_strrchr s c m = strrchr s c m" by (simp add: u_strrchr_def strrchr_def u_strrchr_loop_eq)
qed

theorem libc_string_equiv_witness:
  "u_memmove 1 0 3 [1, 2, 3, 4, 5] = memmove 1 0 3 [1, 2, 3, 4, 5] \<and>
   u_strchr 0 3 [1, 2, 3, 0] = strchr 0 3 [1, 2, 3, 0]"
  using libc_string_equiv[of 1 0 3 "[1, 2, 3, 4, 5]" 0] libc_string_equiv[of 0 0 0 "[1, 2, 3, 0]" 3] by simp

section \<open>Splitting\<close>

lemma of_int_as_int [simp]: "of_int (as_int c) = c"
  by (simp add: as_int_def)

lemma u_strchr_cstr:
  "cstr m p ds \<Longrightarrow> x \<noteq> 0 \<Longrightarrow> \<exists>r. u_strchr p (as_int x) m = Some r \<and> (r \<noteq> None \<longleftrightarrow> x \<in> set ds)"
proof (induction ds arbitrary: p)
  case Nil
  moreover have "as_int x \<noteq> 0" using Nil.prems(2) of_int_as_int[of x] by (metis of_int_0)
  ultimately show ?case by (simp add: u_strchr.simps[of p])
next
  case (Cons d ds)
  then show ?case by (simp add: u_strchr.simps[of p] cstr_Cons)
qed

lemma u_strspn_cstr:
  assumes "cstr m dl ds"
  shows "cstr m p xs \<Longrightarrow>
    u_strspn_loop p dl k m = Some (k + length (takeWhile (\<lambda>x. x \<in> set ds) xs))"
proof (induction xs arbitrary: p k)
  case Nil
  then show ?case by (simp add: u_strspn_loop.simps[of p])
next
  case (Cons x xs)
  then have c: "p < length m" "m ! p = x" "x \<noteq> 0" "cstr m (Suc p) xs" by (simp_all add: cstr_Cons)
  obtain r where "u_strchr dl (as_int x) m = Some r" "r \<noteq> None \<longleftrightarrow> x \<in> set ds"
    using u_strchr_cstr[OF assms c(3)] by blast
  with c Cons.IH[OF c(4), of "Suc k"] show ?case
    by (auto simp: u_strspn_loop.simps[of p] split: option.splits)
qed

lemma u_strcspn_cstr:
  assumes "cstr m dl ds"
  shows "cstr m p xs \<Longrightarrow>
    u_strcspn_loop p dl k m = Some (k + length (takeWhile (\<lambda>x. x \<notin> set ds) xs))"
proof (induction xs arbitrary: p k)
  case Nil
  then show ?case by (simp add: u_strcspn_loop.simps[of p])
next
  case (Cons x xs)
  then have c: "p < length m" "m ! p = x" "x \<noteq> 0" "cstr m (Suc p) xs" by (simp_all add: cstr_Cons)
  obtain r where "u_strchr dl (as_int x) m = Some r" "r \<noteq> None \<longleftrightarrow> x \<in> set ds"
    using u_strchr_cstr[OF assms c(3)] by blast
  with c Cons.IH[OF c(4), of "Suc k"] show ?case
    by (auto simp: u_strcspn_loop.simps[of p] split: option.splits)
qed

lemma cstr_cut:
  assumes "cstr m p (xs @ y # ys)"
  shows "cstr (m[p + length xs := 0]) p xs" "cstr (m[p + length xs := 0]) (Suc (p + length xs)) ys"
proof -
  have y: "cstr m (p + length xs) (y # ys)" by (rule cstr_suffix[OF assms])
  have l: "p + length xs < length m" using y by (simp add: cstr_Cons)
  show "cstr (m[p + length xs := 0]) p xs"
    using assms l unfolding cstr_def
    by (auto simp: drop_update_swap take_append dest: arg_cong[of _ _ "take (length xs)"])
  show "cstr (m[p + length xs := 0]) (Suc (p + length xs)) ys"
    using y unfolding cstr_Cons by (simp add: cstr_def nth_list_update)
qed

lemma strtok_parts:
  fixes m :: cmem
  assumes "cstr m p xs" "cstr m dl ds"
  defines "rest \<equiv> dropWhile (\<lambda>x. x \<in> set ds) xs"
  defines "tok \<equiv> takeWhile (\<lambda>x. x \<notin> set ds) rest"
  shows "rest = [] \<Longrightarrow> u_strtok (Some p) dl olds m = Some (None, None, m)"
    and "rest \<noteq> [] \<Longrightarrow> \<exists>t olds' m'. u_strtok (Some p) dl olds m = Some (Some t, olds', m') \<and>
           t = p + (length xs - length rest) \<and> tok \<noteq> [] \<and> cstr m' t tok \<and>
           (if rest = tok then olds' = None \<and> m' = m
            else \<exists>q. olds' = Some q \<and> cstr m' q (drop (Suc (length tok)) rest))"
proof -
  let ?k = "length (takeWhile (\<lambda>x. x \<in> set ds) xs)"
  have k: "u_strspn p dl m = Some ?k"
    using u_strspn_cstr[OF assms(2,1), of 0] by (simp add: u_strspn_def)
  have split: "takeWhile (\<lambda>x. x \<in> set ds) xs @ rest = xs" by (simp add: rest_def)
  then have kl: "?k = length xs - length rest" by (metis add_diff_cancel_right' length_append)
  have r: "cstr m (p + ?k) rest" using cstr_suffix assms(1) split by metis
  show "rest = [] \<Longrightarrow> u_strtok (Some p) dl olds m = Some (None, None, m)"
    using r k by (simp add: u_strtok_def)
  assume ne: "rest \<noteq> []"
  then obtain x xs' where x: "rest = x # xs'" by (cases rest) auto
  have hd: "x \<notin> set ds" using hd_dropWhile[of "\<lambda>x. x \<in> set ds" xs] x ne unfolding rest_def by simp
  have c: "p + ?k < length m" "m ! (p + ?k) \<noteq> 0" using r x by (auto simp: cstr_Cons)
  have n: "u_strcspn (p + ?k) dl m = Some (length tok)"
    using u_strcspn_cstr[OF assms(2) r, of 0] by (simp add: u_strcspn_def tok_def)
  have tne: "tok \<noteq> []" using x hd by (simp add: tok_def)
  obtain ys where ys: "rest = tok @ ys" unfolding tok_def by (metis takeWhile_dropWhile_id)
  show "\<exists>t olds' m'. u_strtok (Some p) dl olds m = Some (Some t, olds', m') \<and>
           t = p + (length xs - length rest) \<and> tok \<noteq> [] \<and> cstr m' t tok \<and>
           (if rest = tok then olds' = None \<and> m' = m
            else \<exists>q. olds' = Some q \<and> cstr m' q (drop (Suc (length tok)) rest))"
  proof (cases ys)
    case Nil
    then have "p + ?k + length tok < length m" "m ! (p + ?k + length tok) = 0"
      using r ys by (simp_all add: cstr_def)
    then have "u_strtok (Some p) dl olds m = Some (Some (p + ?k), None, m)"
      using k c n by (simp add: u_strtok_def Let_def)
    then show ?thesis using Nil ys r tne kl by auto
  next
    case (Cons z zs)
    let ?e = "p + ?k + length tok"
    have cut: "cstr m (p + ?k) (tok @ z # zs)" using r ys Cons by simp
    have z: "?e < length m" "m ! ?e \<noteq> 0" using cstr_suffix[OF cut] by (auto simp: cstr_Cons)
    then have "u_strtok (Some p) dl olds m = Some (Some (p + ?k), Some (Suc ?e), m[?e := 0])"
      using k c n by (simp add: u_strtok_def Let_def)
    moreover have "drop (Suc (length tok)) rest = zs" using ys Cons by simp
    ultimately show ?thesis using cstr_cut[OF cut] Cons ys tne kl by auto
  qed
qed

text \<open>
  \<open>strtok\<close> on a string \<open>xs\<close> skips the leading delimiters. When nothing is left it returns NULL
  and forgets the string. Otherwise the returned pointer is a string in the new memory that holds
  the longest run without delimiters, and the saved pointer is either NULL, when the token ends
  the string, or a string that holds what follows the one delimiter after the token.
\<close>

theorem strtok_correct:
  assumes "cstr m p xs" "cstr m dl ds"
  shows "let rest = dropWhile (\<lambda>x. x \<in> set ds) xs; tok = takeWhile (\<lambda>x. x \<notin> set ds) rest
         in if rest = [] then u_strtok (Some p) dl olds m = Some (None, None, m)
            else \<exists>t olds' m'. u_strtok (Some p) dl olds m = Some (Some t, olds', m') \<and>
              t = p + (length xs - length rest) \<and> tok \<noteq> [] \<and> cstr m' t tok \<and>
              (if rest = tok then olds' = None \<and> m' = m
               else \<exists>q. olds' = Some q \<and> cstr m' q (drop (Suc (length tok)) rest))"
proof (cases "dropWhile (\<lambda>x. x \<in> set ds) xs = []")
  case True
  show ?thesis unfolding Let_def using strtok_parts(1)[OF assms True] True by simp
next
  case False
  show ?thesis unfolding Let_def if_not_P[OF False] by (rule strtok_parts(2)[OF assms False])
qed

definition demo_tok :: cmem where
  "demo_tok = [32, 97, 98, 32, 99, 0, 32, 0]"

theorem strtok_witness:
  "\<exists>t olds' m'. u_strtok (Some 0) 6 None demo_tok = Some (Some t, olds', m') \<and> t = 1 \<and> cstr m' t [97, 98] \<and>
     (\<exists>q. olds' = Some q \<and> cstr m' q [99])"
proof -
  have "cstr demo_tok 0 [32, 97, 98, 32, 99]" "cstr demo_tok 6 [32]"
    by (simp_all add: cstr_def demo_tok_def)
  from strtok_correct[OF this, of None] show ?thesis by simp
qed

end
