(* ===== verification/Bitmap.thy ===== *)
theory Bitmap
  imports Prelude
begin

text \<open>
  The bit operations of \<open>kernel/src/lib/bitmap.h\<close> on an array of bytes, the interface
  \<open>bit_array\<close> that the physical memory manager relies on, and its interpretation on them.
\<close>

section \<open>The operations of bitmap.h\<close>

definition bitmap_set :: "u8 list \<Rightarrow> nat \<Rightarrow> u8 list option" where
  "bitmap_set bitmap b = do {
     v \<leftarrow> rd bitmap (b div 8);
     wr bitmap (b div 8) (v OR push_bit (b mod 8) 1) }"

definition bitmap_clear :: "u8 list \<Rightarrow> nat \<Rightarrow> u8 list option" where
  "bitmap_clear bitmap b = do {
     v \<leftarrow> rd bitmap (b div 8);
     wr bitmap (b div 8) (v AND NOT (push_bit (b mod 8) 1)) }"

text \<open>The C function returns an int that its callers only compare with zero.\<close>

definition bitmap_test :: "u8 list \<Rightarrow> nat \<Rightarrow> bool option" where
  "bitmap_test bitmap b = do {
     v \<leftarrow> rd bitmap (b div 8);
     Some (v AND push_bit (b mod 8) 1 \<noteq> 0) }"

section \<open>The abstract view: a bounded set of bit numbers\<close>

definition bits :: "u8 list \<Rightarrow> nat set" where
  "bits bm = {b. b < 8 * length bm \<and> bit (bm ! (b div 8)) (b mod 8)}"

locale bit_array =
  fixes test :: "'m \<Rightarrow> nat \<Rightarrow> bool option"
    and set_bit1 :: "'m \<Rightarrow> nat \<Rightarrow> 'm option"
    and clear_bit1 :: "'m \<Rightarrow> nat \<Rightarrow> 'm option"
    and content :: "'m \<Rightarrow> nat set"
    and capacity :: "'m \<Rightarrow> nat"
  assumes test_in: "b < capacity m \<Longrightarrow> test m b = Some (b \<in> content m)"
    and set_in: "b < capacity m \<Longrightarrow>
      \<exists>m'. set_bit1 m b = Some m' \<and> content m' = insert b (content m) \<and> capacity m' = capacity m"
    and clear_in: "b < capacity m \<Longrightarrow>
      \<exists>m'. clear_bit1 m b = Some m' \<and> content m' = content m - {b} \<and> capacity m' = capacity m"
    and test_out: "capacity m \<le> b \<Longrightarrow> test m b = None"
    and set_out: "capacity m \<le> b \<Longrightarrow> set_bit1 m b = None"
    and clear_out: "capacity m \<le> b \<Longrightarrow> clear_bit1 m b = None"
begin

lemma set_then_test:
  assumes "set_bit1 m b = Some m'" "c < capacity m"
  shows "test m' c = Some (c = b \<or> c \<in> content m)"
proof -
  have "b < capacity m"
    using assms(1) set_out[of m b] by (metis not_le option.distinct(1))
  with assms set_in[of b m] show ?thesis by (auto simp: test_in)
qed

lemma clear_then_test:
  assumes "clear_bit1 m b = Some m'" "c < capacity m"
  shows "test m' c = Some (c \<noteq> b \<and> c \<in> content m)"
proof -
  have "b < capacity m"
    using assms(1) clear_out[of m b] by (metis not_le option.distinct(1))
  with assms clear_in[of b m] show ?thesis by (auto simp: test_in)
qed

lemma clear_run:
  assumes "n \<noteq> 0 \<Longrightarrow> a + n \<le> capacity m"
  shows "\<exists>m'. for_range (\<lambda>b m. clear_bit1 m b) a n m = Some m' \<and>
           content m' = content m - {a..<a + n} \<and> capacity m' = capacity m"
proof -
  let ?P = "\<lambda>i m'. content m' = content m - {a..<i} \<and> capacity m' = capacity m"
  have "\<exists>m'. for_range (\<lambda>b m. clear_bit1 m b) a n m = Some m' \<and> ?P (a + n) m'"
  proof (rule for_range_invariant)
    show "?P a m" by simp
    fix i m1
    assume i: "a \<le> i" "i < a + n" and P: "?P i m1"
    then have "i < capacity m1" using assms by simp
    from clear_in[OF this] P i show "\<exists>m2. clear_bit1 m1 i = Some m2 \<and> ?P (Suc i) m2"
      by (auto simp: atLeastLessThanSuc)
  qed
  then show ?thesis by simp
qed

end

section \<open>The byte array implements the interface\<close>

lemma bits_less: "b \<in> bits bm \<Longrightarrow> b < 8 * length bm"
  by (simp add: bits_def)

lemma byte_index: "b < 8 * length (bm :: u8 list) \<longleftrightarrow> b div 8 < length bm"
  by auto

lemma same_bit: "b div 8 = c div 8 \<Longrightarrow> b mod 8 = c mod 8 \<Longrightarrow> b = (c :: nat)"
  by (metis mult_div_mod_eq)

lemma bitmap_test_in: "b < 8 * length bm \<Longrightarrow> bitmap_test bm b = Some (b \<in> bits bm)"
  by (simp add: bitmap_test_def bits_def byte_index and_exp_eq_0_iff_not_bit)

lemma bits_update:
  assumes "b < 8 * length bm"
  shows "c \<in> bits (bm[b div 8 := v]) \<longleftrightarrow>
    c < 8 * length bm \<and> bit (if c div 8 = b div 8 then v else bm ! (c div 8)) (c mod 8)"
  using assms by (auto simp: bits_def byte_index nth_list_update)

lemma mod_8_bit: "bit (2 ^ (b mod 8) :: u8) (c mod 8) \<longleftrightarrow> b mod 8 = c mod 8"
  by (auto simp: bit_exp_iff)

lemma bitmap_set_in:
  assumes "b < 8 * length bm"
  shows "\<exists>bm'. bitmap_set bm b = Some bm' \<and> bits bm' = insert b (bits bm) \<and> length bm' = length bm"
proof -
  let ?v = "bm ! (b div 8) OR 2 ^ (b mod 8)"
  have "c \<in> bits (bm[b div 8 := ?v]) \<longleftrightarrow> c = b \<or> c \<in> bits bm" for c
    unfolding bits_update[OF assms] using assms same_bit[of b c]
    by (auto simp: bit_or_iff mod_8_bit bits_def split: if_splits)
  then have "bits (bm[b div 8 := ?v]) = insert b (bits bm)" by auto
  then show ?thesis
    using assms by (simp add: bitmap_set_def byte_index)
qed

lemma bitmap_clear_in:
  assumes "b < 8 * length bm"
  shows "\<exists>bm'. bitmap_clear bm b = Some bm' \<and> bits bm' = bits bm - {b} \<and> length bm' = length bm"
proof -
  let ?v = "bm ! (b div 8) AND NOT (2 ^ (b mod 8))"
  have "c \<in> bits (bm[b div 8 := ?v]) \<longleftrightarrow> c \<noteq> b \<and> c \<in> bits bm" for c
    unfolding bits_update[OF assms] using assms same_bit[of b c]
    by (auto simp: bit_and_iff bit_not_iff mod_8_bit bits_def split: if_splits)
  then have "bits (bm[b div 8 := ?v]) = bits bm - {b}" by auto
  then show ?thesis
    using assms by (simp add: bitmap_clear_def byte_index)
qed

interpretation bm: bit_array bitmap_test bitmap_set bitmap_clear bits "\<lambda>bm. 8 * length bm"
proof unfold_locales
  fix b and m :: "u8 list"
  show "b < 8 * length m \<Longrightarrow> bitmap_test m b = Some (b \<in> bits m)"
    by (rule bitmap_test_in)
  show "b < 8 * length m \<Longrightarrow>
      \<exists>m'. bitmap_set m b = Some m' \<and> bits m' = insert b (bits m) \<and> 8 * length m' = 8 * length m"
    using bitmap_set_in[of b m] by auto
  show "b < 8 * length m \<Longrightarrow>
      \<exists>m'. bitmap_clear m b = Some m' \<and> bits m' = bits m - {b} \<and> 8 * length m' = 8 * length m"
    using bitmap_clear_in[of b m] by auto
qed (auto simp: bitmap_test_def bitmap_set_def bitmap_clear_def)

end
