(* ===== verification/Pmm.thy ===== *)
theory Pmm
  imports Bitmap
begin

text \<open>
  The physical memory manager, \<open>kernel/src/mm/pmm.c\<close>: a bitmap allocator for 4 KiB page frames
  with a reference count per frame. The static variables of the file are the fields of \<open>pmm\<close>; the
  further field \<open>ram\<close> is the physical memory the manager clears through the higher-half direct map,
  as the 64-bit cell at each 8-byte-aligned physical address. A critical section under the
  spinlock of the file is one atomic step of the model, and console messages are left out.
  The boot loader's memory map is an argument: a list of entries, or \<open>None\<close> when the boot loader
  gave no response; \<open>usable\<close> says whether the entry's type is the usable one.
\<close>

section \<open>State\<close>

definition PMM_PAGE_SIZE :: u64 where "PMM_PAGE_SIZE = 4096"

definition MAX_PAGES :: nat where "MAX_PAGES = 262144"

record memmap_entry =
  base :: u64
  len :: u64
  usable :: bool

record pmm =
  bitmap :: "u8 list option"
  max_page_index :: u64
  usable_pages :: u64
  used_pages :: u64
  highest_address :: u64
  hhdm_offset :: u64
  page_refcount :: "nat \<Rightarrow> u16"
  ram :: "u64 \<Rightarrow> u64"

text \<open>A null bitmap pointer has no accessible byte.\<close>

definition bm_bytes :: "pmm \<Rightarrow> u8 list" where
  "bm_bytes s = (case bitmap s of None \<Rightarrow> [] | Some bm \<Rightarrow> bm)"

definition phys_to_virt :: "pmm \<Rightarrow> u64 \<Rightarrow> u64" where
  "phys_to_virt s phys = phys + hhdm_offset s"

text \<open>\<open>memset(va, 0, n)\<close> at an address of the direct map.\<close>

definition hhdm_zero :: "pmm \<Rightarrow> u64 \<Rightarrow> u64 \<Rightarrow> pmm" where
  "hhdm_zero s va n =
     (let a = va - hhdm_offset s
      in s\<lparr>ram := (\<lambda>x. if unat a \<le> unat x \<and> unat x < unat a + unat n then 0 else ram s x)\<rparr>)"

text \<open>The array \<open>page_refcount[MAX_PAGES]\<close>, with its bound checked at every access.\<close>

definition refcount_rd :: "nat \<Rightarrow> pmm \<Rightarrow> u16 option" where
  "refcount_rd i s = (if i < MAX_PAGES then Some (page_refcount s i) else None)"

definition refcount_wr :: "nat \<Rightarrow> u16 \<Rightarrow> pmm \<Rightarrow> pmm option" where
  "refcount_wr i v s =
     (if i < MAX_PAGES then Some (s\<lparr>page_refcount := (page_refcount s)(i := v)\<rparr>) else None)"

section \<open>Initialisation\<close>

text \<open>Pass 1: the highest physical address, a running maximum.\<close>

fun pmm_find_highest :: "memmap_entry list \<Rightarrow> u64 \<Rightarrow> u64" where
  "pmm_find_highest [] h = h"
| "pmm_find_highest (e # es) h =
     (let top = base e + len e in pmm_find_highest es (if top > h then top else h))"

text \<open>Pass 2: the first usable entry that holds the bitmap; it is shortened by the bitmap's pages.\<close>

fun pmm_place_bitmap :: "u64 \<Rightarrow> memmap_entry list \<Rightarrow> memmap_entry list \<times> u64 option" where
  "pmm_place_bitmap bitmap_size [] = ([], None)"
| "pmm_place_bitmap bitmap_size (e # es) =
     (if usable e \<and> len e \<ge> bitmap_size then
        let bitmap_pages = (bitmap_size + PMM_PAGE_SIZE - 1) div PMM_PAGE_SIZE
        in (e\<lparr>base := base e + bitmap_pages * PMM_PAGE_SIZE,
              len := len e - bitmap_pages * PMM_PAGE_SIZE\<rparr> # es, Some (base e))
      else let (es', r) = pmm_place_bitmap bitmap_size es in (e # es', r))"

text \<open>Pass 3: usable pages become free in the bitmap and are counted.\<close>

fun pmm_free_usable :: "memmap_entry list \<Rightarrow> u8 list \<Rightarrow> u64 \<Rightarrow> (u8 list \<times> u64) option" where
  "pmm_free_usable [] bm n = Some (bm, n)"
| "pmm_free_usable (e # es) bm n =
     (if usable e then do {
        let start_page = base e div PMM_PAGE_SIZE;
        let page_count = len e div PMM_PAGE_SIZE;
        bm' \<leftarrow> for_range (\<lambda>p bm. bitmap_clear bm p) (unat start_page) (unat page_count) bm;
        pmm_free_usable es bm' (n + page_count) }
      else pmm_free_usable es bm n)"

definition pmm_init ::
  "memmap_entry list option \<Rightarrow> u64 option \<Rightarrow> pmm \<Rightarrow> (memmap_entry list option \<times> pmm) option" where
  "pmm_init memmap hhdm s =
     (case (memmap, hhdm) of
        (Some entries, Some off) \<Rightarrow>
          let s1 = s\<lparr>hhdm_offset := off,
                     highest_address := pmm_find_highest entries (highest_address s)\<rparr>;
              s2 = s1\<lparr>max_page_index := highest_address s1 div PMM_PAGE_SIZE\<rparr>;
              bitmap_size = (max_page_index s2 + 7) div 8;
              (entries', place) = pmm_place_bitmap bitmap_size entries;
              s3 = (case place of
                      None \<Rightarrow> s2
                    | Some _ \<Rightarrow> s2\<lparr>bitmap := Some (replicate (unat bitmap_size) 0xFF)\<rparr>)
          in (case bitmap s3 of
                None \<Rightarrow> Some (Some entries', s3)
              | Some bm \<Rightarrow> do {
                  (bm', usable') \<leftarrow> pmm_free_usable entries' bm (usable_pages s3);
                  t \<leftarrow> bitmap_test bm' 0;
                  bm'' \<leftarrow> (if \<not> t then bitmap_set bm' 0 else Some bm');
                  Some (Some entries',
                    s3\<lparr>bitmap := Some bm'', usable_pages := usable',
                       used_pages := (if \<not> t then 1 else 0),
                       page_refcount := (\<lambda>_. 0)\<rparr>) })
      | _ \<Rightarrow> Some (memmap, s))"

section \<open>Single frames\<close>

text \<open>\<open>pmm_scan bm i n\<close>: the first clear bit among \<open>i, \<dots>, i + n - 1\<close>.\<close>

primrec pmm_scan :: "u8 list \<Rightarrow> nat \<Rightarrow> nat \<Rightarrow> nat option option" where
  "pmm_scan bm i 0 = Some None"
| "pmm_scan bm i (Suc n) = do {
     t \<leftarrow> bitmap_test bm i;
     if \<not> t then Some (Some i) else pmm_scan bm (Suc i) n }"

text \<open>The bookkeeping of one allocated frame.\<close>

definition pmm_take :: "nat \<Rightarrow> pmm \<Rightarrow> pmm option" where
  "pmm_take i s = do {
     bm \<leftarrow> bitmap_set (bm_bytes s) i;
     let s1 = s\<lparr>bitmap := Some bm, used_pages := used_pages s + 1\<rparr>;
     if i < MAX_PAGES then refcount_wr i 1 s1 else Some s1 }"

definition pmm_alloc_page :: "pmm \<Rightarrow> (u64 \<times> pmm) option" where
  "pmm_alloc_page s = do {
     r \<leftarrow> pmm_scan (bm_bytes s) 1 (unat (max_page_index s) - 1);
     (case r of
        None \<Rightarrow> Some (0, s)
      | Some i \<Rightarrow> do {
          s1 \<leftarrow> pmm_take i s;
          let addr = of_nat i * PMM_PAGE_SIZE;
          Some (addr, hhdm_zero s1 (phys_to_virt s1 addr) PMM_PAGE_SIZE) }) }"

definition pmm_free_page :: "u64 \<Rightarrow> pmm \<Rightarrow> pmm option" where
  "pmm_free_page phys_addr s =
     (let page = phys_addr div PMM_PAGE_SIZE
      in if page = 0 \<or> page \<ge> max_page_index s then Some s
         else do {
           t \<leftarrow> bitmap_test (bm_bytes s) (unat page);
           if t then do {
             bm \<leftarrow> bitmap_clear (bm_bytes s) (unat page);
             let s1 = s\<lparr>bitmap := Some bm, used_pages := used_pages s - 1\<rparr>;
             if unat page < MAX_PAGES then refcount_wr (unat page) 0 s1 else Some s1 }
           else Some s })"

section \<open>Runs of frames\<close>

text \<open>
  The inner loop: the distance to the first set bit of the run, \<open>None\<close> when all \<open>count\<close> bits
  below \<open>max_page_index\<close> are clear. \<open>m\<close> is the number of bits left below \<open>max_page_index\<close> and
  \<open>j\<close> the loop counter.
\<close>

primrec pmm_run_blocked :: "u8 list \<Rightarrow> nat \<Rightarrow> nat \<Rightarrow> nat \<Rightarrow> nat \<Rightarrow> nat option option" where
  "pmm_run_blocked bm i j count 0 = Some None"
| "pmm_run_blocked bm i j count (Suc m) =
     (if j < count then do {
        t \<leftarrow> bitmap_test bm (i + j);
        if t then Some (Some j) else pmm_run_blocked bm i (Suc j) count m }
      else Some None)"

text \<open>The outer loop. The sum \<open>i + count\<close> of the C code is taken in 64 bits.\<close>

function pmm_find_run :: "u8 list \<Rightarrow> u64 \<Rightarrow> u64 \<Rightarrow> nat \<Rightarrow> nat option option" where
  "pmm_find_run bm count mx i =
     (if i < unat mx then do {
        b \<leftarrow> pmm_run_blocked bm i 0 (unat count) (unat mx - i);
        (case b of
           Some j \<Rightarrow> pmm_find_run bm count mx (Suc (i + j))
         | None \<Rightarrow> if of_nat i + count \<le> mx then Some (Some i)
                   else pmm_find_run bm count mx (Suc i)) }
      else Some None)"
  by pat_completeness auto
termination
  by (relation "measure (\<lambda>(bm, count, mx, i). unat mx - i)") auto

declare pmm_find_run.simps [simp del]

definition pmm_alloc_pages :: "u64 \<Rightarrow> pmm \<Rightarrow> (u64 \<times> pmm) option" where
  "pmm_alloc_pages count s =
     (if count = 0 then Some (0, s)
      else if count = 1 then pmm_alloc_page s
      else do {
        r \<leftarrow> pmm_find_run (bm_bytes s) count (max_page_index s) 1;
        (case r of
           None \<Rightarrow> Some (0, s)
         | Some i \<Rightarrow> do {
             s1 \<leftarrow> for_range pmm_take i (unat count) s;
             let addr = of_nat i * PMM_PAGE_SIZE;
             Some (addr, hhdm_zero s1 (phys_to_virt s1 addr) (count * PMM_PAGE_SIZE)) }) })"

definition pmm_free_pages :: "u64 \<Rightarrow> u64 \<Rightarrow> pmm \<Rightarrow> pmm option" where
  "pmm_free_pages phys_addr count s =
     for_range (\<lambda>i. pmm_free_page (phys_addr + of_nat i * PMM_PAGE_SIZE)) 0 (unat count) s"

section \<open>Statistics and reference counts\<close>

definition pmm_get_total_memory :: "pmm \<Rightarrow> u64" where
  "pmm_get_total_memory s = usable_pages s * PMM_PAGE_SIZE"

definition pmm_get_free_memory :: "pmm \<Rightarrow> u64" where
  "pmm_get_free_memory s = (usable_pages s - used_pages s) * PMM_PAGE_SIZE"

definition pmm_get_total_page_count :: "pmm \<Rightarrow> u64" where
  "pmm_get_total_page_count s = usable_pages s"

definition pmm_get_free_page_count :: "pmm \<Rightarrow> u64" where
  "pmm_get_free_page_count s = usable_pages s - used_pages s"

definition pmm_page_ref :: "u64 \<Rightarrow> pmm \<Rightarrow> pmm option" where
  "pmm_page_ref phys s =
     (let page = phys div PMM_PAGE_SIZE
      in if unat page \<ge> MAX_PAGES then Some s
         else do {
           c \<leftarrow> refcount_rd (unat page) s;
           refcount_wr (unat page) (c + 1) s })"

definition pmm_page_unref :: "u64 \<Rightarrow> pmm \<Rightarrow> pmm option" where
  "pmm_page_unref phys s =
     (let page = phys div PMM_PAGE_SIZE
      in if unat page \<ge> MAX_PAGES \<or> page = 0 then Some s
         else do {
           c \<leftarrow> refcount_rd (unat page) s;
           if c > 0 then do {
             s1 \<leftarrow> refcount_wr (unat page) (c - 1) s;
             if c - 1 = 0 then do {
               t \<leftarrow> bitmap_test (bm_bytes s1) (unat page);
               if t then do {
                 bm \<leftarrow> bitmap_clear (bm_bytes s1) (unat page);
                 Some (s1\<lparr>bitmap := Some bm, used_pages := used_pages s1 - 1\<rparr>) }
               else Some s1 }
             else Some s1 }
           else Some s })"

definition pmm_page_refcount :: "u64 \<Rightarrow> pmm \<Rightarrow> u16 option" where
  "pmm_page_refcount phys s =
     (let page = phys div PMM_PAGE_SIZE
      in if unat page \<ge> MAX_PAGES then Some 0 else refcount_rd (unat page) s)"

section \<open>The abstract view: the set of free frames\<close>

definition free_frames :: "pmm \<Rightarrow> nat set" where
  "free_frames s = {p. p < unat (max_page_index s) \<and> p \<notin> bits (bm_bytes s)}"

definition pmm_wf :: "pmm \<Rightarrow> bool" where
  "pmm_wf s \<longleftrightarrow>
     bitmap s \<noteq> None \<and>
     unat (max_page_index s) \<le> 8 * length (bm_bytes s) \<and>
     unat (max_page_index s) \<le> 2 ^ 52 \<and>
     0 \<notin> free_frames s \<and>
     usable_pages s - used_pages s = of_nat (card (free_frames s)) \<and>
     (\<forall>p \<in> free_frames s. p < MAX_PAGES \<longrightarrow> page_refcount s p = 0)"

lemma finite_free_frames [simp]: "finite (free_frames s)"
  by (rule finite_subset[of _ "{..< unat (max_page_index s)}"]) (auto simp: free_frames_def)

lemma free_frames_less: "p \<in> free_frames s \<Longrightarrow> p < unat (max_page_index s)"
  by (simp add: free_frames_def)

lemma free_frames_cong:
  "bm_bytes s = bm_bytes t \<Longrightarrow> max_page_index s = max_page_index t \<Longrightarrow>
   free_frames s = free_frames t"
  by (simp add: free_frames_def)

lemma free_frames_ram [simp]: "free_frames (s\<lparr>ram := r\<rparr>) = free_frames s"
  by (rule free_frames_cong) (simp_all add: bm_bytes_def)

lemma free_frames_refcount [simp]: "free_frames (s\<lparr>page_refcount := r\<rparr>) = free_frames s"
  by (rule free_frames_cong) (simp_all add: bm_bytes_def)

lemma pmm_wf_ram [simp]: "pmm_wf (s\<lparr>ram := r\<rparr>) = pmm_wf s"
  by (simp add: pmm_wf_def bm_bytes_def)

lemma pmm_wf_bound:
  assumes "pmm_wf s" "p < unat (max_page_index s)"
  shows "p < 8 * length (bm_bytes s)" "p < 2 ^ 52"
  using assms by (auto simp: pmm_wf_def)

lemma hhdm_zero_phys:
  "hhdm_zero s (phys_to_virt s a) n =
     s\<lparr>ram := (\<lambda>x. if unat a \<le> unat x \<and> unat x < unat a + unat n then 0 else ram s x)\<rparr>"
  by (simp add: hhdm_zero_def phys_to_virt_def)

lemma pmm_scan_spec:
  assumes "i + n \<le> 8 * length bm"
  shows "(pmm_scan bm i n = Some None \<and> {i..<i + n} \<subseteq> bits bm) \<or>
         (\<exists>p. pmm_scan bm i n = Some (Some p) \<and> i \<le> p \<and> p < i + n \<and> p \<notin> bits bm \<and>
              {i..<p} \<subseteq> bits bm)"
  using assms
proof (induction n arbitrary: i)
  case 0
  then show ?case by simp
next
  case (Suc n)
  have t: "bitmap_test bm i = Some (i \<in> bits bm)"
    using Suc.prems by (intro bm.test_in) simp
  show ?case
  proof (cases "i \<in> bits bm")
    case True
    then have eq: "pmm_scan bm i (Suc n) = pmm_scan bm (Suc i) n" by (simp add: t)
    have ins: "{i..<m} \<subseteq> bits bm \<longleftrightarrow> {Suc i..<m} \<subseteq> bits bm" for m
    proof (cases "i < m")
      case lt: True
      then have "{i..<m} = insert i {Suc i..<m}" by auto
      with True show ?thesis by simp
    qed simp
    from Suc.IH[of "Suc i"] Suc.prems show ?thesis
      unfolding eq ins by auto
  next
    case False
    then show ?thesis by (simp add: t)
  qed
qed

text \<open>One frame moves between the free and the used side.\<close>

lemma pmm_take_spec:
  assumes wf: "pmm_wf s" and p: "p \<in> free_frames s"
  shows "\<exists>s' bm'. pmm_take p s = Some s' \<and> pmm_wf s' \<and> free_frames s' = free_frames s - {p} \<and>
           s' = s\<lparr>bitmap := Some bm', used_pages := used_pages s + 1,
                  page_refcount := (page_refcount s)(p := if p < MAX_PAGES then 1 else page_refcount s p)\<rparr>"
proof -
  have lt: "p < unat (max_page_index s)" using p by (rule free_frames_less)
  from bm.set_in[OF pmm_wf_bound(1)[OF wf lt]] obtain bm'
    where bm': "bitmap_set (bm_bytes s) p = Some bm'" "bits bm' = insert p (bits (bm_bytes s))"
      "8 * length bm' = 8 * length (bm_bytes s)" by auto
  define s' where "s' = s\<lparr>bitmap := Some bm', used_pages := used_pages s + 1,
     page_refcount := (page_refcount s)(p := if p < MAX_PAGES then 1 else page_refcount s p)\<rparr>"
  have eq: "pmm_take p s = Some s'"
    by (simp add: pmm_take_def bm'(1) s'_def refcount_wr_def)
  have fr: "free_frames s' = free_frames s - {p}"
    by (auto simp: free_frames_def s'_def bm_bytes_def bm'(2))
  have "card (free_frames s) = Suc (card (free_frames s'))"
    using card.remove[OF finite_free_frames p] by (simp add: fr)
  with wf have "usable_pages s - used_pages s = 1 + of_nat (card (free_frames s'))"
    by (simp add: pmm_wf_def)
  then have cnt: "usable_pages s' - used_pages s' = of_nat (card (free_frames s'))"
    by (simp add: s'_def diff_diff_eq[symmetric])
  have "pmm_wf s'"
    unfolding pmm_wf_def cnt using wf bm'(3)
    by (simp add: fr pmm_wf_def) (simp add: s'_def bm_bytes_def)
  with eq fr show ?thesis unfolding s'_def by blast
qed

lemma pmm_alloc_page_none:
  assumes "pmm_wf s" "free_frames s = {}"
  shows "pmm_alloc_page s = Some (0, s)"
proof -
  have "1 + (unat (max_page_index s) - 1) \<le> 8 * length (bm_bytes s)
      \<or> unat (max_page_index s) - 1 = 0"
    using assms(1) by (auto simp: pmm_wf_def)
  then show ?thesis
  proof
    assume "1 + (unat (max_page_index s) - 1) \<le> 8 * length (bm_bytes s)"
    from pmm_scan_spec[OF this]
    have "pmm_scan (bm_bytes s) 1 (unat (max_page_index s) - 1) = Some None"
      using assms(2) by (elim disjE) (simp, fastforce simp: free_frames_def)
    then show ?thesis by (simp add: pmm_alloc_page_def)
  qed (simp add: pmm_alloc_page_def)
qed

lemma pmm_alloc_page_some:
  assumes wf: "pmm_wf s" and ne: "free_frames s \<noteq> {}"
  defines "p \<equiv> Min (free_frames s)"
  shows "\<exists>s1. pmm_take p s = Some s1 \<and>
     pmm_alloc_page s = Some (of_nat p * PMM_PAGE_SIZE,
       s1\<lparr>ram := (\<lambda>x. if p * 4096 \<le> unat x \<and> unat x < p * 4096 + 4096 then 0 else ram s x)\<rparr>)"
proof -
  have pin: "p \<in> free_frames s" and least: "\<And>q. q \<in> free_frames s \<Longrightarrow> p \<le> q"
    using ne by (auto simp: p_def)
  have p0: "0 < p" using wf pin by (cases p) (auto simp: pmm_wf_def)
  have lt: "p < unat (max_page_index s)" using pin by (rule free_frames_less)
  have "1 + (unat (max_page_index s) - 1) \<le> 8 * length (bm_bytes s)"
    using wf lt p0 by (auto simp: pmm_wf_def)
  from pmm_scan_spec[OF this] have scan: "pmm_scan (bm_bytes s) 1 (unat (max_page_index s) - 1) = Some (Some p)"
  proof (elim disjE conjE exE)
    assume "{1..<1 + (unat (max_page_index s) - 1)} \<subseteq> bits (bm_bytes s)"
    with lt p0 have "p \<in> bits (bm_bytes s)" by auto
    with pin show ?thesis by (simp add: free_frames_def)
  next
    fix q assume q: "pmm_scan (bm_bytes s) 1 (unat (max_page_index s) - 1) = Some (Some q)"
      "1 \<le> q" "q < 1 + (unat (max_page_index s) - 1)" "q \<notin> bits (bm_bytes s)"
      "{1..<q} \<subseteq> bits (bm_bytes s)"
    then have "q \<in> free_frames s" by (auto simp: free_frames_def)
    then have "p \<le> q" by (rule least)
    moreover have "\<not> p < q"
      using subsetD[OF q(5), of p] pin p0 by (auto simp: free_frames_def)
    ultimately show ?thesis using q(1) by simp
  qed
  from pmm_take_spec[OF wf pin] obtain s1 bm' where s1: "pmm_take p s = Some s1"
    "s1 = s\<lparr>bitmap := Some bm', used_pages := used_pages s + 1,
       page_refcount := (page_refcount s)(p := if p < MAX_PAGES then 1 else page_refcount s p)\<rparr>"
    by auto
  have r: "ram s1 = ram s" by (simp add: s1(2))
  have "unat (of_nat p * PMM_PAGE_SIZE) = p * 4096"
    using pmm_wf_bound(2)[OF wf lt] by (simp add: PMM_PAGE_SIZE_def frame_address)
  then show ?thesis
    by (simp add: pmm_alloc_page_def scan[unfolded One_nat_def] s1(1) hhdm_zero_phys r)
       (simp add: PMM_PAGE_SIZE_def r cong: if_cong)
qed

section \<open>Runs of frames: the search and the marking loop\<close>

lemma pmm_run_blocked_spec:
  assumes "i + j + m \<le> 8 * length bm"
  shows "(pmm_run_blocked bm i j count m = Some None \<and>
            {i + j..<min (i + count) (i + j + m)} \<inter> bits bm = {}) \<or>
         (\<exists>k. pmm_run_blocked bm i j count m = Some (Some k) \<and> j \<le> k \<and> k < count \<and> k < j + m \<and>
            i + k \<in> bits bm)"
  using assms
proof (induction m arbitrary: j)
  case 0
  then show ?case by simp
next
  case (Suc m)
  have t: "bitmap_test bm (i + j) = Some (i + j \<in> bits bm)"
    using Suc.prems by (intro bm.test_in) simp
  consider "\<not> j < count" | "j < count" "i + j \<in> bits bm" | "j < count" "i + j \<notin> bits bm" by blast
  then show ?case
  proof cases
    case 3
    then have eq: "pmm_run_blocked bm i j count (Suc m) = pmm_run_blocked bm i (Suc j) count m"
      by (simp add: t)
    have "{i + j..<min (i + count) (i + j + Suc m)} =
        insert (i + j) {i + Suc j..<min (i + count) (i + Suc j + m)}"
      using 3(1) by auto
    with Suc.IH[of "Suc j"] Suc.prems 3 show ?thesis unfolding eq by auto
  qed (auto simp: t)
qed

text \<open>A frame number at which the search of \<open>pmm_alloc_pages\<close> stops.\<close>

definition run_at :: "u8 list \<Rightarrow> u64 \<Rightarrow> u64 \<Rightarrow> nat \<Rightarrow> bool" where
  "run_at bm count mx i \<longleftrightarrow>
     {i..<min (i + unat count) (unat mx)} \<inter> bits bm = {} \<and> of_nat i + count \<le> mx"

lemma run_at_blocked:
  assumes "i \<le> i'" "i' \<le> i + j" "j < unat count" "i + j < unat mx" "i + j \<in> bits bm"
  shows "\<not> run_at bm count mx i'"
proof -
  have "i + j \<in> {i'..<min (i' + unat count) (unat mx)}" using assms by auto
  with assms(5) show ?thesis by (auto simp: run_at_def)
qed

text \<open>The first stop at or after \<open>i\<close>.\<close>

definition first_run :: "u8 list \<Rightarrow> u64 \<Rightarrow> u64 \<Rightarrow> nat \<Rightarrow> nat option \<Rightarrow> bool" where
  "first_run bm count mx i r \<longleftrightarrow>
     (case r of
        None \<Rightarrow> \<forall>i'. i \<le> i' \<and> i' < unat mx \<longrightarrow> \<not> run_at bm count mx i'
      | Some p \<Rightarrow> i \<le> p \<and> p < unat mx \<and> run_at bm count mx p \<and>
          (\<forall>i'. i \<le> i' \<and> i' < p \<longrightarrow> \<not> run_at bm count mx i'))"

lemma first_run_skip:
  assumes r: "first_run bm count mx k r" and "i < k"
    and no: "\<And>i'. i \<le> i' \<Longrightarrow> i' < k \<Longrightarrow> \<not> run_at bm count mx i'"
  shows "first_run bm count mx i r"
proof -
  have ext: "\<forall>i'. i \<le> i' \<and> i' < m \<longrightarrow> \<not> run_at bm count mx i'"
    if "\<forall>i'. k \<le> i' \<and> i' < m \<longrightarrow> \<not> run_at bm count mx i'" for m
    using that no not_le by blast
  show ?thesis
  proof (cases r)
    case None
    then show ?thesis using r ext by (simp add: first_run_def)
  next
    case (Some p)
    then have "k \<le> p" "p < unat mx" "run_at bm count mx p"
      "\<forall>i'. k \<le> i' \<and> i' < p \<longrightarrow> \<not> run_at bm count mx i'"
      using r by (simp_all add: first_run_def)
    with ext[of p] \<open>i < k\<close> Some show ?thesis by (simp add: first_run_def)
  qed
qed

lemma pmm_find_run_spec:
  assumes "unat mx \<le> 8 * length bm"
  shows "\<exists>r. pmm_find_run bm count mx i = Some r \<and> first_run bm count mx i r"
  using assms
proof (induction bm count mx i rule: pmm_find_run.induct)
  case (1 bm count mx i)
  show ?case
  proof (cases "i < unat mx")
    case False
    then show ?thesis by (auto simp: pmm_find_run.simps[of bm count mx i] first_run_def)
  next
    case lt: True
    have "i + 0 + (unat mx - i) \<le> 8 * length bm" using lt "1.prems" by simp
    from pmm_run_blocked_spec[OF this, of "unat count"] show ?thesis
    proof (elim disjE conjE exE)
      assume b: "pmm_run_blocked bm i 0 (unat count) (unat mx - i) = Some None"
        and free: "{i + 0..<min (i + unat count) (i + 0 + (unat mx - i))} \<inter> bits bm = {}"
      show ?thesis
      proof (cases "of_nat i + count \<le> mx")
        case True
        then show ?thesis
          using lt b free
          by (auto simp: pmm_find_run.simps[of bm count mx i] first_run_def run_at_def)
      next
        case False
        from "1.IH"(1)[OF lt b refl False] obtain r where
          r: "pmm_find_run bm count mx (Suc i) = Some r" "first_run bm count mx (Suc i) r"
          using "1.prems" by auto
        from r(2) have "first_run bm count mx i r"
          by (rule first_run_skip) (use False in \<open>auto simp: run_at_def less_Suc_eq\<close>)
        with lt b False r(1) show ?thesis
          by (simp add: pmm_find_run.simps[of bm count mx i])
      qed
    next
      fix j assume b: "pmm_run_blocked bm i 0 (unat count) (unat mx - i) = Some (Some j)"
        and j: "j < unat count" "j < 0 + (unat mx - i)" "i + j \<in> bits bm"
      from "1.IH"(2)[OF lt b refl] obtain r where
        r: "pmm_find_run bm count mx (Suc (i + j)) = Some r" "first_run bm count mx (Suc (i + j)) r"
        using "1.prems" by auto
      from r(2) have "first_run bm count mx i r"
        by (rule first_run_skip) (use j in \<open>simp_all add: run_at_blocked[of i _ j]\<close>)
      with lt b r(1) show ?thesis
        by (simp add: pmm_find_run.simps[of bm count mx i])
    qed
  qed
qed

text \<open>Without 64-bit overflow of \<open>i + count\<close> the search looks for free runs.\<close>

lemma run_at_free:
  assumes "pmm_wf s" "unat (max_page_index s) + unat count < 2 ^ 64" "0 < unat count"
    "i < unat (max_page_index s)"
  shows "run_at (bm_bytes s) count (max_page_index s) i \<longleftrightarrow> {i..<i + unat count} \<subseteq> free_frames s"
proof -
  have "unat (of_nat i + count) = i + unat count"
    using assms by (simp add: unat_add_lem[THEN iffD1] order.strict_trans)
  then have le: "of_nat i + count \<le> max_page_index s \<longleftrightarrow> i + unat count \<le> unat (max_page_index s)"
    by (simp add: word_le_nat_alt)
  show ?thesis
  proof (cases "i + unat count \<le> unat (max_page_index s)")
    case True
    then show ?thesis by (auto simp: run_at_def le free_frames_def)
  next
    case False
    then have "unat (max_page_index s) \<in> {i..<i + unat count}" using assms(4) by simp
    then have "\<not> {i..<i + unat count} \<subseteq> free_frames s"
      using free_frames_less by blast
    with False show ?thesis by (simp add: run_at_def le)
  qed
qed

lemma pmm_take_run:
  assumes "pmm_wf s" "{i..<i + n} \<subseteq> free_frames s"
  shows "\<exists>s' bm' u'. for_range pmm_take i n s = Some s' \<and> pmm_wf s' \<and>
           free_frames s' = free_frames s - {i..<i + n} \<and>
           s' = s\<lparr>bitmap := bm', used_pages := u',
             page_refcount := (\<lambda>p. if i \<le> p \<and> p < i + n \<and> p < MAX_PAGES then 1 else page_refcount s p)\<rparr>"
proof -
  let ?P = "\<lambda>k s'. pmm_wf s' \<and> free_frames s' = free_frames s - {i..<k} \<and>
     (\<exists>bm' u'. s' = s\<lparr>bitmap := bm', used_pages := u',
             page_refcount := (\<lambda>p. if i \<le> p \<and> p < k \<and> p < MAX_PAGES then 1 else page_refcount s p)\<rparr>)"
  have "\<exists>s'. for_range pmm_take i n s = Some s' \<and> ?P (i + n) s'"
  proof (rule for_range_invariant)
    have init: "s = s\<lparr>bitmap := bitmap s, used_pages := used_pages s,
        page_refcount := (\<lambda>p. if i \<le> p \<and> p < i \<and> p < MAX_PAGES then 1 else page_refcount s p)\<rparr>"
      by (auto intro!: pmm.equality simp: fun_eq_iff)
    show "?P i s"
      by (intro conjI exI) (fact assms(1), simp, fact init)
    fix k s1
    assume k: "i \<le> k" "k < i + n" and P: "?P k s1"
    from P obtain bm1 u1 where wf1: "pmm_wf s1" and f1: "free_frames s1 = free_frames s - {i..<k}"
      and s1: "s1 = s\<lparr>bitmap := bm1, used_pages := u1,
        page_refcount := (\<lambda>p. if i \<le> p \<and> p < k \<and> p < MAX_PAGES then 1 else page_refcount s p)\<rparr>"
      by (elim conjE exE)
    have kf: "k \<in> free_frames s1" unfolding f1 using assms(2) k by auto
    from pmm_take_spec[OF wf1 kf] obtain s2 bm2 where s2: "pmm_take k s1 = Some s2" "pmm_wf s2"
      "free_frames s2 = free_frames s1 - {k}" "s2 = s1\<lparr>bitmap := Some bm2, used_pages := used_pages s1 + 1,
       page_refcount := (page_refcount s1)(k := if k < MAX_PAGES then 1 else page_refcount s1 k)\<rparr>"
      by (elim conjE exE)
    have "s2 = s\<lparr>bitmap := Some bm2, used_pages := u1 + 1,
        page_refcount := (\<lambda>p. if i \<le> p \<and> p < Suc k \<and> p < MAX_PAGES then 1 else page_refcount s p)\<rparr>"
      unfolding s2(4) s1 using k(1) by (auto intro!: pmm.equality simp: fun_eq_iff less_Suc_eq)
    moreover have "free_frames s2 = free_frames s - {i..<Suc k}"
      unfolding s2(3) f1 using k(1) by (auto simp: less_Suc_eq)
    ultimately show "\<exists>s2. pmm_take k s1 = Some s2 \<and> ?P (Suc k) s2"
      using s2(1,2) by blast
  qed
  then show ?thesis by blast
qed

lemma pmm_alloc_page_full:
  assumes wf: "pmm_wf s" and ne: "free_frames s \<noteq> {}"
  defines "p \<equiv> Min (free_frames s)"
  shows "\<exists>s'. pmm_alloc_page s = Some (of_nat p * 4096, s') \<and> pmm_wf s' \<and>
     free_frames s' = free_frames s - {p} \<and> max_page_index s' = max_page_index s \<and>
     hhdm_offset s' = hhdm_offset s \<and> usable_pages s' = usable_pages s \<and> used_pages s' = used_pages s + 1 \<and>
     page_refcount s' = (page_refcount s)(p := if p < MAX_PAGES then 1 else page_refcount s p) \<and>
     ram s' = (\<lambda>x. if p * 4096 \<le> unat x \<and> unat x < p * 4096 + 4096 then 0 else ram s x)"
proof -
  have pin: "p \<in> free_frames s" using ne by (simp add: p_def)
  obtain s1 where s1: "pmm_take p s = Some s1" and al: "pmm_alloc_page s = Some (of_nat p * PMM_PAGE_SIZE,
       s1\<lparr>ram := (\<lambda>x. if p * 4096 \<le> unat x \<and> unat x < p * 4096 + 4096 then 0 else ram s x)\<rparr>)"
    using pmm_alloc_page_some[OF wf ne] unfolding p_def by blast
  obtain bm' where t: "pmm_wf s1" "free_frames s1 = free_frames s - {p}"
    and t_eq: "s1 = s\<lparr>bitmap := Some bm', used_pages := used_pages s + 1,
       page_refcount := (page_refcount s)(p := if p < MAX_PAGES then 1 else page_refcount s p)\<rparr>"
    using pmm_take_spec[OF wf pin] s1 by auto
  have "max_page_index s1 = max_page_index s" "hhdm_offset s1 = hhdm_offset s"
    "usable_pages s1 = usable_pages s" "used_pages s1 = used_pages s + 1"
    "page_refcount s1 = (page_refcount s)(p := if p < MAX_PAGES then 1 else page_refcount s p)"
    by (simp_all add: t_eq)
  with al t show ?thesis by (simp add: PMM_PAGE_SIZE_def)
qed

section \<open>Giving frames back\<close>

lemma pmm_release_wf:
  assumes wf: "pmm_wf s" and p: "0 < p" "p < unat (max_page_index s)" "p \<notin> free_frames s"
    and r: "\<And>q. q \<in> free_frames s \<Longrightarrow> r q = page_refcount s q" "p < MAX_PAGES \<Longrightarrow> r p = 0"
  shows "\<exists>bm'. bitmap_test (bm_bytes s) p = Some True \<and> bitmap_clear (bm_bytes s) p = Some bm' \<and>
     (let s' = s\<lparr>bitmap := Some bm', used_pages := used_pages s - 1, page_refcount := r\<rparr>
      in pmm_wf s' \<and> free_frames s' = insert p (free_frames s))"
proof -
  have inb: "p < 8 * length (bm_bytes s)" using pmm_wf_bound(1)[OF wf p(2)] .
  have set: "p \<in> bits (bm_bytes s)" using p by (simp add: free_frames_def)
  from bm.clear_in[OF inb] obtain bm'
    where bm': "bitmap_clear (bm_bytes s) p = Some bm'" "bits bm' = bits (bm_bytes s) - {p}"
      "8 * length bm' = 8 * length (bm_bytes s)" by auto
  define s' where "s' = s\<lparr>bitmap := Some bm', used_pages := used_pages s - 1, page_refcount := r\<rparr>"
  have fr: "free_frames s' = insert p (free_frames s)"
    using p by (auto simp: free_frames_def s'_def bm_bytes_def bm'(2))
  have "of_nat (card (free_frames s')) = 1 + (of_nat (card (free_frames s)) :: u64)"
    using p(3) by (simp add: fr)
  then have cnt: "usable_pages s' - used_pages s' = of_nat (card (free_frames s'))"
    using wf by (simp add: s'_def pmm_wf_def)
  have "pmm_wf s'"
    unfolding pmm_wf_def cnt using wf bm'(3) p(1) r
    by (simp add: fr pmm_wf_def) (simp add: s'_def bm_bytes_def)
  then show ?thesis
    using bm'(1) bm.test_in[OF inb] set fr by (simp add: s'_def Let_def)
qed

lemma pmm_free_page_used:
  assumes wf: "pmm_wf s" and p: "p = unat a div 4096" "0 < p" "p < unat (max_page_index s)"
    "p \<notin> free_frames s"
  shows "\<exists>s' bm'. pmm_free_page a s = Some s' \<and> pmm_wf s' \<and> free_frames s' = insert p (free_frames s) \<and>
     s' = s\<lparr>bitmap := Some bm', used_pages := used_pages s - 1,
       page_refcount := (page_refcount s)(p := if p < MAX_PAGES then 0 else page_refcount s p)\<rparr>"
proof -
  let ?r = "(page_refcount s)(p := if p < MAX_PAGES then 0 else page_refcount s p)"
  have page: "unat (a div PMM_PAGE_SIZE) = p" by (simp add: PMM_PAGE_SIZE_def unat_div_4096 p(1))
  have g: "\<not> (a div PMM_PAGE_SIZE = 0 \<or> a div PMM_PAGE_SIZE \<ge> max_page_index s)"
    using p(2,3) page by (auto simp: word_le_nat_alt)
  have keep: "?r q = page_refcount s q" if "q \<in> free_frames s" for q using p(4) that by auto
  from pmm_release_wf[where r = ?r, OF wf p(2-4) keep] obtain bm' where bm':
    "bitmap_test (bm_bytes s) p = Some True" "bitmap_clear (bm_bytes s) p = Some bm'"
    "pmm_wf (s\<lparr>bitmap := Some bm', used_pages := used_pages s - 1, page_refcount := ?r\<rparr>)"
    "free_frames (s\<lparr>bitmap := Some bm', used_pages := used_pages s - 1, page_refcount := ?r\<rparr>)
      = insert p (free_frames s)"
    by (auto simp: Let_def)
  have "pmm_free_page a s =
      Some (s\<lparr>bitmap := Some bm', used_pages := used_pages s - 1, page_refcount := ?r\<rparr>)"
    using g by (simp add: pmm_free_page_def page bm'(1,2) refcount_wr_def)
  with bm'(3,4) show ?thesis by blast
qed

lemma pmm_free_page_ignored:
  assumes "pmm_wf s" "unat a div 4096 = 0 \<or> unat a div 4096 \<ge> unat (max_page_index s) \<or>
    unat a div 4096 \<in> free_frames s"
  shows "pmm_free_page a s = Some s"
proof -
  have page: "unat (a div PMM_PAGE_SIZE) = unat a div 4096"
    by (simp add: PMM_PAGE_SIZE_def unat_div_4096)
  show ?thesis
  proof (cases "a div PMM_PAGE_SIZE = 0 \<or> a div PMM_PAGE_SIZE \<ge> max_page_index s")
    case False
    then have "unat (a div PMM_PAGE_SIZE) < unat (max_page_index s)" "unat (a div PMM_PAGE_SIZE) \<noteq> 0"
      by (auto simp: word_le_nat_alt unat_eq_0)
    with assms have "bitmap_test (bm_bytes s) (unat a div 4096) = Some False"
      using pmm_wf_bound(1)[OF assms(1)] bm.test_in
      by (auto simp: page free_frames_def)
    with False show ?thesis by (simp add: pmm_free_page_def page)
  qed (auto simp: pmm_free_page_def)
qed

lemma pmm_page_unref_shared:
  assumes "p = unat a div 4096" "0 < p" "p < MAX_PAGES" "page_refcount s p > 1"
  shows "pmm_page_unref a s =
    Some (s\<lparr>page_refcount := (page_refcount s)(p := page_refcount s p - 1)\<rparr>)"
proof -
  have page: "unat (a div PMM_PAGE_SIZE) = p" by (simp add: PMM_PAGE_SIZE_def unat_div_4096 assms(1))
  then have "a div PMM_PAGE_SIZE \<noteq> 0" using assms(2) by auto
  moreover have "page_refcount s p > 0" "page_refcount s p - 1 \<noteq> 0" using assms(4)
    by (auto simp: word_gt_0)
  ultimately show ?thesis
    using assms(3) by (simp add: pmm_page_unref_def page refcount_rd_def refcount_wr_def)
qed

lemma pmm_page_unref_last:
  assumes wf: "pmm_wf s" and p: "p = unat a div 4096" "0 < p" "p < MAX_PAGES"
    "p < unat (max_page_index s)" "p \<notin> free_frames s" "page_refcount s p = 1"
  shows "\<exists>s' bm'. pmm_page_unref a s = Some s' \<and> pmm_wf s' \<and> free_frames s' = insert p (free_frames s) \<and>
     s' = s\<lparr>bitmap := Some bm', used_pages := used_pages s - 1,
       page_refcount := (page_refcount s)(p := 0)\<rparr>"
proof -
  let ?r = "(page_refcount s)(p := 0)"
  have page: "unat (a div PMM_PAGE_SIZE) = p" by (simp add: PMM_PAGE_SIZE_def unat_div_4096 p(1))
  then have g: "a div PMM_PAGE_SIZE \<noteq> 0" using p(2) by auto
  have keep: "?r q = page_refcount s q" if "q \<in> free_frames s" for q using p(5) that by auto
  from pmm_release_wf[where r = ?r, OF wf p(2,4,5) keep] obtain bm' where bm':
    "bitmap_test (bm_bytes s) p = Some True" "bitmap_clear (bm_bytes s) p = Some bm'"
    "pmm_wf (s\<lparr>bitmap := Some bm', used_pages := used_pages s - 1, page_refcount := ?r\<rparr>)"
    "free_frames (s\<lparr>bitmap := Some bm', used_pages := used_pages s - 1, page_refcount := ?r\<rparr>)
      = insert p (free_frames s)"
    by (auto simp: Let_def)
  have "bm_bytes (s\<lparr>page_refcount := ?r\<rparr>) = bm_bytes s" by (simp add: bm_bytes_def)
  then have "pmm_page_unref a s =
      Some (s\<lparr>bitmap := Some bm', used_pages := used_pages s - 1, page_refcount := ?r\<rparr>)"
    using g p(3,6) by (simp add: pmm_page_unref_def page bm'(1,2) refcount_rd_def refcount_wr_def)
  with bm'(3,4) show ?thesis by blast
qed

section \<open>Initialisation from the memory map\<close>

text \<open>
  The frames of an entry and of all usable entries, and what the boot protocol promises of the
  map: entries lie below \<open>2 ^ 64\<close>, usable ones are aligned to pages and do not overlap.
\<close>

definition frames :: "memmap_entry \<Rightarrow> nat set" where
  "frames e = {unat (base e) div 4096..<unat (base e) div 4096 + unat (len e) div 4096}"

fun usable_frames :: "memmap_entry list \<Rightarrow> nat set" where
  "usable_frames [] = {}"
| "usable_frames (e # es) = (if usable e then frames e else {}) \<union> usable_frames es"

definition entry_ok :: "memmap_entry \<Rightarrow> bool" where
  "entry_ok e \<longleftrightarrow> unat (base e) + unat (len e) < 2 ^ 64 \<and>
     (usable e \<longrightarrow> 4096 dvd unat (base e) \<and> 4096 dvd unat (len e))"

fun memmap_ok :: "memmap_entry list \<Rightarrow> bool" where
  "memmap_ok [] \<longleftrightarrow> True"
| "memmap_ok (e # es) \<longleftrightarrow>
     entry_ok e \<and> (usable e \<longrightarrow> frames e \<inter> usable_frames es = {}) \<and> memmap_ok es"

definition bitmap_frames :: "u64 \<Rightarrow> u64 \<Rightarrow> nat set" where
  "bitmap_frames b bytes = {unat b div 4096..<unat b div 4096 + (unat bytes + 4095) div 4096}"

lemma finite_usable_frames [simp]: "finite (usable_frames es)"
  by (induction es) (auto simp: frames_def)

lemma pmm_find_highest_ge: "h \<le> pmm_find_highest es h"
proof (induction es arbitrary: h)
  case (Cons e es)
  show ?case
    using Cons.IH[of "base e + len e"] Cons.IH[of h]
    by (auto simp: Let_def intro: order.trans[of h "base e + len e"])
qed simp

lemma pmm_find_highest_top:
  assumes "e \<in> set es"
  shows "base e + len e \<le> pmm_find_highest es h"
  using assms
proof (induction es arbitrary: h)
  case (Cons x xs)
  show ?case
  proof (cases "e = x")
    case True
    have "base x + len x \<le> (if base x + len x > h then base x + len x else h)" by auto
    also have "\<dots> \<le> pmm_find_highest xs (if base x + len x > h then base x + len x else h)"
      by (rule pmm_find_highest_ge)
    finally show ?thesis using True by (simp add: Let_def)
  qed (use Cons in \<open>simp add: Let_def\<close>)
qed simp

lemma usable_frames_bound:
  assumes "memmap_ok es" "\<forall>e \<in> set es. base e + len e \<le> t" "p \<in> usable_frames es"
  shows "p < unat t div 4096"
  using assms
proof (induction es)
  case (Cons e es)
  show ?case
  proof (cases "usable e \<and> p \<in> frames e")
    case True
    from Cons.prems(1) have ok: "entry_ok e" by simp
    then have "unat (base e + len e) = unat (base e) + unat (len e)"
      by (simp add: entry_ok_def unat_add_lem[THEN iffD1])
    then have "unat (base e) + unat (len e) \<le> unat t"
      using Cons.prems(2) by (simp add: word_le_nat_alt)
    moreover obtain k l where "unat (base e) = 4096 * k" "unat (len e) = 4096 * l"
      using ok True unfolding entry_ok_def dvd_def by blast
    ultimately show ?thesis using True by (auto simp: frames_def)
  qed (use Cons in \<open>auto split: if_splits\<close>)
qed simp

lemma pmm_free_usable_spec:
  assumes "memmap_ok es" "usable_frames es \<subseteq> {..<8 * length bm}"
  shows "\<exists>bm'. pmm_free_usable es bm n = Some (bm', n + of_nat (card (usable_frames es))) \<and>
           bits bm' = bits bm - usable_frames es \<and> length bm' = length bm"
  using assms
proof (induction es arbitrary: bm n)
  case (Cons e es)
  show ?case
  proof (cases "usable e")
    case True
    let ?a = "unat (base e) div 4096" and ?n = "unat (len e) div 4096"
    have "?a + ?n \<le> 8 * length bm" if "?n \<noteq> 0"
    proof -
      from that have "?a + ?n - 1 \<in> frames e" by (simp add: frames_def)
      with Cons.prems(2) True have "?a + ?n - 1 < 8 * length bm" by auto
      then show ?thesis by simp
    qed
    from bm.clear_run[OF this] obtain bm1 where
      bm1: "for_range (\<lambda>b m. bitmap_clear m b) ?a ?n bm = Some bm1"
        "bits bm1 = bits bm - frames e" "length bm1 = length bm"
      by (auto simp: frames_def)
    from Cons.IH[of bm1 "n + of_nat ?n"] Cons.prems bm1(3) True obtain bm' where
      bm': "pmm_free_usable es bm1 (n + of_nat ?n) =
          Some (bm', n + of_nat ?n + of_nat (card (usable_frames es)))"
        "bits bm' = bits bm1 - usable_frames es" "length bm' = length bm1" by auto
    have "card (usable_frames (e # es)) = ?n + card (usable_frames es)"
      using Cons.prems(1) True by (simp add: card_Un_disjoint frames_def)
    moreover have "len e div 4096 = of_nat ?n" "unat (of_nat ?n :: u64) = ?n"
      by (simp_all flip: unat_div_4096)
    ultimately show ?thesis
      using bm1 bm' True
      by (auto simp: PMM_PAGE_SIZE_def unat_div_4096 Let_def add.assoc Diff_Un set_diff_eq)
  qed (use Cons in simp)
qed simp

lemma page_round_up:
  assumes "unat (size1 :: u64) \<le> 2 ^ 50"
  shows "unat ((size1 + PMM_PAGE_SIZE - 1) div PMM_PAGE_SIZE) = (unat size1 + 4095) div 4096"
proof -
  have "unat (size1 + 4095) = unat size1 + 4095"
    using assms by (simp add: unat_add_lem[THEN iffD1])
  then show ?thesis by (simp add: PMM_PAGE_SIZE_def unat_div_4096 add.commute)
qed

lemma shrink_entry:
  assumes ok: "entry_ok e" "usable e" and sz: "unat bytes \<le> unat (len e)" "unat bytes \<le> 2 ^ 50"
  defines "pages \<equiv> (bytes + PMM_PAGE_SIZE - 1) div PMM_PAGE_SIZE"
  defines "e' \<equiv> e\<lparr>base := base e + pages * PMM_PAGE_SIZE, len := len e - pages * PMM_PAGE_SIZE\<rparr>"
  shows "entry_ok e' \<and> frames e' \<union> bitmap_frames (base e) bytes = frames e \<and>
    frames e' \<inter> bitmap_frames (base e) bytes = {} \<and> base e' + len e' = base e + len e"
proof -
  obtain k l where kl: "unat (base e) = 4096 * k" "unat (len e) = 4096 * l"
    using ok unfolding entry_ok_def dvd_def by blast
  define n where "n = (unat bytes + 4095) div 4096"
  have n: "unat pages = n" "n \<le> l"
    using page_round_up[OF sz(2)] sz(1) kl by (auto simp: n_def pages_def)
  have "n < 2 ^ 52" using sz(2) by (simp add: n_def)
  moreover have "pages = of_nat n" by (simp flip: n(1))
  ultimately have pg: "unat (pages * PMM_PAGE_SIZE) = n * 4096"
    using frame_address[of n] by (simp add: PMM_PAGE_SIZE_def)
  have sum: "4096 * k + 4096 * l < 2 ^ 64" using ok kl by (simp add: entry_ok_def)
  have b: "unat (base e') = 4096 * (k + n)"
    using kl pg n(2) sum by (simp add: e'_def unat_add_lem[THEN iffD1])
  have l: "unat (len e') = 4096 * (l - n)"
    using kl pg n(2) by (simp add: e'_def unat_sub word_le_nat_alt diff_mult_distrib2)
  have "entry_ok e'" using b l n(2) sum ok(2) by (simp add: entry_ok_def diff_mult_distrib2)
  moreover have "frames e' = {k + n..<k + l}" "frames e = {k..<k + l}"
    "bitmap_frames (base e) bytes = {k..<k + n}"
    using b l kl n(2) by (simp_all add: frames_def bitmap_frames_def n_def)
  ultimately show ?thesis using n(2) by (auto simp: e'_def)
qed

lemma pmm_place_bitmap_spec:
  assumes "memmap_ok es" "unat bytes \<le> 2 ^ 50" "\<exists>e \<in> set es. usable e \<and> len e \<ge> bytes"
  shows "\<exists>es' b. pmm_place_bitmap bytes es = (es', Some b) \<and> memmap_ok es' \<and>
     usable_frames es' \<union> bitmap_frames b bytes = usable_frames es \<and>
     usable_frames es' \<inter> bitmap_frames b bytes = {} \<and>
     map (\<lambda>e. base e + len e) es' = map (\<lambda>e. base e + len e) es"
  using assms
proof (induction es)
  case (Cons e es)
  show ?case
  proof (cases "usable e \<and> len e \<ge> bytes")
    case True
    let ?pages = "(bytes + PMM_PAGE_SIZE - 1) div PMM_PAGE_SIZE"
    let ?e = "e\<lparr>base := base e + ?pages * PMM_PAGE_SIZE, len := len e - ?pages * PMM_PAGE_SIZE\<rparr>"
    have eq: "pmm_place_bitmap bytes (e # es) = (?e # es, Some (base e))"
      using True by (simp add: Let_def)
    from shrink_entry[of e bytes] True Cons.prems
    have "entry_ok ?e" "frames ?e \<union> bitmap_frames (base e) bytes = frames e"
      "frames ?e \<inter> bitmap_frames (base e) bytes = {}" "base ?e + len ?e = base e + len e"
      by (simp_all add: word_le_nat_alt)
    then show ?thesis unfolding eq using True Cons.prems(1) by auto
  next
    case False
    with Cons obtain es' b where IH: "pmm_place_bitmap bytes es = (es', Some b)" "memmap_ok es'"
      "usable_frames es' \<union> bitmap_frames b bytes = usable_frames es"
      "usable_frames es' \<inter> bitmap_frames b bytes = {}"
      "map (\<lambda>e. base e + len e) es' = map (\<lambda>e. base e + len e) es" by auto
    then have "pmm_place_bitmap bytes (e # es) = (e # es', Some b)" using False by auto
    with IH Cons.prems(1) show ?thesis by auto
  qed
qed simp

lemma bits_replicate_ones: "bits (replicate n 0xFF) = {..<8 * n}"
proof -
  have "bit (0xFF :: u8) (b mod 8)" for b :: nat
  proof -
    have "b mod 8 < 8" by simp
    then have "b mod 8 \<in> {0, 1, 2, 3, 4, 5, 6, 7}" by auto
    then show ?thesis by (auto simp: bit_numeral_rec)
  qed
  then show ?thesis by (auto simp: bits_def)
qed

lemma bitmap_bytes_bound:
  fixes h :: u64
  defines "mx \<equiv> h div PMM_PAGE_SIZE"
  defines "bytes \<equiv> (mx + 7) div 8"
  shows "unat mx < 2 ^ 52" "unat bytes = (unat mx + 7) div 8" "unat bytes \<le> 2 ^ 50"
    "unat mx \<le> 8 * unat bytes"
proof -
  show mx: "unat mx < 2 ^ 52"
    by (simp add: mx_def PMM_PAGE_SIZE_def unat_div_4096 less_mult_imp_div_less)
  then have "unat (mx + 7) = unat mx + 7" by (simp add: unat_add_lem[THEN iffD1])
  then show bytes: "unat bytes = (unat mx + 7) div 8" by (simp add: bytes_def unat_div_distrib)
  then show "unat bytes \<le> 2 ^ 50" "unat mx \<le> 8 * unat bytes" using mx by auto
qed

text \<open>The last step of \<open>pmm_init\<close>: frame 0 is taken out, everything else usable is free.\<close>

lemma pmm_reserve_zero:
  assumes mx: "0 < unat mx" "unat mx \<le> 8 * length bm" "unat mx < 2 ^ 52"
    and U: "finite U" "U \<subseteq> {..<unat mx}" "bits bm = {..<8 * length bm} - U"
  shows "\<exists>bm'. (if 0 \<in> U then bitmap_set bm 0 else Some bm) = Some bm' \<and>
    bitmap_test bm 0 = Some (0 \<notin> U) \<and>
    (let s' = s\<lparr>max_page_index := mx, bitmap := Some bm', usable_pages := of_nat (card U),
         used_pages := (if 0 \<in> U then 1 else 0), page_refcount := (\<lambda>_. 0)\<rparr>
     in pmm_wf s' \<and> free_frames s' = U - {0})"
proof -
  have in0: "0 < 8 * length bm" using mx by linarith
  then have zero: "0 \<in> bits bm \<longleftrightarrow> 0 \<notin> U" using U(3) by auto
  then have t: "bitmap_test bm 0 = Some (0 \<notin> U)" using bm.test_in[OF in0] by simp
  obtain bm' where bm': "(if 0 \<in> U then bitmap_set bm 0 else Some bm) = Some bm'"
    "bits bm' = insert 0 (bits bm)" "length bm' = length bm"
  proof (cases "0 \<in> U")
    case True
    from bitmap_set_in[OF in0] obtain bm1 where "bitmap_set bm 0 = Some bm1"
      "bits bm1 = insert 0 (bits bm)" "length bm1 = length bm" by blast
    with True show ?thesis by (intro that[of bm1]) simp_all
  next
    case False
    with zero show ?thesis by (intro that[of bm]) (simp_all add: insert_absorb)
  qed
  define s' where "s' = s\<lparr>max_page_index := mx, bitmap := Some bm', usable_pages := of_nat (card U),
         used_pages := (if 0 \<in> U then 1 else 0), page_refcount := (\<lambda>_. 0)\<rparr>"
  have fr: "free_frames s' = U - {0}"
    using U(2,3) mx(1,2) by (auto simp: free_frames_def s'_def bm_bytes_def bm'(2))
  have "card (free_frames s') = card U - (if 0 \<in> U then 1 else 0)"
    using U(1) by (simp add: fr card_Diff_singleton_if)
  moreover have "0 \<in> U \<Longrightarrow> 0 < card U" using U(1) by (auto simp: card_gt_0_iff)
  ultimately have cnt: "usable_pages s' - used_pages s' = of_nat (card (free_frames s'))"
    by (simp add: s'_def of_nat_diff Suc_le_eq)
  have "pmm_wf s'" unfolding pmm_wf_def cnt
    using mx(2,3) by (simp add: fr) (simp add: s'_def bm_bytes_def bm'(3))
  with bm'(1) t fr show ?thesis by (simp add: s'_def Let_def)
qed

lemma pmm_init_spec:
  fixes es :: "memmap_entry list"
  defines "mx \<equiv> pmm_find_highest es 0 div PMM_PAGE_SIZE"
  defines "bytes \<equiv> (mx + 7) div 8"
  assumes map: "memmap_ok es"
    and s: "bitmap s = None" "usable_pages s = 0" "highest_address s = 0"
    and big: "\<exists>e \<in> set es. usable e \<and> 4096 \<le> unat (len e) \<and> len e \<ge> bytes"
  shows "\<exists>es' s' b. pmm_init (Some es) (Some off) s = Some (Some es', s') \<and> pmm_wf s' \<and>
     max_page_index s' = mx \<and> hhdm_offset s' = off \<and>
     bitmap_frames b bytes \<subseteq> usable_frames es \<and>
     free_frames s' = usable_frames es - bitmap_frames b bytes - {0} \<and>
     usable_pages s' = of_nat (card (usable_frames es - bitmap_frames b bytes))"
proof -
  let ?h = "pmm_find_highest es 0"
  note bnd = bitmap_bytes_bound[of ?h, folded mx_def, folded bytes_def]
  have top: "\<forall>e \<in> set es. base e + len e \<le> ?h" using pmm_find_highest_top by blast
  have below: "p < unat mx" if "p \<in> usable_frames es" for p
    using usable_frames_bound[OF map top that] by (simp add: mx_def PMM_PAGE_SIZE_def unat_div_4096)
  obtain es' b where pl: "pmm_place_bitmap bytes es = (es', Some b)" "memmap_ok es'"
     "usable_frames es' \<union> bitmap_frames b bytes = usable_frames es"
     "usable_frames es' \<inter> bitmap_frames b bytes = {}"
    using pmm_place_bitmap_spec[OF map bnd(3)] big by blast
  have U: "usable_frames es' = usable_frames es - bitmap_frames b bytes" using pl(3,4) by blast
  obtain e where e: "e \<in> set es" "usable e" "4096 \<le> unat (len e)" using big by blast
  have "unat (base e) div 4096 \<in> usable_frames es"
    using e by (induction es) (auto simp: frames_def)
  then have pos: "0 < unat mx" using below by fastforce
  let ?bm0 = "replicate (unat bytes) (0xFF :: u8)"
  have sub: "usable_frames es' \<subseteq> {..<unat mx}" using U below by auto
  then have "usable_frames es' \<subseteq> {..<8 * length ?bm0}" using bnd(4) by auto
  from pmm_free_usable_spec[OF pl(2) this, of 0] obtain bm1 where bm1:
    "pmm_free_usable es' ?bm0 0 = Some (bm1, of_nat (card (usable_frames es')))"
    "bits bm1 = {..<8 * length bm1} - usable_frames es'" "length bm1 = unat bytes"
    by (auto simp: bits_replicate_ones)
  let ?s = "s\<lparr>hhdm_offset := off, highest_address := ?h\<rparr>"
  from pmm_reserve_zero[OF pos _ bnd(1) finite_usable_frames sub bm1(2), of ?s] bm1(3) bnd(4)
  obtain bm2 where bm2:
    "(if 0 \<in> usable_frames es' then bitmap_set bm1 0 else Some bm1) = Some bm2"
    "bitmap_test bm1 0 = Some (0 \<notin> usable_frames es')"
    "let s' = ?s\<lparr>max_page_index := mx, bitmap := Some bm2, usable_pages := of_nat (card (usable_frames es')),
         used_pages := (if 0 \<in> usable_frames es' then 1 else 0), page_refcount := (\<lambda>_. 0)\<rparr>
     in pmm_wf s' \<and> free_frames s' = usable_frames es' - {0}"
    by auto
  have "pmm_init (Some es) (Some off) s = Some (Some es', ?s\<lparr>max_page_index := mx, bitmap := Some bm2,
      usable_pages := of_nat (card (usable_frames es')),
      used_pages := (if 0 \<in> usable_frames es' then 1 else 0), page_refcount := (\<lambda>_. 0)\<rparr>)"
    using pl(1) bm1(1) bm2(1,2) s
    by (simp add: pmm_init_def Let_def mx_def[symmetric] bytes_def[symmetric])
  with bm2(3) U pl(3) show ?thesis by (auto simp: Let_def)
qed

section \<open>The interface: an allocator of page frames\<close>

text \<open>
  What the clients of the physical memory manager rely on. \<open>avail\<close> is the set of frames the
  allocator may hand out and \<open>cell\<close> the physical memory.
\<close>

locale frame_allocator =
  fixes alloc :: "'s \<Rightarrow> (u64 \<times> 's) option"
    and ok :: "'s \<Rightarrow> bool"
    and avail :: "'s \<Rightarrow> nat set"
    and cell :: "'s \<Rightarrow> u64 \<Rightarrow> u64"
  assumes avail_finite: "finite (avail s)"
    and avail_range: "ok s \<Longrightarrow> p \<in> avail s \<Longrightarrow> 0 < p \<and> p < 2 ^ 52"
    and alloc_empty: "ok s \<Longrightarrow> avail s = {} \<Longrightarrow> alloc s = Some (0, s)"
    and alloc_frame: "ok s \<Longrightarrow> avail s \<noteq> {} \<Longrightarrow>
      \<exists>p s'. p \<in> avail s \<and> alloc s = Some (of_nat p * 4096, s') \<and> ok s' \<and> avail s' = avail s - {p} \<and>
        (\<forall>x. cell s' x = (if p * 4096 \<le> unat x \<and> unat x < p * 4096 + 4096 then 0 else cell s x))"
begin

lemma alloc_cases:
  assumes "ok s"
  obtains (out_of_memory) "avail s = {}" "alloc s = Some (0, s)"
  | (frame) p s' where "p \<in> avail s" "0 < p" "p < 2 ^ 52" "of_nat p * 4096 \<noteq> (0 :: u64)"
      "alloc s = Some (of_nat p * 4096, s')" "ok s'" "avail s' = avail s - {p}"
      "\<And>x. cell s' x = (if p * 4096 \<le> unat x \<and> unat x < p * 4096 + 4096 then 0 else cell s x)"
proof (cases "avail s = {}")
  case True
  then show ?thesis using that(1) alloc_empty[OF assms] by blast
next
  case False
  from alloc_frame[OF assms this] obtain p s' where p: "p \<in> avail s"
    "alloc s = Some (of_nat p * 4096, s')" "ok s'" "avail s' = avail s - {p}"
    "\<And>x. cell s' x = (if p * 4096 \<le> unat x \<and> unat x < p * 4096 + 4096 then 0 else cell s x)"
    by blast
  have r: "0 < p" "p < 2 ^ 52" using avail_range[OF assms p(1)] by auto
  have "unat (of_nat p * 4096 :: u64) \<noteq> 0" unfolding frame_address[OF r(2)] using r(1) by simp
  then have "of_nat p * 4096 \<noteq> (0 :: u64)" by (metis unat_0)
  with p r show ?thesis by (intro that(2))
qed

lemma alloc_returns: "ok s \<Longrightarrow> \<exists>a s'. alloc s = Some (a, s') \<and> ok s' \<and> avail s' \<subseteq> avail s"
  by (rule alloc_cases[of s]) auto

lemma alloc_zero_iff: "ok s \<Longrightarrow> alloc s = Some (a, s') \<Longrightarrow> a = 0 \<longleftrightarrow> avail s = {}"
  by (rule alloc_cases[of s]) auto

end

interpretation fa: frame_allocator pmm_alloc_page pmm_wf free_frames ram
proof unfold_locales
  fix s p
  show "finite (free_frames s)" by simp
  show "pmm_wf s \<Longrightarrow> p \<in> free_frames s \<Longrightarrow> 0 < p \<and> p < 2 ^ 52"
    using pmm_wf_bound(2)[OF _ free_frames_less[of p s]] by (cases p) (auto simp: pmm_wf_def)
  show "pmm_wf s \<Longrightarrow> free_frames s = {} \<Longrightarrow> pmm_alloc_page s = Some (0, s)"
    by (rule pmm_alloc_page_none)
  assume wf: "pmm_wf s" and ne: "free_frames s \<noteq> {}"
  let ?p = "Min (free_frames s)"
  have p: "?p \<in> free_frames s" using ne by simp
  from pmm_alloc_page_some[OF wf ne] obtain s1 where s1: "pmm_take ?p s = Some s1"
    "pmm_alloc_page s = Some (of_nat ?p * PMM_PAGE_SIZE,
       s1\<lparr>ram := (\<lambda>x. if ?p * 4096 \<le> unat x \<and> unat x < ?p * 4096 + 4096 then 0 else ram s x)\<rparr>)"
    by blast
  moreover from pmm_take_spec[OF wf p] s1(1) have "pmm_wf s1" "free_frames s1 = free_frames s - {?p}"
    by auto
  ultimately show "\<exists>p s'. p \<in> free_frames s \<and> pmm_alloc_page s = Some (of_nat p * 4096, s') \<and> pmm_wf s' \<and>
      free_frames s' = free_frames s - {p} \<and>
      (\<forall>x. ram s' x = (if p * 4096 \<le> unat x \<and> unat x < p * 4096 + 4096 then 0 else ram s x))"
    using p by (intro exI[of _ ?p]) (auto simp: PMM_PAGE_SIZE_def)
qed

section \<open>The allocation of runs\<close>

definition run_of :: "nat \<Rightarrow> pmm \<Rightarrow> nat \<Rightarrow> bool" where
  "run_of n s i \<longleftrightarrow> {i..<i + n} \<subseteq> free_frames s"

lemma run_of_less: "0 < n \<Longrightarrow> run_of n s i \<Longrightarrow> i + n \<le> unat (max_page_index s)"
proof -
  assume "0 < n" "run_of n s i"
  then have "i + n - 1 \<in> free_frames s" by (auto simp: run_of_def)
  then show ?thesis using free_frames_less by fastforce
qed

lemma run_of_pos: "pmm_wf s \<Longrightarrow> 0 < n \<Longrightarrow> run_of n s i \<Longrightarrow> 0 < i"
  by (cases i) (auto simp: run_of_def pmm_wf_def)

lemma Least_run_of_1:
  assumes "free_frames s \<noteq> {}"
  shows "(LEAST i. run_of 1 s i) = Min (free_frames s)"
proof -
  have "run_of 1 s i \<longleftrightarrow> i \<in> free_frames s" for i by (auto simp: run_of_def)
  moreover have "(LEAST i. i \<in> free_frames s) = Min (free_frames s)"
    using assms by (intro Least_equality) simp_all
  ultimately show ?thesis by simp
qed

lemma pmm_find_run_least:
  assumes wf: "pmm_wf s" and count: "0 < unat count" "unat (max_page_index s) + unat count < 2 ^ 64"
  shows "pmm_find_run (bm_bytes s) count (max_page_index s) 1 =
    Some (if \<exists>i. run_of (unat count) s i then Some (LEAST i. run_of (unat count) s i) else None)"
proof -
  let ?R = "run_at (bm_bytes s) count (max_page_index s)" and ?Q = "run_of (unat count) s"
  have eq: "?R i \<longleftrightarrow> ?Q i" if "i < unat (max_page_index s)" for i
    using run_at_free[OF wf count(2,1) that] by (simp add: run_of_def)
  have bnd: "?Q i \<Longrightarrow> 1 \<le> i \<and> i < unat (max_page_index s)" for i
    using run_of_less[OF count(1), of s i] run_of_pos[OF wf count(1), of i] count(1) by simp
  have "unat (max_page_index s) \<le> 8 * length (bm_bytes s)" using wf by (simp add: pmm_wf_def)
  from pmm_find_run_spec[OF this, of count 1] obtain r where
    r: "pmm_find_run (bm_bytes s) count (max_page_index s) 1 = Some r"
      "first_run (bm_bytes s) count (max_page_index s) 1 r" by blast
  show ?thesis
  proof (cases r)
    case None
    then have "\<not> ?Q i" for i using r(2) bnd[of i] eq[of i] unfolding first_run_def by auto
    with None r(1) show ?thesis by simp
  next
    case (Some p)
    then have p: "1 \<le> p" "p < unat (max_page_index s)" "?R p"
      "\<forall>i. 1 \<le> i \<and> i < p \<longrightarrow> \<not> ?R i" using r(2) unfolding first_run_def by simp_all
    have Qp: "?Q p" using p(3) eq[OF p(2)] by simp
    moreover have "p \<le> i" if "?Q i" for i
      using p(4) bnd[OF that] eq[of i] that not_le by blast
    ultimately have "(LEAST i. ?Q i) = p" by (rule Least_equality)
    moreover have "\<exists>i. ?Q i" using Qp ..
    ultimately show ?thesis using Some r(1) by simp
  qed
qed

lemma pmm_alloc_pages_run:
  assumes wf: "pmm_wf s" and count: "2 \<le> unat count" "unat (max_page_index s) + unat count < 2 ^ 64"
    and ex: "\<exists>i. run_of (unat count) s i"
  defines "p \<equiv> LEAST i. run_of (unat count) s i"
  shows "\<exists>s'. pmm_alloc_pages count s = Some (of_nat p * 4096, s') \<and> pmm_wf s' \<and>
     free_frames s' = free_frames s - {p..<p + unat count} \<and>
     (\<forall>x. ram s' x = (if p * 4096 \<le> unat x \<and> unat x < (p + unat count) * 4096 then 0 else ram s x)) \<and>
     (\<forall>q. page_refcount s' q = (if p \<le> q \<and> q < p + unat count \<and> q < MAX_PAGES then 1 else page_refcount s q))"
proof -
  have c0: "0 < unat count" "count \<noteq> 0" "count \<noteq> 1" using count(1) by auto
  have run: "run_of (unat count) s p" using LeastI_ex[OF ex] by (simp add: p_def)
  from pmm_take_run[OF wf run[unfolded run_of_def]] obtain s1 bm' u' where
    s1: "for_range pmm_take p (unat count) s = Some s1" "pmm_wf s1"
    "free_frames s1 = free_frames s - {p..<p + unat count}"
    and s1_eq: "s1 = s\<lparr>bitmap := bm', used_pages := u', page_refcount :=
      (\<lambda>q. if p \<le> q \<and> q < p + unat count \<and> q < MAX_PAGES then 1 else page_refcount s q)\<rparr>" by blast
  have bnd: "p + unat count \<le> 2 ^ 52"
    using run_of_less[OF c0(1) run] wf by (simp add: pmm_wf_def)
  have a: "unat (of_nat p * 4096 :: u64) = p * 4096" using bnd c0(1) by (intro frame_address) simp
  have "unat count < 2 ^ 52" using bnd run_of_pos[OF wf c0(1) run] by simp
  from frame_address[OF this] have n: "unat (count * 4096) = unat count * 4096" by simp
  define s' where "s' = s1\<lparr>ram := (\<lambda>x. if p * 4096 \<le> unat x \<and> unat x < (p + unat count) * 4096 then 0
     else ram s1 x)\<rparr>"
  have "pmm_alloc_pages count s = Some (of_nat p * 4096, s')"
    using pmm_find_run_least[OF wf c0(1) count(2)] ex c0 s1(1) a n
    by (simp add: pmm_alloc_pages_def p_def[symmetric] hhdm_zero_phys PMM_PAGE_SIZE_def s'_def
      add_mult_distrib)
  moreover have "pmm_wf s'" "free_frames s' = free_frames s - {p..<p + unat count}"
    using s1(2,3) by (simp_all add: s'_def)
  moreover have "ram s1 = ram s" "page_refcount s1 =
      (\<lambda>q. if p \<le> q \<and> q < p + unat count \<and> q < MAX_PAGES then 1 else page_refcount s q)"
    by (simp_all add: s1_eq)
  ultimately show ?thesis by (intro exI[of _ s']) (simp add: s'_def)
qed

lemma pmm_refs_spec:
  assumes "p = unat a div 4096" "p < MAX_PAGES"
  shows "for_range (\<lambda>_. pmm_page_ref a) i k s =
    Some (s\<lparr>page_refcount := (page_refcount s)(p := page_refcount s p + of_nat k)\<rparr>)"
proof (induction k arbitrary: i s)
  case (Suc k)
  have page: "unat (a div PMM_PAGE_SIZE) = p"
    by (simp add: PMM_PAGE_SIZE_def unat_div_4096 assms(1))
  have "pmm_page_ref a s = Some (s\<lparr>page_refcount := (page_refcount s)(p := page_refcount s p + 1)\<rparr>)"
    using assms(2) by (simp add: pmm_page_ref_def page refcount_rd_def refcount_wr_def)
  with Suc.IH show ?case by (simp add: add.assoc cong: if_cong)
qed simp

lemma pmm_unrefs_spec:
  assumes "p = unat a div 4096" "0 < p" "p < MAX_PAGES" "k < unat (page_refcount s p)"
  shows "for_range (\<lambda>_. pmm_page_unref a) i k s =
    Some (s\<lparr>page_refcount := (page_refcount s)(p := page_refcount s p - of_nat k)\<rparr>)"
  using assms(4)
proof (induction k arbitrary: i s)
  case (Suc k)
  then have gt: "page_refcount s p > 1" by (simp add: word_less_nat_alt)
  then have "page_refcount s p \<noteq> 0" by auto
  then have "unat (page_refcount s p - 1) = unat (page_refcount s p) - 1"
    by (simp add: unat_minus_one)
  then have "k < unat (page_refcount s p - 1)" using Suc.prems by simp
  with Suc.IH[of "s\<lparr>page_refcount := (page_refcount s)(p := page_refcount s p - 1)\<rparr>"]
  show ?case
    by (simp add: pmm_page_unref_shared[OF assms(1-3) gt] diff_diff_eq cong: if_cong)
qed simp

text \<open>What happens when \<open>i + count\<close> wraps: the search stops at the highest frame.\<close>

lemma pmm_find_run_wrap:
  assumes wf: "pmm_wf s" and top: "Suc m = unat (max_page_index s)" "m \<in> free_frames s"
  shows "pmm_find_run (bm_bytes s) (- of_nat m) (max_page_index s) 1 = Some (Some m)"
proof -
  let ?R = "run_at (bm_bytes s) (- of_nat m) (max_page_index s)"
  have m: "0 < m" "m < 2 ^ 52" using fa.avail_range[OF wf top(2)] by auto
  have "{m..<min (m + k) (Suc m)} \<subseteq> {m}" for k by auto
  with top have Rm: "?R m" by (fastforce simp: run_at_def free_frames_def)
  have R: "\<not> ?R i" if "i < m" for i
  proof -
    have "of_nat i + (- of_nat m) = - (of_nat (m - i) :: u64)" using that by (simp add: of_nat_diff)
    moreover have "unat (- (of_nat (m - i) :: u64)) = 2 ^ 64 - (m - i)"
      using that m by (intro unat_neg_of_nat) simp_all
    moreover have "unat (max_page_index s) \<le> 2 ^ 52" using wf by (simp add: pmm_wf_def)
    ultimately show ?thesis using m that by (auto simp: run_at_def word_le_nat_alt)
  qed
  have "unat (max_page_index s) \<le> 8 * length (bm_bytes s)" using wf by (simp add: pmm_wf_def)
  from pmm_find_run_spec[OF this, of "- of_nat m" 1] obtain r where
    r: "pmm_find_run (bm_bytes s) (- of_nat m) (max_page_index s) 1 = Some r"
      "first_run (bm_bytes s) (- of_nat m) (max_page_index s) 1 r" by blast
  have "r = Some m"
  proof (cases r)
    case None
    with r(2) Rm m top show ?thesis by (auto simp: first_run_def)
  next
    case (Some q)
    with r(2) have q: "q < Suc m" "?R q" using top by (auto simp: first_run_def)
    with R[of q] have "q = m" by (cases "q < m") auto
    with Some show ?thesis by simp
  qed
  with r(1) show ?thesis by simp
qed

lemma pmm_take_bound:
  assumes "for_range pmm_take i n s = Some s'"
  shows "n = 0 \<or> i + n \<le> 8 * length (bm_bytes s)"
  using assms
proof (induction n arbitrary: i s)
  case (Suc n)
  then obtain s1 where s1: "pmm_take i s = Some s1" "for_range pmm_take (Suc i) n s1 = Some s'"
    by (auto split: bind_splits)
  then have "i < 8 * length (bm_bytes s)" "length (bm_bytes s1) = length (bm_bytes s)"
    by (auto simp: pmm_take_def bitmap_set_def rd_eq_Some_iff wr_eq_Some_iff bind_eq_Some_conv
      refcount_wr_def bm_bytes_def Let_def split: if_splits)
  with Suc.IH[OF s1(2)] show ?case by auto
qed simp

section \<open>Properties\<close>

text \<open>A small machine for the witnesses: eight frames, of which 0, 1 and 2 are in use.\<close>

definition demo_pmm :: pmm where
  "demo_pmm = \<lparr>bitmap = Some [0x07], max_page_index = 8, usable_pages = 7, used_pages = 2,
     highest_address = 32768, hhdm_offset = 0xffff800000000000,
     page_refcount = (\<lambda>p. if p = 1 \<or> p = 2 then 1 else 0), ram = (\<lambda>_. 7)\<rparr>"

lemma demo_free: "free_frames demo_pmm = {3, 4, 5, 6, 7}"
proof -
  have "p \<in> free_frames demo_pmm \<longleftrightarrow> p \<in> {3, 4, 5, 6, 7}" if "p < 8" for p
  proof -
    from that have "p \<in> {0, 1, 2, 3, 4, 5, 6, 7}" by auto
    then show ?thesis
      by (auto simp: free_frames_def demo_pmm_def bm_bytes_def bits_def bit_numeral_rec)
  qed
  moreover have "p \<notin> free_frames demo_pmm" if "\<not> p < 8" for p
    using that by (simp add: free_frames_def demo_pmm_def)
  ultimately show ?thesis by auto
qed

lemma demo_wf: "pmm_wf demo_pmm"
  unfolding pmm_wf_def demo_free by (simp add: demo_pmm_def bm_bytes_def)


definition demo_boot :: pmm where
  "demo_boot = \<lparr>bitmap = None, max_page_index = 0, usable_pages = 0, used_pages = 0,
     highest_address = 0, hhdm_offset = 0, page_refcount = (\<lambda>_. 0), ram = (\<lambda>_. 7)\<rparr>"

definition demo_map :: "memmap_entry list" where
  "demo_map = [\<lparr>base = 0, len = 0x3000, usable = True\<rparr>, \<lparr>base = 0x3000, len = 0x2000, usable = False\<rparr>,
     \<lparr>base = 0x5000, len = 0x10000, usable = True\<rparr>]"

lemma demo_frames: "usable_frames demo_map = {0..<3} \<union> {5..<21}"
  by (simp add: demo_map_def frames_def)


text \<open>
  C2. Allocation of a frame. If no frame is free, \<open>pmm_alloc_page\<close> returns 0 and changes nothing.
  Otherwise it returns the lowest free frame, which is then no longer free and has reference
  count 1; the frame is filled with zeros, no other memory and no other reference count
  changes, the invariant is kept, and the number of free pages the statistics report drops by one.
\<close>

theorem pmm_alloc_page_correct:
  assumes "pmm_wf s"
  shows "if free_frames s = {} then pmm_alloc_page s = Some (0, s)
     else let p = Min (free_frames s) in
       \<exists>s'. pmm_alloc_page s = Some (of_nat p * 4096, s') \<and> of_nat p * 4096 \<noteq> (0 :: u64) \<and> pmm_wf s' \<and>
         free_frames s' = free_frames s - {p} \<and>
         pmm_get_free_page_count s' = pmm_get_free_page_count s - 1 \<and>
         page_refcount s' = (page_refcount s)(p := if p < MAX_PAGES then 1 else page_refcount s p) \<and>
         (\<forall>x. ram s' x = (if p * 4096 \<le> unat x \<and> unat x < p * 4096 + 4096 then 0 else ram s x))"
proof (cases "free_frames s = {}")
  case True
  then show ?thesis using pmm_alloc_page_none[OF assms] by simp
next
  case False
  from pmm_alloc_page_full[OF assms False] obtain s' where
    s': "pmm_alloc_page s = Some (of_nat (Min (free_frames s)) * 4096, s')"
    "usable_pages s' = usable_pages s" "used_pages s' = used_pages s + 1" "pmm_wf s'"
    "free_frames s' = free_frames s - {Min (free_frames s)}"
    "page_refcount s' = (page_refcount s)(Min (free_frames s) :=
       if Min (free_frames s) < MAX_PAGES then 1 else page_refcount s (Min (free_frames s)))"
    "ram s' = (\<lambda>x. if Min (free_frames s) * 4096 \<le> unat x \<and>
       unat x < Min (free_frames s) * 4096 + 4096 then 0 else ram s x)" by blast
  moreover have "of_nat (Min (free_frames s)) * 4096 \<noteq> (0 :: u64)"
    using fa.alloc_zero_iff[OF assms s'(1)] False by simp
  ultimately show ?thesis using False by (simp add: Let_def pmm_get_free_page_count_def diff_diff_eq)
qed

theorem pmm_alloc_page_witness:
  "\<exists>s'. pmm_alloc_page demo_pmm = Some (0x3000, s') \<and> pmm_wf s' \<and> free_frames s' = {4, 5, 6, 7} \<and>
     ram s' 0x3008 = 0 \<and> ram s' 0x4000 = 7"
proof -
  have m: "Min {3, 4, 5, 6, 7 :: nat} = 3" by simp
  have d: "{3, 4, 5, 6, 7} - {3 :: nat} = {4, 5, 6, 7}" by auto
  from pmm_alloc_page_correct[OF demo_wf]
  obtain s' where "pmm_alloc_page demo_pmm = Some (of_nat 3 * 4096, s')" "pmm_wf s'"
    "free_frames s' = {4, 5, 6, 7}"
    "\<forall>x. ram s' x = (if 3 * 4096 \<le> unat x \<and> unat x < 3 * 4096 + 4096 then 0 else ram demo_pmm x)"
    unfolding demo_free m Let_def d by auto
  then show ?thesis by (intro exI[of _ s']) (simp add: demo_pmm_def)
qed

text \<open>
  C3. Allocation of a run. As long as \<open>max_page_index + count\<close> does not exceed 64 bits,
  \<open>pmm_alloc_pages\<close> finds a run of \<open>count\<close> free frames whenever there is one, in spite of its
  skipping ahead, and takes the lowest: the frames of the run, and no others, stop being free,
  get reference count 1 and are filled with zeros. Otherwise it returns 0 and changes nothing.
\<close>

theorem pmm_alloc_pages_correct:
  assumes wf: "pmm_wf s" and count: "0 < unat count" "unat (max_page_index s) + unat count < 2 ^ 64"
  shows "if \<nexists>i. run_of (unat count) s i then pmm_alloc_pages count s = Some (0, s)
     else let p = LEAST i. run_of (unat count) s i in
       \<exists>s'. pmm_alloc_pages count s = Some (of_nat p * 4096, s') \<and> pmm_wf s' \<and>
         free_frames s' = free_frames s - {p..<p + unat count} \<and>
         (\<forall>x. ram s' x = (if p * 4096 \<le> unat x \<and> unat x < (p + unat count) * 4096 then 0 else ram s x)) \<and>
         (\<forall>q. page_refcount s' q =
            (if p \<le> q \<and> q < p + unat count \<and> q < MAX_PAGES then 1 else page_refcount s q))"
proof (cases "unat count = 1")
  case True
  then have c1: "count = 1" by (metis unat_1 unsigned_word_eqI)
  then have al: "pmm_alloc_pages count s = pmm_alloc_page s" by (simp add: pmm_alloc_pages_def)
  have ex: "(\<exists>i. run_of 1 s i) \<longleftrightarrow> free_frames s \<noteq> {}" by (auto simp: run_of_def)
  have run1: "{p..<p + 1} = {p}" "p \<le> q \<and> q < p + 1 \<and> q < MAX_PAGES \<longleftrightarrow> q = p \<and> q < MAX_PAGES"
    for p q :: nat by auto
  show ?thesis
  proof (cases "free_frames s = {}")
    case True
    with ex pmm_alloc_page_none[OF wf] show ?thesis unfolding al by (simp add: c1)
  next
    case False
    from pmm_alloc_page_full[OF wf this] show ?thesis
      unfolding al True run1 Least_run_of_1[OF False] Let_def using ex False
      by (elim exE conjE) (simp add: add_mult_distrib)
  qed
next
  case False
  then have c2: "2 \<le> unat count" using count(1) by simp
  then have "count \<noteq> 0" "count \<noteq> 1" by auto
  then show ?thesis
    using pmm_alloc_pages_run[OF wf c2 count(2)] pmm_find_run_least[OF wf count]
    by (auto simp: pmm_alloc_pages_def Let_def)
qed

lemma demo_run: "run_of 3 demo_pmm 3" "run_of 3 demo_pmm i \<Longrightarrow> 3 \<le> i"
proof -
  show "run_of 3 demo_pmm 3" unfolding run_of_def demo_free by auto
  assume "run_of 3 demo_pmm i"
  then have "i \<in> {3, 4, 5, 6, 7}" unfolding run_of_def demo_free by (rule subsetD) simp
  then show "3 \<le> i" by auto
qed

theorem pmm_alloc_pages_witness:
  "\<exists>s'. pmm_alloc_pages 3 demo_pmm = Some (0x3000, s') \<and> pmm_wf s' \<and> free_frames s' = {6, 7}"
proof -
  have L: "(LEAST i. run_of 3 demo_pmm i) = 3" using demo_run by (intro Least_equality)
  have "0 < unat (3 :: u64)" "unat (max_page_index demo_pmm) + unat (3 :: u64) < 2 ^ 64"
    by (simp_all add: demo_pmm_def)
  moreover have u: "unat (3 :: u64) = 3" by simp
  moreover have "\<not> (\<nexists>i. run_of 3 demo_pmm i)" using demo_run(1) by blast
  ultimately obtain s' where s': "pmm_alloc_pages 3 demo_pmm = Some (of_nat 3 * 4096, s')" "pmm_wf s'"
    "free_frames s' = free_frames demo_pmm - {3..<3 + 3}"
    using pmm_alloc_pages_correct[OF demo_wf, of 3] unfolding u L Let_def if_not_P by metis
  have "{3, 4, 5, 6, 7} - {3..<3 + 3} = {6, 7 :: nat}" by auto
  with s' show ?thesis by (simp add: demo_free)
qed

text \<open>
  C4. Freeing. A frame that was just allocated can be given back: the set of free frames and the
  statistics are those before the allocation, and the invariant holds. A second free of the
  same address is ignored.
\<close>

theorem pmm_alloc_free_roundtrip:
  assumes wf: "pmm_wf s" and al: "pmm_alloc_page s = Some (a, s1)" and a: "a \<noteq> 0"
  shows "\<exists>s2. pmm_free_page a s1 = Some s2 \<and> pmm_wf s2 \<and> free_frames s2 = free_frames s \<and>
     pmm_get_free_memory s2 = pmm_get_free_memory s \<and> pmm_free_page a s2 = Some s2"
proof -
  have ne: "free_frames s \<noteq> {}" using fa.alloc_zero_iff[OF wf al] a by simp
  define p where "p = Min (free_frames s)"
  have pin: "p \<in> free_frames s" using ne by (simp add: p_def)
  have s1: "a = of_nat p * 4096" "pmm_wf s1" "free_frames s1 = free_frames s - {p}"
    "max_page_index s1 = max_page_index s" "usable_pages s1 = usable_pages s"
    "used_pages s1 = used_pages s + 1"
    using pmm_alloc_page_full[OF wf ne] al unfolding p_def by auto
  have lt: "p < unat (max_page_index s1)" unfolding s1(4) using pin by (rule free_frames_less)
  then have "p < 2 ^ 52" using pmm_wf_bound(2)[OF s1(2)] by blast
  then have page: "p = unat a div 4096" by (simp add: s1(1) frame_address)
  have "0 < p" using fa.avail_range[OF wf pin] by simp
  from pmm_free_page_used[OF s1(2) page this lt] s1(3) obtain s2 bm2 where
    s2: "pmm_free_page a s1 = Some s2" "pmm_wf s2" "free_frames s2 = insert p (free_frames s1)"
    and s2_eq: "s2 = s1\<lparr>bitmap := Some bm2, used_pages := used_pages s1 - 1,
       page_refcount := (page_refcount s1)(p := if p < MAX_PAGES then 0 else page_refcount s1 p)\<rparr>" by blast
  have "free_frames s2 = free_frames s" using s2(3) s1(3) pin by auto
  moreover have "pmm_get_free_memory s2 = pmm_get_free_memory s"
    using s1(5,6) by (simp add: s2_eq pmm_get_free_memory_def)
  moreover have "pmm_free_page a s2 = Some s2"
    using pmm_free_page_ignored[OF s2(2), of a] s2(3) page by simp
  ultimately show ?thesis using s2 by blast
qed

theorem pmm_alloc_free_witness:
  "\<exists>s1 s2. pmm_alloc_page demo_pmm = Some (0x3000, s1) \<and> pmm_free_page 0x3000 s1 = Some s2 \<and>
     free_frames s2 = {3, 4, 5, 6, 7}"
proof -
  have "free_frames demo_pmm \<noteq> {}" by (simp add: demo_free)
  from pmm_alloc_page_some[OF demo_wf this]
  obtain s1 where s1: "pmm_alloc_page demo_pmm = Some (0x3000, s1)"
    by (auto simp: demo_free PMM_PAGE_SIZE_def)
  from pmm_alloc_free_roundtrip[OF demo_wf this] s1 show ?thesis by (auto simp: demo_free)
qed

text \<open>
  Reference counts. For a frame in use with reference count 1, any number of further
  references (as many as a 16-bit counter holds) followed by the same number of releases leaves
  the frame in use with reference count 1; only one more release makes it free.
\<close>

theorem pmm_ref_unref:
  assumes wf: "pmm_wf s" and p: "p = unat a div 4096" "0 < p" "p < MAX_PAGES"
    "p < unat (max_page_index s)" "p \<notin> free_frames s" "page_refcount s p = 1" and k: "k < 2 ^ 16 - 1"
  shows "\<exists>s1 s3. for_range (\<lambda>_. pmm_page_ref a) 0 k s = Some s1 \<and>
     pmm_page_refcount a s1 = Some (1 + of_nat k) \<and>
     for_range (\<lambda>_. pmm_page_unref a) 0 k s1 = Some s \<and>
     pmm_page_unref a s = Some s3 \<and> pmm_wf s3 \<and> free_frames s3 = insert p (free_frames s) \<and>
     pmm_page_refcount a s3 = Some 0"
proof -
  let ?s1 = "s\<lparr>page_refcount := (page_refcount s)(p := page_refcount s p + of_nat k)\<rparr>"
  have page: "unat (a div PMM_PAGE_SIZE) = p" by (simp add: PMM_PAGE_SIZE_def unat_div_4096 p(1))
  have "unat (1 + of_nat k :: u16) = 1 + k"
  proof -
    have "unat (of_nat (Suc k) :: u16) = Suc k"
      using k by (simp only: unsigned_of_nat) (simp add: take_bit_nat_eq_self)
    then show ?thesis by simp
  qed
  then have "k < unat (page_refcount ?s1 p)" using p(6) by simp
  from pmm_unrefs_spec[OF p(1-3) this, of 0]
  have undo: "for_range (\<lambda>_. pmm_page_unref a) 0 k ?s1 = Some s" by simp
  obtain s3 bm3 where s3: "pmm_page_unref a s = Some s3" "pmm_wf s3"
    "free_frames s3 = insert p (free_frames s)"
    and s3_eq: "s3 = s\<lparr>bitmap := Some bm3, used_pages := used_pages s - 1,
       page_refcount := (page_refcount s)(p := 0)\<rparr>"
    using pmm_page_unref_last[OF wf p] by blast
  have "pmm_page_refcount a ?s1 = Some (1 + of_nat k)" "pmm_page_refcount a s3 = Some 0"
    using p(3,6) by (simp_all add: pmm_page_refcount_def page refcount_rd_def s3_eq)
  with pmm_refs_spec[OF p(1,3)] undo s3 show ?thesis by blast
qed

theorem pmm_ref_unref_witness:
  "\<exists>s1 s3. for_range (\<lambda>_. pmm_page_ref 0x2000) 0 2 demo_pmm = Some s1 \<and>
     pmm_page_refcount 0x2000 s1 = Some 3 \<and> for_range (\<lambda>_. pmm_page_unref 0x2000) 0 2 s1 = Some demo_pmm \<and>
     pmm_page_unref 0x2000 demo_pmm = Some s3 \<and> free_frames s3 = {2, 3, 4, 5, 6, 7}"
proof -
  have "2 = unat (0x2000 :: u64) div 4096" "2 < MAX_PAGES" "2 < unat (max_page_index demo_pmm)"
    "2 \<notin> free_frames demo_pmm" "page_refcount demo_pmm 2 = 1"
    by (simp_all add: MAX_PAGES_def demo_free) (simp_all add: demo_pmm_def)
  from pmm_ref_unref[OF demo_wf this(1) _ this(2-5), of 2] show ?thesis
    by (auto simp: demo_free)
qed

text \<open>
  The bound of C3 is needed: \<open>i + count\<close> is a 64-bit sum, and when the highest frame is free
  there is a \<open>count\<close> for which the sum wraps, the guard accepts the run, and the marking loop
  writes past the end of the bitmap.
\<close>

theorem pmm_alloc_pages_overflow:
  assumes wf: "pmm_wf s" and top: "Suc m = unat (max_page_index s)" "m \<in> free_frames s"
    and len: "8 * length (bm_bytes s) < 2 ^ 64"
  shows "pmm_alloc_pages (- of_nat m) s = None"
proof -
  have m: "0 < m" "m < 2 ^ 52" using fa.avail_range[OF wf top(2)] by auto
  then have c: "unat (- of_nat m :: u64) = 2 ^ 64 - m" by (intro unat_neg_of_nat) simp_all
  then have c0: "(- of_nat m :: u64) \<noteq> 0" "(- of_nat m :: u64) \<noteq> 1" using m by auto
  have "pmm_find_run (bm_bytes s) (- of_nat m) (max_page_index s) 1 = Some (Some m)"
    by (rule pmm_find_run_wrap[OF wf top])
  moreover have "for_range pmm_take m (2 ^ 64 - m) s = None"
    using pmm_take_bound[of m "2 ^ 64 - m" s] m len by (cases "for_range pmm_take m (2 ^ 64 - m) s") auto
  ultimately show ?thesis using c c0 by (simp add: pmm_alloc_pages_def)
qed

theorem pmm_alloc_pages_overflow_witness: "pmm_alloc_pages (- 7) demo_pmm = None"
  using pmm_alloc_pages_overflow[OF demo_wf, of 7] unfolding demo_free
  by (simp add: demo_pmm_def bm_bytes_def)

end
