(* ===== verification/Vmm.thy ===== *)
theory Vmm
  imports Pmm
begin

text \<open>
  The virtual memory manager, \<open>kernel/src/mm/vmm.c\<close>: walks and edits of the four-level page tables,
  copy-on-write clones of an address space and its destruction. The page tables live in the
  physical memory \<open>ram\<close> of the frame allocator and are reached through the direct map at
  \<open>voff\<close>. The register CR3 is a field of the state, and \<open>flushes\<close> records the TLB invalidations
  (\<open>invlpg\<close> and writes of CR3), the latest first. A table pointer is \<open>None\<close> for NULL; access
  through NULL is a fault.
\<close>

section \<open>State and constants\<close>

datatype tlb_flush = Invlpg u64 | Write_cr3

record vmm =
  pm :: pmm
  voff :: u64
  cr3 :: u64
  flushes :: "tlb_flush list"

definition PAGE_PRESENT :: u64 where "PAGE_PRESENT = 1"
definition PAGE_WRITABLE :: u64 where "PAGE_WRITABLE = 2"
definition PAGE_USER :: u64 where "PAGE_USER = 4"
definition PAGE_HUGE :: u64 where "PAGE_HUGE = 128"

definition ADDR_MASK :: u64 where "ADDR_MASK = 0x000FFFFFFFFFF000"

definition vmm_phys_to_virt :: "vmm \<Rightarrow> u64 \<Rightarrow> u64" where
  "vmm_phys_to_virt s phys = phys + voff s"

definition virt_to_phys_hhdm :: "vmm \<Rightarrow> u64 \<Rightarrow> u64" where
  "virt_to_phys_hhdm s virt = virt - voff s"

definition get_current_pml4 :: "vmm \<Rightarrow> u64" where
  "get_current_pml4 s = vmm_phys_to_virt s (cr3 s AND ADDR_MASK)"

definition PML4_INDEX :: "u64 \<Rightarrow> u64" where "PML4_INDEX addr = drop_bit 39 addr AND 0x1FF"
definition PDPT_INDEX :: "u64 \<Rightarrow> u64" where "PDPT_INDEX addr = drop_bit 30 addr AND 0x1FF"
definition PD_INDEX :: "u64 \<Rightarrow> u64" where "PD_INDEX addr = drop_bit 21 addr AND 0x1FF"
definition PT_INDEX :: "u64 \<Rightarrow> u64" where "PT_INDEX addr = drop_bit 12 addr AND 0x1FF"

text \<open>Reading and writing \<open>table[index]\<close> of a table of 64-bit entries in the direct map.\<close>

definition tbl_rd :: "u64 option \<Rightarrow> u64 \<Rightarrow> vmm \<Rightarrow> u64 option" where
  "tbl_rd table index s = do {
     t \<leftarrow> table;
     Some (ram (pm s) (t + 8 * index - voff s)) }"

definition tbl_wr :: "u64 option \<Rightarrow> u64 \<Rightarrow> u64 \<Rightarrow> vmm \<Rightarrow> vmm option" where
  "tbl_wr table index v s = do {
     t \<leftarrow> table;
     Some (s\<lparr>pm := (pm s)\<lparr>ram := (ram (pm s))(t + 8 * index - voff s := v)\<rparr>\<rparr>) }"

text \<open>Calls into the frame allocator.\<close>

definition vmm_alloc_page :: "vmm \<Rightarrow> (u64 \<times> vmm) option" where
  "vmm_alloc_page s = do { (a, p) \<leftarrow> pmm_alloc_page (pm s); Some (a, s\<lparr>pm := p\<rparr>) }"

definition on_pmm :: "(pmm \<Rightarrow> pmm option) \<Rightarrow> vmm \<Rightarrow> vmm option" where
  "on_pmm f s = do { p \<leftarrow> f (pm s); Some (s\<lparr>pm := p\<rparr>) }"

definition invlpg :: "u64 \<Rightarrow> vmm \<Rightarrow> vmm" where
  "invlpg a s = s\<lparr>flushes := Invlpg a # flushes s\<rparr>"

definition write_cr3 :: "u64 \<Rightarrow> vmm \<Rightarrow> vmm" where
  "write_cr3 v s = s\<lparr>cr3 := v, flushes := Write_cr3 # flushes s\<rparr>"

section \<open>Walking the tables\<close>

definition vmm_get_next_level :: "u64 option \<Rightarrow> u64 \<Rightarrow> bool \<Rightarrow> vmm \<Rightarrow> (u64 option \<times> vmm) option" where
  "vmm_get_next_level table index create s = do {
     e \<leftarrow> tbl_rd table index s;
     if e AND PAGE_PRESENT \<noteq> 0 then Some (Some (vmm_phys_to_virt s (e AND ADDR_MASK)), s)
     else if \<not> create then Some (None, s)
     else do {
       (new_page, s1) \<leftarrow> vmm_alloc_page s;
       if new_page = 0 then Some (None, s1)
       else do {
         let s2 = s1\<lparr>pm := hhdm_zero (pm s1) (vmm_phys_to_virt s1 new_page) 4096\<rparr>;
         s3 \<leftarrow> tbl_wr table index (new_page OR PAGE_PRESENT OR PAGE_WRITABLE OR PAGE_USER) s2;
         Some (Some (vmm_phys_to_virt s3 new_page), s3) } } }"

text \<open>The three steps from the current PML4 to a page table, with the NULL checks in between.\<close>

definition vmm_walk :: "u64 \<Rightarrow> bool \<Rightarrow> vmm \<Rightarrow> (u64 option \<times> vmm) option" where
  "vmm_walk virt create s = do {
     (pdpt, s1) \<leftarrow> vmm_get_next_level (Some (get_current_pml4 s)) (PML4_INDEX virt) create s;
     if pdpt = None then Some (None, s1)
     else do {
       (pd, s2) \<leftarrow> vmm_get_next_level pdpt (PDPT_INDEX virt) create s1;
       if pd = None then Some (None, s2)
       else vmm_get_next_level pd (PD_INDEX virt) create s2 } }"

section \<open>The operations\<close>

definition vmm_init :: "u64 option \<Rightarrow> vmm \<Rightarrow> vmm" where
  "vmm_init hhdm s = (case hhdm of None \<Rightarrow> s | Some off \<Rightarrow> s\<lparr>voff := off\<rparr>)"

definition vmm_map_page :: "u64 \<Rightarrow> u64 \<Rightarrow> u64 \<Rightarrow> vmm \<Rightarrow> vmm option" where
  "vmm_map_page virt phys flags s = do {
     (pt, s1) \<leftarrow> vmm_walk virt True s;
     if pt = None then Some s1
     else do {
       s2 \<leftarrow> tbl_wr pt (PT_INDEX virt) (phys AND ADDR_MASK OR flags) s1;
       Some (invlpg virt s2) } }"

definition vmm_unmap_page :: "u64 \<Rightarrow> vmm \<Rightarrow> vmm option" where
  "vmm_unmap_page virt s = do {
     (pt, s1) \<leftarrow> vmm_walk virt False s;
     if pt = None then Some s1
     else do {
       s2 \<leftarrow> tbl_wr pt (PT_INDEX virt) 0 s1;
       Some (invlpg virt s2) } }"

definition vmm_get_phys :: "u64 \<Rightarrow> vmm \<Rightarrow> u64 option" where
  "vmm_get_phys virt s = do {
     (pt, s1) \<leftarrow> vmm_walk virt False s;
     if pt = None then Some 0
     else do {
       e \<leftarrow> tbl_rd pt (PT_INDEX virt) s1;
       if e AND PAGE_PRESENT = 0 then Some 0
       else Some (e AND ADDR_MASK OR (virt AND 0xFFF)) } }"

definition vmm_get_hhdm_offset :: "vmm \<Rightarrow> u64" where
  "vmm_get_hhdm_offset s = voff s"

section \<open>Cloning an address space\<close>

definition vmm_clone_kernel_space :: "vmm \<Rightarrow> (u64 \<times> vmm) option" where
  "vmm_clone_kernel_space s = do {
     (new_pml4_phys, s1) \<leftarrow> vmm_alloc_page s;
     if new_pml4_phys = 0 then Some (0, s1)
     else do {
       let new_pml4 = Some (vmm_phys_to_virt s1 new_pml4_phys);
       let cur_pml4 = Some (get_current_pml4 s1);
       s2 \<leftarrow> for_range (\<lambda>i s. do {
                e \<leftarrow> tbl_rd cur_pml4 (of_nat i) s;
                tbl_wr new_pml4 (of_nat i) e s }) 256 256 s1;
       Some (new_pml4_phys, s2) } }"

definition vmm_clone_pte :: "u64 option \<Rightarrow> u64 option \<Rightarrow> nat \<Rightarrow> vmm \<Rightarrow> vmm option" where
  "vmm_clone_pte old_pt new_pt i s = do {
     e \<leftarrow> tbl_rd old_pt (of_nat i) s;
     if e AND PAGE_PRESENT \<noteq> 0 then do {
       let phys = e AND ADDR_MASK;
       if e AND PAGE_USER \<noteq> 0 \<and> e AND PAGE_WRITABLE \<noteq> 0 then do {
         s1 \<leftarrow> tbl_wr old_pt (of_nat i) (e AND NOT PAGE_WRITABLE) s;
         e1 \<leftarrow> tbl_rd old_pt (of_nat i) s1;
         s2 \<leftarrow> tbl_wr new_pt (of_nat i) e1 s1;
         on_pmm (pmm_page_ref phys) s2 }
       else do {
         s1 \<leftarrow> tbl_wr new_pt (of_nat i) e s;
         if e AND PAGE_USER \<noteq> 0 then on_pmm (pmm_page_ref phys) s1 else Some s1 } }
     else Some s }"

definition vmm_clone_pt :: "u64 option \<Rightarrow> u64 option \<Rightarrow> vmm \<Rightarrow> vmm option" where
  "vmm_clone_pt old_pt new_pt s = for_range (vmm_clone_pte old_pt new_pt) 0 512 s"

text \<open>One entry of the loops over a page directory, a PDPT and the user half of a PML4.\<close>

definition vmm_clone_entry ::
  "(u64 option \<Rightarrow> u64 option \<Rightarrow> vmm \<Rightarrow> vmm option) \<Rightarrow> u64 option \<Rightarrow> u64 option \<Rightarrow> nat \<Rightarrow> vmm \<Rightarrow> vmm option" where
  "vmm_clone_entry clone_sub old new i s = do {
     e \<leftarrow> tbl_rd old (of_nat i) s;
     if e AND PAGE_PRESENT \<noteq> 0 \<and> e AND PAGE_USER \<noteq> 0 then do {
       (sub_phys, s1) \<leftarrow> vmm_alloc_page s;
       if sub_phys = 0 then Some s1
       else do {
         let new_sub = Some (vmm_phys_to_virt s1 sub_phys);
         e1 \<leftarrow> tbl_rd old (of_nat i) s1;
         let old_sub = Some (vmm_phys_to_virt s1 (e1 AND ADDR_MASK));
         s2 \<leftarrow> clone_sub old_sub new_sub s1;
         tbl_wr new (of_nat i) (sub_phys OR PAGE_PRESENT OR PAGE_USER OR PAGE_WRITABLE) s2 } }
     else Some s }"

definition vmm_clone_pd :: "u64 option \<Rightarrow> u64 option \<Rightarrow> vmm \<Rightarrow> vmm option" where
  "vmm_clone_pd old_pd new_pd s = for_range (vmm_clone_entry vmm_clone_pt old_pd new_pd) 0 512 s"

definition vmm_clone_pdpt :: "u64 option \<Rightarrow> u64 option \<Rightarrow> vmm \<Rightarrow> vmm option" where
  "vmm_clone_pdpt old_pdpt new_pdpt s = for_range (vmm_clone_entry vmm_clone_pd old_pdpt new_pdpt) 0 512 s"

definition vmm_cow_clone :: "u64 \<Rightarrow> vmm \<Rightarrow> (u64 \<times> vmm) option" where
  "vmm_cow_clone parent_cr3 s = do {
     (new_pml4_phys, s1) \<leftarrow> vmm_clone_kernel_space s;
     if new_pml4_phys = 0 then Some (0, s1)
     else do {
       let new_pml4 = Some (vmm_phys_to_virt s1 new_pml4_phys);
       let old_pml4 = Some (vmm_phys_to_virt s1 parent_cr3);
       s2 \<leftarrow> for_range (vmm_clone_entry vmm_clone_pdpt old_pml4 new_pml4) 0 256 s1;
       Some (new_pml4_phys, write_cr3 (cr3 s2) s2) } }"

section \<open>Destroying an address space\<close>

definition vmm_destroy_pte :: "u64 option \<Rightarrow> nat \<Rightarrow> vmm \<Rightarrow> vmm option" where
  "vmm_destroy_pte pt l s = do {
     e \<leftarrow> tbl_rd pt (of_nat l) s;
     if e AND PAGE_PRESENT = 0 \<or> e AND PAGE_USER = 0 then Some s
     else on_pmm (pmm_page_unref (e AND ADDR_MASK)) s }"

definition vmm_destroy_pde :: "u64 option \<Rightarrow> nat \<Rightarrow> vmm \<Rightarrow> vmm option" where
  "vmm_destroy_pde pd k s = do {
     e \<leftarrow> tbl_rd pd (of_nat k) s;
     if e AND PAGE_PRESENT = 0 \<or> e AND PAGE_USER = 0 then Some s
     else do {
       let pt_phys = e AND ADDR_MASK;
       s1 \<leftarrow> for_range (vmm_destroy_pte (Some (vmm_phys_to_virt s pt_phys))) 0 512 s;
       on_pmm (pmm_free_page pt_phys) s1 } }"

definition vmm_destroy_pdpte :: "u64 option \<Rightarrow> nat \<Rightarrow> vmm \<Rightarrow> vmm option" where
  "vmm_destroy_pdpte pdpt j s = do {
     e \<leftarrow> tbl_rd pdpt (of_nat j) s;
     if e AND PAGE_PRESENT = 0 \<or> e AND PAGE_USER = 0 then Some s
     else do {
       let pd_phys = e AND ADDR_MASK;
       s1 \<leftarrow> for_range (vmm_destroy_pde (Some (vmm_phys_to_virt s pd_phys))) 0 512 s;
       on_pmm (pmm_free_page pd_phys) s1 } }"

definition vmm_destroy_pml4e :: "u64 option \<Rightarrow> nat \<Rightarrow> vmm \<Rightarrow> vmm option" where
  "vmm_destroy_pml4e pml4 i s = do {
     e \<leftarrow> tbl_rd pml4 (of_nat i) s;
     if e AND PAGE_PRESENT = 0 then Some s
     else do {
       let pdpt_phys = e AND ADDR_MASK;
       s1 \<leftarrow> for_range (vmm_destroy_pdpte (Some (vmm_phys_to_virt s pdpt_phys))) 0 512 s;
       on_pmm (pmm_free_page pdpt_phys) s1 } }"

definition vmm_destroy_address_space :: "u64 \<Rightarrow> vmm \<Rightarrow> vmm option" where
  "vmm_destroy_address_space cr3_val s =
     (if cr3_val = 0 then Some s
      else do {
        s1 \<leftarrow> for_range (vmm_destroy_pml4e (Some (vmm_phys_to_virt s cr3_val))) 0 256 s;
        on_pmm (pmm_free_page cr3_val) s1 })"

section \<open>The tree of page tables\<close>

text \<open>
  Tables are identified by their frame. \<open>tbl r root p\<close> is the frame of the table reached from the
  table \<open>root\<close> along the indices \<open>p\<close>, the last index first, through present entries that are not
  huge pages. \<open>lookup\<close> is the leaf entry of a page.
\<close>

definition frame_of :: "u64 \<Rightarrow> nat" where
  "frame_of e = unat (e AND ADDR_MASK) div 4096"

definition entry_addr :: "nat \<Rightarrow> u64 \<Rightarrow> u64" where
  "entry_addr f i = of_nat f * 4096 + 8 * i"

definition present :: "u64 \<Rightarrow> bool" where "present e \<longleftrightarrow> e AND PAGE_PRESENT \<noteq> 0"
definition huge :: "u64 \<Rightarrow> bool" where "huge e \<longleftrightarrow> e AND PAGE_HUGE \<noteq> 0"

fun tbl :: "(u64 \<Rightarrow> u64) \<Rightarrow> nat \<Rightarrow> u64 list \<Rightarrow> nat option" where
  "tbl r root [] = Some root"
| "tbl r root (i # p) =
     (case tbl r root p of
        None \<Rightarrow> None
      | Some f \<Rightarrow> let e = r (entry_addr f i) in if present e \<and> \<not> huge e then Some (frame_of e) else None)"

fun clean :: "(u64 \<Rightarrow> u64) \<Rightarrow> nat \<Rightarrow> u64 list \<Rightarrow> bool" where
  "clean r root [] \<longleftrightarrow> True"
| "clean r root (i # p) \<longleftrightarrow> clean r root p \<and>
     (case tbl r root p of
        None \<Rightarrow> True
      | Some f \<Rightarrow> \<not> (present (r (entry_addr f i)) \<and> huge (r (entry_addr f i))))"

definition leaf :: "u64 \<Rightarrow> u64 option" where
  "leaf e = (if present e then Some e else None)"

definition lookup :: "(u64 \<Rightarrow> u64) \<Rightarrow> nat \<Rightarrow> u64 list \<Rightarrow> u64 option" where
  "lookup r root p = Option.bind (tbl r root (tl p)) (\<lambda>f. leaf (r (entry_addr f (hd p))))"

definition valid :: "u64 list \<Rightarrow> bool" where
  "valid p \<longleftrightarrow> length p \<le> 3 \<and> (\<forall>i \<in> set p. i < 512)"

definition tables :: "(u64 \<Rightarrow> u64) \<Rightarrow> nat \<Rightarrow> nat set" where
  "tables r root = {f. \<exists>p. valid p \<and> tbl r root p = Some f}"

definition tables_inj :: "(u64 \<Rightarrow> u64) \<Rightarrow> nat \<Rightarrow> bool" where
  "tables_inj r root \<longleftrightarrow>
     (\<forall>p q f. valid p \<longrightarrow> valid q \<longrightarrow> tbl r root p = Some f \<longrightarrow> tbl r root q = Some f \<longrightarrow> p = q)"

lemma addr_mask_bits: "e AND ADDR_MASK = push_bit 12 (take_bit 40 (drop_bit 12 e))"
proof -
  have "ADDR_MASK = push_bit 12 (mask 40)" by (simp add: ADDR_MASK_def mask_eq_exp_minus_1)
  then show ?thesis unfolding \<open>ADDR_MASK = _\<close>
    by (auto intro!: bit_word_eqI simp: bit_simps)
qed

lemma frame_of_bound: "frame_of e < 2 ^ 40"
  and frame_of_addr: "of_nat (frame_of e) * 4096 = e AND ADDR_MASK"
proof -
  let ?x = "take_bit 40 (drop_bit 12 e)"
  have x: "unat ?x < 2 ^ 40" by (simp add: unsigned_take_bit_eq take_bit_nat_less_exp[of 40, simplified])
  have "unat (?x * 4096) = unat ?x * 4096"
    using frame_address[of "unat ?x"] x by simp
  then have u: "unat (e AND ADDR_MASK) = unat ?x * 4096"
    by (simp add: addr_mask_bits push_bit_eq_mult)
  then have f: "frame_of e = unat ?x" by (simp add: frame_of_def)
  show "frame_of e < 2 ^ 40" using x by (simp add: f)
  show "of_nat (frame_of e) * 4096 = e AND ADDR_MASK"
    by (simp add: f addr_mask_bits push_bit_eq_mult)
qed

lemma unat_entry_addr:
  assumes "f < 2 ^ 40" "i < 512"
  shows "unat (entry_addr f i) = f * 4096 + 8 * unat i"
proof -
  have i: "unat i < 512" using assms(2) by (simp add: word_less_nat_alt)
  then have "unat (8 * i) = 8 * unat i" by (simp add: unat_mult_lem[THEN iffD1])
  moreover have "unat (of_nat f * 4096 :: u64) = f * 4096" using assms(1) by (simp add: frame_address)
  ultimately show ?thesis using i assms(1)
    by (simp add: entry_addr_def unat_add_lem[THEN iffD1])
qed

lemma entry_addr_frame:
  assumes "f < 2 ^ 40" "i < 512"
  shows "unat (entry_addr f i) div 4096 = f"
proof -
  have "unat i < 512" using assms(2) by (simp add: word_less_nat_alt)
  then show ?thesis using unat_entry_addr[OF assms] by simp
qed

lemma entry_addr_eq:
  assumes "f < 2 ^ 40" "i < 512" "g < 2 ^ 40" "j < 512"
  shows "entry_addr f i = entry_addr g j \<longleftrightarrow> f = g \<and> i = j"
proof
  assume eq: "entry_addr f i = entry_addr g j"
  then have "f = g" using entry_addr_frame[OF assms(1,2)] entry_addr_frame[OF assms(3,4)] by simp
  moreover have "unat i = unat j"
    using eq unat_entry_addr[OF assms(1,2)] unat_entry_addr[OF assms(3,4)] \<open>f = g\<close> by simp
  then have "i = j" by (rule unsigned_word_eqI)
  ultimately show "f = g \<and> i = j" by simp
qed simp

lemma tbl_bound: "root < 2 ^ 40 \<Longrightarrow> tbl r root p = Some f \<Longrightarrow> f < 2 ^ 40"
  by (induction p arbitrary: f) (auto simp: Let_def frame_of_bound[simplified] split: option.splits if_splits)

lemma valid_Cons [simp]: "valid (i # p) \<longleftrightarrow> valid p \<and> length p < 3 \<and> i < 512"
  by (auto simp: valid_def)

lemma valid_Nil [simp]: "valid []"
  by (simp add: valid_def)

text \<open>The tree depends only on the cells of its tables above the leaves.\<close>

definition same_tables :: "(u64 \<Rightarrow> u64) \<Rightarrow> (u64 \<Rightarrow> u64) \<Rightarrow> nat \<Rightarrow> bool" where
  "same_tables r r' root \<longleftrightarrow>
     (\<forall>q f i. valid (i # q) \<longrightarrow> tbl r root q = Some f \<longrightarrow> r' (entry_addr f i) = r (entry_addr f i))"

lemma tbl_cong: "same_tables r r' root \<Longrightarrow> valid p \<Longrightarrow> tbl r' root p = tbl r root p"
proof (induction p)
  case (Cons i p)
  then show ?case by (auto simp: same_tables_def split: option.splits)
qed simp

lemma clean_cong: "same_tables r r' root \<Longrightarrow> valid p \<Longrightarrow> clean r' root p = clean r root p"
proof (induction p)
  case (Cons i p)
  then have "tbl r' root p = tbl r root p" by (simp add: tbl_cong)
  with Cons show ?case by (auto simp: same_tables_def split: option.splits)
qed simp

lemma tables_cong: "same_tables r r' root \<Longrightarrow> tables r' root = tables r root"
  by (auto simp: tables_def tbl_cong)

lemma tables_inj_cong: "same_tables r r' root \<Longrightarrow> tables_inj r' root = tables_inj r root"
  by (simp add: tables_inj_def tbl_cong cong: imp_cong)

lemma tables_bound: "root < 2 ^ 40 \<Longrightarrow> f \<in> tables r root \<Longrightarrow> f < 2 ^ 40"
  using tbl_bound by (auto simp: tables_def)

lemma tables_injD:
  "tables_inj r root \<Longrightarrow> valid p \<Longrightarrow> valid q \<Longrightarrow> tbl r root p = Some f \<Longrightarrow> tbl r root q = Some f \<Longrightarrow> p = q"
  by (simp add: tables_inj_def)

text \<open>Writes outside the tables, and writes of a leaf entry, keep the tree.\<close>

lemma same_tables_outside:
  assumes "root < 2 ^ 40" "\<And>x. unat x div 4096 \<in> tables r root \<Longrightarrow> r' x = r x"
  shows "same_tables r r' root"
  unfolding same_tables_def
proof (intro allI impI)
  fix q f i
  assume "valid (i # q)" and t: "tbl r root q = Some f"
  then have "f \<in> tables r root" "i < 512" by (auto simp: tables_def)
  then show "r' (entry_addr f i) = r (entry_addr f i)"
    using assms(2) entry_addr_frame[OF tbl_bound[OF assms(1) t]] by simp
qed

lemma same_tables_leaf:
  assumes "root < 2 ^ 40" "tables_inj r root" "valid q" "length q = 3" "tbl r root q = Some f" "i < 512"
  shows "same_tables r (r(entry_addr f i := v)) root"
  unfolding same_tables_def
proof (intro allI impI)
  fix p g j
  assume p: "valid (j # p)" "tbl r root p = Some g"
  have "g \<noteq> f" using tables_injD[OF assms(2) _ assms(3) p(2)] p assms(4,5) by auto
  then show "(r(entry_addr f i := v)) (entry_addr g j) = r (entry_addr g j)"
    using entry_addr_eq[OF tbl_bound[OF assms(1) p(2)] _ tbl_bound[OF assms(1,5)] assms(6)] p(1)
    by auto
qed

text \<open>Installing an empty table at a free place of the tree.\<close>

lemma tbl_install:
  assumes root: "root < 2 ^ 40" and inj: "tables_inj r root"
    and q: "valid (i # q)" "tbl r root q = Some f" "\<not> present (r (entry_addr f i))"
    and n: "n \<notin> tables r root" "\<And>j. j < 512 \<Longrightarrow> r (entry_addr n j) = 0"
    and v: "present v" "\<not> huge v" "frame_of v = n"
    and p: "valid p"
  defines "r' \<equiv> r(entry_addr f i := v)"
  shows "tbl r' root p = (if p = i # q then Some n else tbl r root p)"
    and "clean r root p \<Longrightarrow> clean r' root p"
proof -
  have bf: "f < 2 ^ 40" using tbl_bound[OF root q(2)] .
  have bn: "n < 2 ^ 40" using frame_of_bound[of v] v(3) by simp
  have fn: "f \<noteq> n" using n(1) q by (auto simp: tables_def)
  have i: "i < 512" using q(1) by simp
  have none: "tbl r root (i # q) = None" using q by simp
  have at: "r' (entry_addr f i) = v" by (simp add: r'_def)
  have p0: "\<not> present 0" by (simp add: present_def)
  have other: "r' (entry_addr g j) = r (entry_addr g j)"
    if "tbl r root p' = Some g" "valid (j # p')" "j # p' \<noteq> i # q" for g j p'
  proof -
    have "g = f \<Longrightarrow> p' = q" using tables_injD[OF inj _ _ that(1), of q] that(2) q by simp
    then have "entry_addr g j \<noteq> entry_addr f i"
      using that entry_addr_eq[OF tbl_bound[OF root that(1)] _ bf i, of j] by auto
    then show ?thesis by (simp add: r'_def)
  qed
  have new: "r' (entry_addr n j) = 0" if "j < 512" for j
    using entry_addr_eq[OF bn that bf i] fn n(2)[OF that] by (auto simp: r'_def)
  have step: "tbl r' root p = (if p = i # q then Some n else tbl r root p)" if "valid p" for p
    using that
  proof (induction p)
    case (Cons j p)
    consider "p = i # q" | "j # p = i # q" | "p \<noteq> i # q" "j # p \<noteq> i # q" by auto
    then show ?case
    proof cases
      case 1
      then show ?thesis using Cons none new p0 by (auto simp: Let_def)
    next
      case 2
      then show ?thesis using Cons q v at by (simp add: Let_def)
    next
      case 3
      then show ?thesis using Cons other[of p _ j] by (auto split: option.splits)
    qed
  qed simp
  show "tbl r' root p = (if p = i # q then Some n else tbl r root p)" using step[OF p] .
  show "clean r root p \<Longrightarrow> clean r' root p"
    using p
  proof (induction p)
    case (Cons j p)
    then have IH: "clean r' root p" "clean r root (j # p)" and vp: "valid p" "j < 512" by auto
    consider "p = i # q" | "j # p = i # q" | "p \<noteq> i # q" "j # p \<noteq> i # q" by auto
    then show ?case
    proof cases
      case 1
      then show ?thesis using IH step[OF vp(1)] new[OF vp(2)] p0 by simp
    next
      case 2
      then show ?thesis using IH step[OF vp(1)] q v at by auto
    next
      case 3
      then show ?thesis using IH step[OF vp(1)] other[of p _ j] Cons.prems by (auto split: option.splits)
    qed
  qed simp
qed

section \<open>The invariant and extensions of the tree\<close>

abbreviation mem :: "vmm \<Rightarrow> u64 \<Rightarrow> u64" where "mem s \<equiv> ram (pm s)"

definition pml4_frame :: "vmm \<Rightarrow> nat" where "pml4_frame s = frame_of (cr3 s)"

abbreviation vtbl :: "vmm \<Rightarrow> u64 list \<Rightarrow> nat option" where "vtbl s \<equiv> tbl (mem s) (pml4_frame s)"
abbreviation vclean :: "vmm \<Rightarrow> u64 list \<Rightarrow> bool" where "vclean s \<equiv> clean (mem s) (pml4_frame s)"
abbreviation vlookup :: "vmm \<Rightarrow> u64 list \<Rightarrow> u64 option" where "vlookup s \<equiv> lookup (mem s) (pml4_frame s)"
abbreviation vtables :: "vmm \<Rightarrow> nat set" where "vtables s \<equiv> tables (mem s) (pml4_frame s)"
abbreviation vfree :: "vmm \<Rightarrow> nat set" where "vfree s \<equiv> free_frames (pm s)"
abbreviation tptr :: "vmm \<Rightarrow> nat \<Rightarrow> u64" where "tptr s f \<equiv> vmm_phys_to_virt s (of_nat f * 4096)"

definition vm_wf :: "vmm \<Rightarrow> bool" where
  "vm_wf s \<longleftrightarrow> pmm_wf (pm s) \<and> voff s = hhdm_offset (pm s) \<and> unat (max_page_index (pm s)) \<le> 2 ^ 40 \<and>
     tables_inj (mem s) (pml4_frame s) \<and> vtables s \<inter> vfree s = {}"

definition page_path :: "u64 list \<Rightarrow> bool" where
  "page_path p \<longleftrightarrow> (\<exists>i q. p = i # q \<and> i < 512 \<and> valid q \<and> length q = 3)"

text \<open>
  \<open>vm_ext s s'\<close>: the tree of \<open>s'\<close> extends that of \<open>s\<close> by empty tables. No mapping, no memory of a
  data frame and no reference count of a frame in use has changed.
\<close>

definition vm_ext :: "vmm \<Rightarrow> vmm \<Rightarrow> bool" where
  "vm_ext s s' \<longleftrightarrow> vm_wf s' \<and> cr3 s' = cr3 s \<and> voff s' = voff s \<and> flushes s' = flushes s \<and>
     max_page_index (pm s') = max_page_index (pm s) \<and>
     vfree s' \<subseteq> vfree s \<and> vtables s \<subseteq> vtables s' \<and> vtables s' \<subseteq> vtables s \<union> vfree s \<and>
     (\<forall>p. page_path p \<longrightarrow> vlookup s' p = vlookup s p) \<and>
     (\<forall>p. valid p \<longrightarrow> vclean s p \<longrightarrow> vclean s' p) \<and>
     (\<forall>x. unat x div 4096 \<notin> vfree s \<longrightarrow> unat x div 4096 \<notin> vtables s \<longrightarrow> mem s' x = mem s x) \<and>
     (\<forall>f. f \<notin> vfree s \<longrightarrow> page_refcount (pm s') f = page_refcount (pm s) f)"

lemma vm_ext_refl: "vm_wf s \<Longrightarrow> vm_ext s s"
  by (simp add: vm_ext_def)

lemma vm_ext_regs:
  assumes "vm_ext s s'"
  shows "vm_wf s'" "cr3 s' = cr3 s" "voff s' = voff s" "flushes s' = flushes s"
    "max_page_index (pm s') = max_page_index (pm s)" "pml4_frame s' = pml4_frame s"
    "tptr s' = tptr s"
  using assms by (auto simp: vm_ext_def pml4_frame_def vmm_phys_to_virt_def fun_eq_iff)

lemma vm_ext_sets:
  assumes "vm_ext s s'"
  shows "vfree s' \<subseteq> vfree s" "vtables s \<subseteq> vtables s'" "vtables s' \<subseteq> vtables s \<union> vfree s"
  using assms unfolding vm_ext_def by blast+

lemma vm_ext_lookup: "vm_ext s s' \<Longrightarrow> page_path p \<Longrightarrow> vlookup s' p = vlookup s p"
  unfolding vm_ext_def by blast

lemma vm_ext_clean: "vm_ext s s' \<Longrightarrow> valid p \<Longrightarrow> vclean s p \<Longrightarrow> vclean s' p"
  unfolding vm_ext_def by blast

lemma vm_ext_mem:
  "vm_ext s s' \<Longrightarrow> unat x div 4096 \<notin> vfree s \<Longrightarrow> unat x div 4096 \<notin> vtables s \<Longrightarrow> mem s' x = mem s x"
  unfolding vm_ext_def by blast

lemma vm_ext_refcount:
  "vm_ext s s' \<Longrightarrow> f \<notin> vfree s \<Longrightarrow> page_refcount (pm s') f = page_refcount (pm s) f"
  unfolding vm_ext_def by blast

lemma vm_ext_trans:
  assumes st: "vm_ext s t" and tu: "vm_ext t u"
  shows "vm_ext s u"
proof -
  have "mem u x = mem s x" if x: "unat x div 4096 \<notin> vfree s" "unat x div 4096 \<notin> vtables s" for x
  proof -
    have "unat x div 4096 \<notin> vfree t" "unat x div 4096 \<notin> vtables t"
      using vm_ext_sets[OF st] x by blast+
    from vm_ext_mem[OF tu this] vm_ext_mem[OF st x] show ?thesis by (rule trans)
  qed
  moreover have "page_refcount (pm u) f = page_refcount (pm s) f" if f: "f \<notin> vfree s" for f
  proof -
    have "f \<notin> vfree t" using vm_ext_sets[OF st] f by blast
    from vm_ext_refcount[OF tu this] vm_ext_refcount[OF st f] show ?thesis by (rule trans)
  qed
  moreover have "vfree u \<subseteq> vfree s" "vtables s \<subseteq> vtables u" "vtables u \<subseteq> vtables s \<union> vfree s"
    using vm_ext_sets[OF st] vm_ext_sets[OF tu] by blast+
  moreover have "vlookup u p = vlookup s p" if "page_path p" for p
    using vm_ext_lookup[OF st that] vm_ext_lookup[OF tu that] by simp
  moreover have "vclean u p" if "valid p" "vclean s p" for p
    using vm_ext_clean[OF tu that(1) vm_ext_clean[OF st that]] .
  moreover have "vm_wf u" "cr3 u = cr3 s" "voff u = voff s" "flushes u = flushes s"
    "max_page_index (pm u) = max_page_index (pm s)"
    using vm_ext_regs[OF st] vm_ext_regs[OF tu] by simp_all
  ultimately show ?thesis unfolding vm_ext_def by blast
qed

lemma pml4_frame_bound [simp]: "pml4_frame s < 2 ^ 40"
  unfolding pml4_frame_def by (rule frame_of_bound)

lemma get_current_pml4_tptr: "get_current_pml4 s = tptr s (pml4_frame s)"
  by (simp add: get_current_pml4_def pml4_frame_def frame_of_addr)

lemma tbl_rd_tptr [simp]: "tbl_rd (Some (tptr s f)) i s = Some (mem s (entry_addr f i))"
  by (simp add: tbl_rd_def vmm_phys_to_virt_def entry_addr_def)

lemma table_entry:
  assumes "n < 2 ^ 40"
  defines "v \<equiv> (of_nat n * 4096 OR PAGE_PRESENT OR PAGE_WRITABLE OR PAGE_USER) :: u64"
  shows "present v" "\<not> huge v" "frame_of v = n"
proof -
  have "take_bit 40 (of_nat n :: u64) = of_nat n"
    using assms(1) by (simp add: take_bit_of_nat take_bit_nat_eq_self)
  note tb = this
  have v: "v = push_bit 12 (of_nat n) OR 7"
    by (simp add: v_def PAGE_PRESENT_def PAGE_WRITABLE_def PAGE_USER_def push_bit_eq_mult or.assoc)
  have m3: "(7 :: u64) = mask 3" by (simp add: mask_eq_exp_minus_1)
  have b7: "bit (7 :: u64) k \<longleftrightarrow> k < 3" for k unfolding m3 by (auto simp: bit_mask_iff)
  have "bit v 0" using b7 by (simp add: v bit_simps)
  then show "present v" using and_exp_eq_0_iff_not_bit[of v 0] by (simp add: present_def PAGE_PRESENT_def)
  have "\<not> bit v 7" using b7 by (simp add: v bit_simps)
  then show "\<not> huge v"
    using and_exp_eq_0_iff_not_bit[of v 7] by (simp add: huge_def PAGE_HUGE_def)
  have "drop_bit 12 v = take_bit 52 (of_nat n)"
    by (rule bit_word_eqI) (simp add: v bit_simps b7)
  then have "v AND ADDR_MASK = push_bit 12 (take_bit 40 (of_nat n))"
    unfolding addr_mask_bits by simp
  then have "v AND ADDR_MASK = of_nat n * 4096"
    unfolding tb by (simp add: push_bit_eq_mult)
  then show "frame_of v = n"
    using frame_address[of n] assms(1) by (simp add: frame_of_def)
qed

text \<open>The effect of installing a freshly allocated frame as a table, on the memory alone.\<close>

lemma install_effect:
  fixes r :: "u64 \<Rightarrow> u64"
  assumes root: "root < 2 ^ 40" and inj: "tables_inj r root" and nb: "n < 2 ^ 40" "n \<notin> tables r root"
    and q: "valid (i # q)" "tbl r root q = Some f" "\<not> present (r (entry_addr f i))"
  defines "r1 \<equiv> \<lambda>x. if n * 4096 \<le> unat x \<and> unat x < n * 4096 + 4096 then 0 else r x"
  defines "r' \<equiv> r1(entry_addr f i := of_nat n * 4096 OR PAGE_PRESENT OR PAGE_WRITABLE OR PAGE_USER)"
  shows "tables_inj r' root" "tables r' root = insert n (tables r root)"
    "tbl r' root (i # q) = Some n"
    "page_path p \<Longrightarrow> lookup r' root p = lookup r root p"
    "valid c \<Longrightarrow> clean r root c \<Longrightarrow> clean r' root c"
    "unat x div 4096 \<noteq> n \<Longrightarrow> unat x div 4096 \<notin> tables r root \<Longrightarrow> r' x = r x"
proof -
  have r1: "r1 x = r x" if "unat x div 4096 \<noteq> n" for x
    using that by (auto simp: r1_def)
  have same: "same_tables r r1 root"
    by (rule same_tables_outside[OF root], rule r1) (use nb(2) in auto)
  have fb: "f < 2 ^ 40" using tbl_bound[OF root q(2)] .
  have ft: "f \<in> tables r root" using q by (auto simp: tables_def)
  have i: "i < 512" and vq: "valid q" using q(1) by auto
  have inj1: "tables_inj r1 root" using inj tables_inj_cong[OF same] by simp
  have q1: "tbl r1 root q = Some f" using q(2) tbl_cong[OF same vq] by simp
  have np1: "\<not> present (r1 (entry_addr f i))"
  proof -
    have "f \<noteq> n" using ft nb(2) by blast
    then show ?thesis using q(3) r1[of "entry_addr f i"] entry_addr_frame[OF fb i] by simp
  qed
  have n1: "n \<notin> tables r1 root" using nb(2) tables_cong[OF same] by simp
  have z1: "r1 (entry_addr n j) = 0" if "j < 512" for j
    using unat_entry_addr[OF nb(1) that] that by (simp add: r1_def word_less_nat_alt)
  note inst = tbl_install[OF root inj1 q(1) q1 np1 n1 z1 table_entry[OF nb(1)], folded r'_def]
  have t: "tbl r' root p = (if p = i # q then Some n else tbl r root p)" if "valid p" for p
    using inst(1)[OF _ that] tbl_cong[OF same that] by simp
  have none: "tbl r root (i # q) = None" using q by simp
  have outn: "tbl r root p \<noteq> Some n" if "valid p" for p
    using nb(2) that by (auto simp: tables_def)
  show "tables_inj r' root"
    unfolding tables_inj_def
  proof (intro allI impI)
    fix p p' g
    assume "valid p" "valid p'" "tbl r' root p = Some g" "tbl r' root p' = Some g"
    then show "p = p'" using t outn tables_injD[OF inj] by (auto split: if_splits)
  qed
  show "tables r' root = insert n (tables r root)"
  proof (intro equalityI subsetI)
    fix g assume "g \<in> tables r' root"
    then obtain p where "valid p" "tbl r' root p = Some g" by (auto simp: tables_def)
    then show "g \<in> insert n (tables r root)" using t by (auto simp: tables_def split: if_splits)
  next
    fix g assume "g \<in> insert n (tables r root)"
    then consider "g = n" | p where "valid p" "tbl r root p = Some g" by (auto simp: tables_def)
    then show "g \<in> tables r' root"
    proof cases
      case 1
      moreover have "tbl r' root (i # q) = Some n" using t[OF q(1)] by (simp only: simp_thms if_True)
      ultimately show ?thesis using q(1) unfolding tables_def by blast
    next
      case 2
      then have "p \<noteq> i # q" using none by auto
      then show ?thesis using t[OF 2(1)] 2 unfolding tables_def by auto
    qed
  qed
  show "tbl r' root (i # q) = Some n" using t[OF q(1)] by simp
  show "valid c \<Longrightarrow> clean r root c \<Longrightarrow> clean r' root c"
    using inst(2) clean_cong[OF same] by blast
  have r': "r' (entry_addr g j) = r (entry_addr g j)"
    if "g < 2 ^ 40" "j < 512" "g \<noteq> n" "g \<noteq> f \<or> j \<noteq> i" for g j
    using entry_addr_eq[OF that(1,2) fb i] that entry_addr_frame[OF that(1,2)] r1[of "entry_addr g j"]
    by (auto simp: r'_def)
  show "unat x div 4096 \<noteq> n \<Longrightarrow> unat x div 4096 \<notin> tables r root \<Longrightarrow> r' x = r x"
    using r1[of x] entry_addr_frame[OF fb i] ft by (auto simp: r'_def)
  show "lookup r' root p = lookup r root p" if pp: "page_path p"
  proof -
    obtain j w where w: "p = j # w" "j < 512" "valid w" "length w = 3"
      using pp by (auto simp: page_path_def)
    show ?thesis
    proof (cases "w = i # q")
      case True
      have "r' (entry_addr n j) = 0"
        using entry_addr_eq[OF nb(1) w(2) fb i] z1[OF w(2)] ft nb(2) by (auto simp: r'_def)
      then show ?thesis using w True t[OF w(3)] none
        by (simp add: lookup_def leaf_def present_def)
    next
      case False
      then have tw: "tbl r' root w = tbl r root w" using t[OF w(3)] by simp
      have "r' (entry_addr g j) = r (entry_addr g j)" if g: "tbl r root w = Some g" for g
      proof (rule r')
        show "g < 2 ^ 40" using tbl_bound[OF root g] .
        show "g \<noteq> n" using outn[OF w(3)] g by auto
        have "g \<noteq> f" using tables_injD[OF inj w(3) vq g] q(1,2) w(4) by auto
        then show "g \<noteq> f \<or> j \<noteq> i" ..
      qed (fact w(2))
      then show ?thesis using w(1) tw by (cases "tbl r root w") (simp_all add: lookup_def)
    qed
  qed
qed

section \<open>The walk\<close>

lemma next_level_existing:
  assumes "vtbl s q = Some f" "vclean s (i # q)"
    "present (mem s (entry_addr f i)) \<or> \<not> create"
  shows "vmm_get_next_level (Some (tptr s f)) i create s =
    Some (map_option (tptr s) (vtbl s (i # q)), s)"
  using assms
  by (auto simp: vmm_get_next_level_def present_def frame_of_addr split: option.splits)

lemma next_level_create:
  assumes wf: "vm_wf s" and q: "valid (i # q)" "vtbl s q = Some f"
    and np: "\<not> present (mem s (entry_addr f i))" and ne: "vfree s \<noteq> {}"
  shows "\<exists>s' n. vmm_get_next_level (Some (tptr s f)) i True s = Some (Some (tptr s' n), s') \<and>
     vm_ext s s' \<and> vtbl s' (i # q) = Some n \<and> card (vfree s) = Suc (card (vfree s'))"
proof -
  have pwf: "pmm_wf (pm s)" and off: "voff s = hhdm_offset (pm s)"
    and mx: "unat (max_page_index (pm s)) \<le> 2 ^ 40" and inj: "tables_inj (mem s) (pml4_frame s)"
    and disj: "vtables s \<inter> vfree s = {}" using wf by (auto simp: vm_wf_def)
  define n where "n = Min (vfree s)"
  have nin: "n \<in> vfree s" using ne by (simp add: n_def)
  have nb: "n < 2 ^ 40" "n \<notin> vtables s"
    using free_frames_less[OF nin] mx disj nin by auto
  from pmm_alloc_page_full[OF pwf ne, folded n_def] obtain p1 where
    al: "pmm_alloc_page (pm s) = Some (of_nat n * 4096, p1)" and
    p1: "pmm_wf p1" "free_frames p1 = vfree s - {n}" "max_page_index p1 = max_page_index (pm s)"
      "hhdm_offset p1 = hhdm_offset (pm s)"
      "page_refcount p1 = (page_refcount (pm s))(n := if n < MAX_PAGES then 1 else page_refcount (pm s) n)"
      "ram p1 = (\<lambda>x. if n * 4096 \<le> unat x \<and> unat x < n * 4096 + 4096 then 0 else mem s x)"
    by blast
  have nz: "of_nat n * 4096 \<noteq> (0 :: u64)" using fa.alloc_zero_iff[OF pwf al] ne by simp
  let ?v = "of_nat n * 4096 OR PAGE_PRESENT OR PAGE_WRITABLE OR PAGE_USER :: u64"
  define p2 where "p2 = p1\<lparr>ram := (ram p1)(entry_addr f i := ?v)\<rparr>"
  define s' where "s' = s\<lparr>pm := p2\<rparr>"
  have un: "unat (of_nat n * 4096 :: u64) = n * 4096" using nb(1) by (simp add: frame_address)
  have "hhdm_zero p1 (of_nat n * 4096 + voff s) 4096 = p1"
    using hhdm_zero_phys[of p1 "of_nat n * 4096" 4096] off p1(4,6) un
    by (auto simp: phys_to_virt_def intro!: pmm.equality)
  then have call: "vmm_get_next_level (Some (tptr s f)) i True s = Some (Some (tptr s' n), s')"
    using np nz al
    by (simp add: vmm_get_next_level_def vmm_alloc_page_def present_def tbl_wr_def tbl_rd_def
        vmm_phys_to_virt_def entry_addr_def s'_def p2_def Let_def)
  have r': "mem s' = (\<lambda>x. if n * 4096 \<le> unat x \<and> unat x < n * 4096 + 4096 then 0 else mem s x)
      (entry_addr f i := ?v)" by (simp add: s'_def p2_def p1(6))
  have root': "pml4_frame s' = pml4_frame s" by (simp add: s'_def pml4_frame_def)
  note eff = install_effect[OF pml4_frame_bound inj nb q np, folded r']
  have fr': "vfree s' = vfree s - {n}" by (simp add: s'_def p2_def p1(2))
  have wf': "vm_wf s'"
    unfolding vm_wf_def root' eff(2) fr' using eff(1) disj p1(1,3,4) off mx
    by (auto simp: s'_def p2_def)
  have regs: "cr3 s' = cr3 s" "voff s' = voff s" "flushes s' = flushes s"
    "max_page_index (pm s') = max_page_index (pm s)" by (simp_all add: s'_def p2_def p1(3))
  have mem': "mem s' x = mem s x" if "unat x div 4096 \<notin> vfree s" "unat x div 4096 \<notin> vtables s" for x
  proof -
    have "unat x div 4096 \<noteq> n" using that(1) nin by blast
    then show ?thesis using eff(6)[of x] that(2) by blast
  qed
  have refc: "page_refcount (pm s') g = page_refcount (pm s) g" if "g \<notin> vfree s" for g
  proof -
    have "g \<noteq> n" using that nin by blast
    then show ?thesis by (simp add: s'_def p2_def p1(5))
  qed
  have "vm_ext s s'"
    unfolding vm_ext_def root' eff(2) fr'
    using wf' regs eff(4,5) mem' refc nin by blast
  moreover have "card (vfree s) = Suc (card (vfree s'))"
    using card.remove[OF finite_free_frames nin] by (simp add: fr')
  ultimately show ?thesis using call eff(3) root' by auto
qed

lemma next_level_step:
  assumes wf: "vm_wf s" and q: "valid (i # q)" "vtbl s q = Some f" "vclean s (i # q)"
  shows "\<exists>t s'. vmm_get_next_level (Some (tptr s f)) i True s = Some (t, s') \<and> vm_ext s s' \<and>
     t = map_option (tptr s') (vtbl s' (i # q)) \<and> (t = None \<longrightarrow> vfree s' = {}) \<and>
     card (vfree s) \<le> card (vfree s') + (if t = None then 0 else 1)"
proof -
  consider "present (mem s (entry_addr f i))" | "\<not> present (mem s (entry_addr f i))" "vfree s = {}"
    | "\<not> present (mem s (entry_addr f i))" "vfree s \<noteq> {}" by blast
  then show ?thesis
  proof cases
    case 1
    with next_level_existing[OF q(2,3)] show ?thesis
      using vm_ext_refl[OF wf] q by (auto simp: Let_def)
  next
    case 2
    then have "vmm_get_next_level (Some (tptr s f)) i True s = Some (None, s)"
      using pmm_alloc_page_none[of "pm s"] wf
      by (simp add: vmm_get_next_level_def present_def vmm_alloc_page_def vm_wf_def)
    with 2 show ?thesis using vm_ext_refl[OF wf] q by auto
  next
    case 3
    from next_level_create[OF wf q(1,2) this] obtain s' n where
      "vmm_get_next_level (Some (tptr s f)) i True s = Some (Some (tptr s' n), s')" "vm_ext s s'"
      "vtbl s' (i # q) = Some n" "card (vfree s) = Suc (card (vfree s'))" by blast
    then show ?thesis by (intro exI[of _ "Some (tptr s' n)"] exI[of _ s']) (simp del: tbl.simps)
  qed
qed

definition table_path :: "u64 \<Rightarrow> u64 list" where
  "table_path v = [PD_INDEX v, PDPT_INDEX v, PML4_INDEX v]"

definition entry_path :: "u64 \<Rightarrow> u64 list" where
  "entry_path v = PT_INDEX v # table_path v"

lemma index_bound [simp]:
  "PML4_INDEX v < 512" "PDPT_INDEX v < 512" "PD_INDEX v < 512" "PT_INDEX v < 512"
proof -
  have "x AND 511 < 512" for x :: u64
    using word_and_le1[of x 511] by (simp add: word_le_nat_alt word_less_nat_alt)
  then show "PML4_INDEX v < 512" "PDPT_INDEX v < 512" "PD_INDEX v < 512" "PT_INDEX v < 512"
    by (simp_all add: PML4_INDEX_def PDPT_INDEX_def PD_INDEX_def PT_INDEX_def)
qed

lemma valid_table_path [simp]: "valid (table_path v)" "length (table_path v) = 3"
  by (simp_all add: table_path_def)

lemma page_path_entry_path [simp]: "page_path (entry_path v)"
  by (simp add: entry_path_def page_path_def)

lemma walk_lookup:
  assumes "vclean s (table_path v)"
  shows "vmm_walk v False s = Some (map_option (tptr s) (vtbl s (table_path v)), s)"
proof -
  let ?a = "[PML4_INDEX v]" and ?b = "[PDPT_INDEX v, PML4_INDEX v]"
  have c: "vclean s ?a" "vclean s ?b" "vclean s (PD_INDEX v # ?b)"
    using assms by (simp_all add: table_path_def)
  have "vmm_get_next_level (Some (get_current_pml4 s)) (PML4_INDEX v) False s =
      Some (map_option (tptr s) (vtbl s ?a), s)"
    unfolding get_current_pml4_tptr using c(1) by (intro next_level_existing) simp_all
  moreover have "vmm_get_next_level (Some (tptr s f)) (PDPT_INDEX v) False s =
      Some (map_option (tptr s) (vtbl s ?b), s)" if "vtbl s ?a = Some f" for f
    using next_level_existing[OF that c(2), of False] by simp
  moreover have "vmm_get_next_level (Some (tptr s g)) (PD_INDEX v) False s =
      Some (map_option (tptr s) (vtbl s (PD_INDEX v # ?b)), s)" if "vtbl s ?b = Some g" for g
    using next_level_existing[OF that c(3), of False] by simp
  ultimately show ?thesis
    unfolding vmm_walk_def table_path_def
    by (cases "vtbl s ?a"; cases "vtbl s ?b") (auto simp del: tbl.simps simp: tbl.simps(2)[of _ _ _ ?a]
        tbl.simps(2)[of _ _ _ ?b])
qed

lemma walk_create:
  assumes wf: "vm_wf s" and cl: "vclean s (table_path v)"
  shows "\<exists>t s'. vmm_walk v True s = Some (t, s') \<and> vm_ext s s' \<and>
     t = map_option (tptr s') (vtbl s' (table_path v)) \<and> (t = None \<longrightarrow> vfree s' = {}) \<and>
     card (vfree s) \<le> card (vfree s') + (if t = None then 2 else 3)"
proof -
  let ?a = "[PML4_INDEX v]" and ?b = "[PDPT_INDEX v, PML4_INDEX v]"
  have c: "vclean s ?a" "vclean s ?b" "vclean s (PD_INDEX v # ?b)"
    using cl by (simp_all add: table_path_def)
  have v: "valid ?a" "valid ?b" "valid (PD_INDEX v # ?b)" by simp_all
  from next_level_step[OF wf v(1) _ c(1)] obtain t1 s1 where
    1: "vmm_get_next_level (Some (get_current_pml4 s)) (PML4_INDEX v) True s = Some (t1, s1)"
      "vm_ext s s1" "t1 = map_option (tptr s1) (vtbl s1 ?a)" "t1 = None \<longrightarrow> vfree s1 = {}"
      "card (vfree s) \<le> card (vfree s1) + (if t1 = None then 0 else 1)"
    unfolding get_current_pml4_tptr by auto
  show ?thesis
  proof (cases "vtbl s1 ?a")
    case None
    then show ?thesis using 1 by (intro exI[of _ None] exI[of _ s1])
      (simp add: vmm_walk_def table_path_def del: tbl.simps, simp)
  next
    case (Some f)
    from next_level_step[OF vm_ext_regs(1)[OF 1(2)] v(2) Some vm_ext_clean[OF 1(2) v(2) c(2)]]
    obtain t2 s2 where
      2: "vmm_get_next_level (Some (tptr s1 f)) (PDPT_INDEX v) True s1 = Some (t2, s2)"
        "vm_ext s1 s2" "t2 = map_option (tptr s2) (vtbl s2 ?b)" "t2 = None \<longrightarrow> vfree s2 = {}"
        "card (vfree s1) \<le> card (vfree s2) + (if t2 = None then 0 else 1)" by (elim exE conjE)
    have e2: "vm_ext s s2" using vm_ext_trans[OF 1(2) 2(2)] .
    have w2: "vmm_walk v True s = (if t2 = None then Some (None, s2)
        else vmm_get_next_level t2 (PD_INDEX v) True s2)"
      using 1(1,3) 2(1) Some by (simp add: vmm_walk_def del: tbl.simps)
    show ?thesis
    proof (cases "vtbl s2 ?b")
      case None
      moreover have "card (vfree s) \<le> 2" using None 1(5) 2(3-5) by (auto split: if_splits)
      ultimately show ?thesis using w2 e2 2(3,4) by (intro exI[of _ None] exI[of _ s2])
        (simp add: table_path_def del: tbl.simps, simp)
    next
      case (Some g)
      from next_level_step[OF vm_ext_regs(1)[OF e2] v(3) Some vm_ext_clean[OF e2 v(3) c(3)]]
      obtain t3 s3 where
        3: "vmm_get_next_level (Some (tptr s2 g)) (PD_INDEX v) True s2 = Some (t3, s3)"
          "vm_ext s2 s3" "t3 = map_option (tptr s3) (vtbl s3 (PD_INDEX v # ?b))"
          "t3 = None \<longrightarrow> vfree s3 = {}" "card (vfree s2) \<le> card (vfree s3) + (if t3 = None then 0 else 1)" by (elim exE conjE)
      have "vmm_walk v True s = Some (t3, s3)"
        using w2 2(3) Some 3(1) by (simp del: tbl.simps)
      moreover have "card (vfree s) \<le> card (vfree s3) + (if t3 = None then 2 else 3)"
        using 1(5) 2(5) 3(5) by (auto split: if_splits)
      ultimately show ?thesis using vm_ext_trans[OF e2 3(2)] 3(3,4)
        by (intro exI[of _ t3] exI[of _ s3]) (simp add: table_path_def del: tbl.simps)
    qed
  qed
qed

text \<open>\<open>vmm_get_phys\<close> returns what the tables map.\<close>

definition phys_of :: "u64 option \<Rightarrow> u64 \<Rightarrow> u64" where
  "phys_of e v = (case e of None \<Rightarrow> 0 | Some e \<Rightarrow> e AND ADDR_MASK OR (v AND 0xFFF))"

lemma get_phys_lookup:
  assumes "vclean s (table_path v)"
  shows "vmm_get_phys v s = Some (phys_of (vlookup s (entry_path v)) v)"
  using walk_lookup[OF assms]
  by (cases "vtbl s (table_path v)")
     (simp_all add: vmm_get_phys_def lookup_def entry_path_def leaf_def present_def phys_of_def)

text \<open>Writing a leaf entry changes the mapping of one page and nothing else.\<close>

lemma leaf_write:
  fixes e :: u64
  assumes wf: "vm_wf s" and f: "vtbl s (table_path v) = Some f"
  defines "s' \<equiv> s\<lparr>pm := (pm s)\<lparr>ram := (mem s)(entry_addr f (PT_INDEX v) := e)\<rparr>\<rparr>"
  shows "vm_wf s'" "pml4_frame s' = pml4_frame s" "vtables s' = vtables s" "vfree s' = vfree s"
    "valid p \<Longrightarrow> vclean s' p = vclean s p"
    "page_path q \<Longrightarrow> vlookup s' q = (if q = entry_path v then leaf e else vlookup s q)"
    "unat x div 4096 \<notin> vtables s \<Longrightarrow> mem s' x = mem s x"
proof -
  have inj: "tables_inj (mem s) (pml4_frame s)" using wf by (simp add: vm_wf_def)
  have same: "same_tables (mem s) (mem s') (pml4_frame s)"
    using same_tables_leaf[OF pml4_frame_bound inj _ _ f] by (simp add: s'_def)
  show root': "pml4_frame s' = pml4_frame s" by (simp add: s'_def pml4_frame_def)
  show tb: "vtables s' = vtables s" unfolding root' by (rule tables_cong[OF same])
  show "vfree s' = vfree s" by (simp add: s'_def)
  show "valid p \<Longrightarrow> vclean s' p = vclean s p" unfolding root' by (rule clean_cong[OF same])
  have "tables_inj (mem s') (pml4_frame s')"
    unfolding root' using tables_inj_cong[OF same] inj by simp
  then show "vm_wf s'" using wf unfolding vm_wf_def tb by (simp add: s'_def)
  have fb: "f < 2 ^ 40" using tbl_bound[OF pml4_frame_bound f] .
  have "f \<in> vtables s" using f valid_table_path unfolding tables_def by blast
  then show "unat x div 4096 \<notin> vtables s \<Longrightarrow> mem s' x = mem s x"
    using entry_addr_frame[OF fb index_bound(4), of v] by (auto simp: s'_def)
  show "vlookup s' q = (if q = entry_path v then leaf e else vlookup s q)" if pp: "page_path q"
  proof -
    obtain j w where w: "q = j # w" "j < 512" "valid w" "length w = 3"
      using pp by (auto simp: page_path_def)
    have tw: "vtbl s' w = vtbl s w" unfolding root' by (rule tbl_cong[OF same w(3)])
    show ?thesis
    proof (cases "vtbl s w")
      case None
      then have "q \<noteq> entry_path v" using f w(1) by (auto simp: entry_path_def)
      then show ?thesis using w(1) None tw by (simp add: lookup_def)
    next
      case (Some g)
      have "g = f \<longleftrightarrow> w = table_path v"
      proof
        assume "g = f"
        with Some f show "w = table_path v" by (intro tables_injD[OF inj w(3) valid_table_path(1)]) simp_all
      next
        assume "w = table_path v"
        with Some f show "g = f" by simp
      qed
      then have "entry_addr g j = entry_addr f (PT_INDEX v) \<longleftrightarrow> q = entry_path v"
        using entry_addr_eq[OF tbl_bound[OF pml4_frame_bound Some] w(2) fb index_bound(4)]
        by (auto simp: entry_path_def w(1))
      moreover have "vlookup s' q = leaf (mem s' (entry_addr g j))" "vlookup s q = leaf (mem s (entry_addr g j))"
        using Some tw by (simp_all add: lookup_def w(1))
      ultimately show ?thesis by (simp add: s'_def)
    qed
  qed
qed

section \<open>Mapping and unmapping\<close>

lemma leaf_map_entry:
  assumes "flags AND ADDR_MASK = 0"
  shows "phys_of (leaf (phys AND ADDR_MASK OR flags)) v =
    (if present flags then phys AND ADDR_MASK OR (v AND 0xFFF) else 0)"
proof -
  have "ADDR_MASK AND PAGE_PRESENT = 0" by (simp add: ADDR_MASK_def PAGE_PRESENT_def)
  then have "(phys AND ADDR_MASK OR flags) AND PAGE_PRESENT = flags AND PAGE_PRESENT"
    by (simp add: and.assoc bit.conj_disj_distrib2)
  moreover have "(phys AND ADDR_MASK OR flags) AND ADDR_MASK = phys AND ADDR_MASK"
    using assms by (simp add: bit.conj_disj_distrib2)
  ultimately show ?thesis by (simp add: phys_of_def leaf_def present_def)
qed

lemma tbl_wr_tptr:
  "tbl_wr (Some (tptr s f)) i e s = Some (s\<lparr>pm := (pm s)\<lparr>ram := (mem s)(entry_addr f i := e)\<rparr>\<rparr>)"
  by (simp add: tbl_wr_def vmm_phys_to_virt_def entry_addr_def)

lemma flushes_irrelevant [simp]:
  "vm_wf (s\<lparr>flushes := x\<rparr>) = vm_wf s" "pml4_frame (s\<lparr>flushes := x\<rparr>) = pml4_frame s"
  by (simp_all add: vm_wf_def pml4_frame_def)

lemma get_phys_flushes [simp]: "vmm_get_phys v (s\<lparr>flushes := x\<rparr>) = vmm_get_phys v s"
  by (simp add: vmm_get_phys_def vmm_walk_def vmm_get_next_level_def tbl_rd_def get_current_pml4_def
      vmm_phys_to_virt_def split: bind_splits)

text \<open>The mapping operations in terms of the leaf entries.\<close>

lemma map_page_lookup:
  assumes wf: "vm_wf s" and cl: "vclean s (table_path virt)"
  shows "\<exists>s'. vmm_map_page virt phys flags s = Some s' \<and> vm_wf s' \<and> cr3 s' = cr3 s \<and>
    (\<forall>p. valid p \<longrightarrow> vclean s p \<longrightarrow> vclean s' p) \<and>
    ((\<forall>q. page_path q \<longrightarrow> vlookup s' q =
        (if q = entry_path virt then leaf (phys AND ADDR_MASK OR flags) else vlookup s q)) \<and>
       flushes s' = Invlpg virt # flushes s
     \<or> (\<forall>q. page_path q \<longrightarrow> vlookup s' q = vlookup s q) \<and> flushes s' = flushes s \<and>
       vfree s' = {} \<and> card (vfree s) < 3)"
proof -
  from walk_create[OF wf cl] obtain t s1 where
    w: "vmm_walk virt True s = Some (t, s1)" "vm_ext s s1"
      "t = map_option (tptr s1) (vtbl s1 (table_path virt))" "t = None \<longrightarrow> vfree s1 = {}"
      "card (vfree s) \<le> card (vfree s1) + (if t = None then 2 else 3)" by (elim exE conjE)
  have wf1: "vm_wf s1" using vm_ext_regs(1)[OF w(2)] .
  show ?thesis
  proof (cases "vtbl s1 (table_path virt)")
    case None
    then have "vmm_map_page virt phys flags s = Some s1" using w(1,3) by (simp add: vmm_map_page_def)
    then show ?thesis
      using wf1 w vm_ext_regs[OF w(2)] vm_ext_lookup[OF w(2)] vm_ext_clean[OF w(2)] None by auto
  next
    case (Some f)
    define s2 where "s2 = s1\<lparr>pm := (pm s1)\<lparr>ram := (mem s1)(entry_addr f (PT_INDEX virt) :=
        phys AND ADDR_MASK OR flags)\<rparr>\<rparr>"
    have call: "vmm_map_page virt phys flags s = Some (invlpg virt s2)"
      using w(1,3) Some by (simp add: vmm_map_page_def tbl_wr_tptr s2_def)
    note lw = leaf_write[OF wf1 Some, where e = "phys AND ADDR_MASK OR flags", folded s2_def]
    have "vlookup s2 q = (if q = entry_path virt then leaf (phys AND ADDR_MASK OR flags) else vlookup s q)"
      if "page_path q" for q
      using lw(6)[OF that] vm_ext_lookup[OF w(2) that] by simp
    moreover have "vclean s2 p" if "valid p" "vclean s p" for p
      using lw(5)[OF that(1)] vm_ext_clean[OF w(2) that] by simp
    moreover have "flushes s2 = flushes s" "cr3 s2 = cr3 s"
      using vm_ext_regs[OF w(2)] by (simp_all add: s2_def)
    ultimately show ?thesis using call lw(1) by (intro exI[of _ "invlpg virt s2"]) (simp add: invlpg_def)
  qed
qed

lemma unmap_page_lookup:
  assumes wf: "vm_wf s" and cl: "vclean s (table_path virt)"
  shows "\<exists>s'. vmm_unmap_page virt s = Some s' \<and> vm_wf s' \<and> cr3 s' = cr3 s \<and> vfree s' = vfree s \<and>
    (\<forall>p. valid p \<longrightarrow> vclean s' p = vclean s p) \<and>
    (\<forall>q. page_path q \<longrightarrow> vlookup s' q = (if q = entry_path virt then None else vlookup s q))"
proof (cases "vtbl s (table_path virt)")
  case None
  then have "vmm_unmap_page virt s = Some s" using walk_lookup[OF cl] by (simp add: vmm_unmap_page_def)
  moreover have "vlookup s (entry_path virt) = None" using None by (simp add: lookup_def entry_path_def)
  ultimately show ?thesis using wf by auto
next
  case (Some f)
  define s2 where "s2 = s\<lparr>pm := (pm s)\<lparr>ram := (mem s)(entry_addr f (PT_INDEX virt) := 0)\<rparr>\<rparr>"
  have call: "vmm_unmap_page virt s = Some (invlpg virt s2)"
    using walk_lookup[OF cl] Some by (simp add: vmm_unmap_page_def tbl_wr_tptr s2_def)
  note lw = leaf_write[OF wf Some, where e = 0, folded s2_def]
  have "leaf 0 = None" by (simp add: leaf_def present_def)
  then have "vlookup s2 q = (if q = entry_path virt then None else vlookup s q)" if "page_path q" for q
    using lw(6)[OF that] by simp
  moreover have "cr3 s2 = cr3 s" by (simp add: s2_def)
  ultimately show ?thesis using call lw(1,4,5)
    by (intro exI[of _ "invlpg virt s2"]) (simp add: invlpg_def)
qed

section \<open>A new address space\<close>

text \<open>The tree of a PML4 whose upper half is that of another one and whose lower half is empty.\<close>

lemma tbl_kernel_half:
  assumes root: "root < 2 ^ 40" "n < 2 ^ 40" and n: "n \<notin> tables r root"
    and out: "\<forall>x. unat x div 4096 \<noteq> n \<longrightarrow> r' x = r x"
    and ent: "\<forall>i < 512. r' (entry_addr n i) = (if 256 \<le> i then r (entry_addr root i) else 0)"
    and p: "valid p" "p \<noteq> []"
  shows "tbl r' n p = (if 256 \<le> last p then tbl r root p else None)"
    and "clean r root p \<Longrightarrow> clean r' n p"
proof -
  have np: "\<not> present 0" by (simp add: present_def)
  have cell: "r' (entry_addr g j) = r (entry_addr g j)" if "tbl r root w = Some g" "valid w" "j < 512" for g w j
  proof -
    have "g \<noteq> n" using that n by (auto simp: tables_def)
    then show ?thesis using out entry_addr_frame[OF tbl_bound[OF root(1) that(1)] that(3)] by simp
  qed
  have t: "tbl r' n p = (if 256 \<le> last p then tbl r root p else None)" if "valid p" "p \<noteq> []" for p
    using that
  proof (induction p)
    case (Cons j w)
    show ?case
    proof (cases "w = []")
      case True
      then show ?thesis using Cons.prems ent np by (simp add: Let_def)
    next
      case False
      with Cons have IH: "tbl r' n w = (if 256 \<le> last w then tbl r root w else None)" by simp
      show ?thesis
        using IH False Cons.prems cell[of w _ j] by (auto split: option.splits)
    qed
  qed simp
  show "tbl r' n p = (if 256 \<le> last p then tbl r root p else None)" using t[OF p] .
  show "clean r root p \<Longrightarrow> clean r' n p"
    using p
  proof (induction p)
    case (Cons j w)
    show ?case
    proof (cases "w = []")
      case True
      then show ?thesis using Cons.prems ent np by auto
    next
      case False
      with Cons have "clean r' n w" "clean r root (j # w)" "valid w" "j < 512" by auto
      then show ?thesis
        using t[OF \<open>valid w\<close> False] cell[of w _ j] by (auto split: option.splits)
    qed
  qed simp
qed

lemma lookup_kernel_half:
  assumes root: "root < 2 ^ 40" "n < 2 ^ 40" and n: "n \<notin> tables r root"
    and out: "\<forall>x. unat x div 4096 \<noteq> n \<longrightarrow> r' x = r x"
    and ent: "\<forall>i < 512. r' (entry_addr n i) = (if 256 \<le> i then r (entry_addr root i) else 0)"
    and p: "page_path p"
  shows "lookup r' n p = (if 256 \<le> last p then lookup r root p else None)"
proof -
  obtain j w where w: "p = j # w" "j < 512" "valid w" "length w = 3"
    using p by (auto simp: page_path_def)
  then have ne: "w \<noteq> []" by auto
  note t = tbl_kernel_half(1)[OF root n out ent w(3) ne]
  show ?thesis
  proof (cases "tbl r root w")
    case None
    then show ?thesis using t w ne by (simp add: lookup_def)
  next
    case (Some g)
    then have "g \<noteq> n" using w(3) n by (auto simp: tables_def)
    then have "r' (entry_addr g j) = r (entry_addr g j)"
      using out entry_addr_frame[OF tbl_bound[OF root(1) Some] w(2)] by simp
    then show ?thesis using t w ne Some by (simp add: lookup_def)
  qed
qed

text \<open>The copy loop of \<open>vmm_clone_kernel_space\<close>.\<close>

lemma copy_half_loop:
  assumes f: "f < 2 ^ 40" "n < 2 ^ 40" "f \<noteq> n"
  shows "\<exists>s'. for_range (\<lambda>i s. Option.bind (tbl_rd (Some (tptr s0 f)) (of_nat i) s)
            (\<lambda>e. tbl_wr (Some (tptr s0 n)) (of_nat i) e s)) 256 256 s0 = Some s' \<and>
     s' = s0\<lparr>pm := (pm s0)\<lparr>ram := mem s'\<rparr>\<rparr> \<and>
     (\<forall>x. unat x div 4096 \<noteq> n \<longrightarrow> mem s' x = mem s0 x) \<and>
     (\<forall>i < 512. mem s' (entry_addr n i) = (if 256 \<le> i then mem s0 (entry_addr f i) else mem s0 (entry_addr n i)))"
proof -
  let ?S = "\<lambda>R. s0\<lparr>pm := (pm s0)\<lparr>ram := R\<rparr>\<rparr>"
  let ?Q = "\<lambda>k R. (\<forall>x. unat x div 4096 \<noteq> n \<longrightarrow> R x = mem s0 x) \<and>
     (\<forall>i < 512. R (entry_addr n i) =
        (if 256 \<le> unat i \<and> unat i < k then mem s0 (entry_addr f i) else mem s0 (entry_addr n i)))"
  let ?P = "\<lambda>k s'. \<exists>R. s' = ?S R \<and> ?Q k R"
  have "\<exists>s'. for_range (\<lambda>i s. Option.bind (tbl_rd (Some (tptr s0 f)) (of_nat i) s)
            (\<lambda>e. tbl_wr (Some (tptr s0 n)) (of_nat i) e s)) 256 256 s0 = Some s' \<and> ?P (256 + 256) s'"
  proof (rule for_range_invariant)
    show "?P 256 s0" by (rule exI[of _ "mem s0"]) auto
    fix k s1
    assume k: "256 \<le> k" "k < 256 + 256" and P: "?P k s1"
    from P obtain R where R: "s1 = ?S R" "?Q k R" by blast
    let ?i = "of_nat k :: u64"
    have ki: "?i < 512" "unat ?i = k" using k by (simp_all add: word_less_nat_alt)
    define R2 where "R2 = R(entry_addr n ?i := R (entry_addr f ?i))"
    have tp: "tptr s0 g = tptr s1 g" for g by (simp add: vmm_phys_to_virt_def R(1))
    have call: "Option.bind (tbl_rd (Some (tptr s0 f)) ?i s1)
            (\<lambda>e. tbl_wr (Some (tptr s0 n)) ?i e s1) = Some (?S R2)"
      unfolding tp by (simp add: tbl_wr_tptr) (simp add: R(1) R2_def)
    have rf: "R (entry_addr f ?i) = mem s0 (entry_addr f ?i)"
      using R(2) entry_addr_frame[OF f(1) ki(1)] f(3) by simp
    have "R2 x = mem s0 x" if "unat x div 4096 \<noteq> n" for x
      using R(2) that entry_addr_frame[OF f(2) ki(1)] by (auto simp: R2_def)
    moreover have "R2 (entry_addr n i) =
        (if 256 \<le> unat i \<and> unat i < Suc k then mem s0 (entry_addr f i) else mem s0 (entry_addr n i))"
      if i: "i < 512" for i
    proof -
      have "entry_addr n i = entry_addr n ?i \<longleftrightarrow> i = ?i" using entry_addr_eq[OF f(2) i f(2) ki(1)] by simp
      moreover have "i = ?i \<longleftrightarrow> unat i = k" using ki(2) unsigned_word_eqI by auto
      ultimately show ?thesis using R(2) rf i k by (auto simp: R2_def)
    qed
    ultimately show "\<exists>s2. Option.bind (tbl_rd (Some (tptr s0 f)) ?i s1)
            (\<lambda>e. tbl_wr (Some (tptr s0 n)) ?i e s1) = Some s2 \<and> ?P (Suc k) s2" using call by blast
  qed
  then obtain s' R where s': "for_range (\<lambda>i s. Option.bind (tbl_rd (Some (tptr s0 f)) (of_nat i) s)
            (\<lambda>e. tbl_wr (Some (tptr s0 n)) (of_nat i) e s)) 256 256 s0 = Some s'" "s' = ?S R" "?Q (256 + 256) R"
    by blast
  have "mem s' = R" by (simp add: s'(2))
  with s' show ?thesis by (intro exI[of _ s']) (simp add: word_le_nat_alt word_less_nat_alt)
qed

lemma clone_kernel_space_spec:
  assumes wf: "vm_wf s" and ne: "vfree s \<noteq> {}"
  shows "\<exists>n s'. vmm_clone_kernel_space s = Some (of_nat n * 4096, s') \<and> n \<in> vfree s \<and>
     pmm_wf (pm s') \<and> vfree s' = vfree s - {n} \<and> cr3 s' = cr3 s \<and> voff s' = voff s \<and>
     hhdm_offset (pm s') = hhdm_offset (pm s) \<and> max_page_index (pm s') = max_page_index (pm s) \<and>
     (\<forall>x. unat x div 4096 \<noteq> n \<longrightarrow> mem s' x = mem s x) \<and>
     (\<forall>i < 512. mem s' (entry_addr n i) = (if 256 \<le> i then mem s (entry_addr (pml4_frame s) i) else 0))"
proof -
  have pwf: "pmm_wf (pm s)" and mx: "unat (max_page_index (pm s)) \<le> 2 ^ 40"
    and disj: "vtables s \<inter> vfree s = {}" using wf by (auto simp: vm_wf_def)
  define n where "n = Min (vfree s)"
  have nin: "n \<in> vfree s" using ne by (simp add: n_def)
  have nb: "n < 2 ^ 40" using free_frames_less[OF nin] mx by simp
  from pmm_alloc_page_full[OF pwf ne, folded n_def] obtain p1 where
    al: "pmm_alloc_page (pm s) = Some (of_nat n * 4096, p1)" and
    p1: "pmm_wf p1" "free_frames p1 = vfree s - {n}" "max_page_index p1 = max_page_index (pm s)"
      "hhdm_offset p1 = hhdm_offset (pm s)"
      "ram p1 = (\<lambda>x. if n * 4096 \<le> unat x \<and> unat x < n * 4096 + 4096 then 0 else mem s x)"
    by blast
  have nz: "of_nat n * 4096 \<noteq> (0 :: u64)" using fa.alloc_zero_iff[OF pwf al] ne by simp
  have rt: "pml4_frame s \<in> vtables s" unfolding tables_def using valid_Nil tbl.simps(1) by blast
  then have rn: "pml4_frame s \<noteq> n" using disj nin by blast
  let ?s1 = "s\<lparr>pm := p1\<rparr>"
  have root1: "get_current_pml4 ?s1 = tptr ?s1 (pml4_frame s)"
    by (simp add: get_current_pml4_def pml4_frame_def frame_of_addr)
  from copy_half_loop[OF pml4_frame_bound nb rn, of ?s1] obtain s2 where
    lp: "for_range (\<lambda>i t. Option.bind (tbl_rd (Some (tptr ?s1 (pml4_frame s))) (of_nat i) t)
            (\<lambda>e. tbl_wr (Some (tptr ?s1 n)) (of_nat i) e t)) 256 256 ?s1 = Some s2" and
    eq: "s2 = ?s1\<lparr>pm := (pm ?s1)\<lparr>ram := mem s2\<rparr>\<rparr>" and
    out: "\<forall>x. unat x div 4096 \<noteq> n \<longrightarrow> mem s2 x = mem ?s1 x" and
    ent: "\<forall>i < 512. mem s2 (entry_addr n i) =
      (if 256 \<le> i then mem ?s1 (entry_addr (pml4_frame s) i) else mem ?s1 (entry_addr n i))"
    by blast
  have call: "vmm_clone_kernel_space s = Some (of_nat n * 4096, s2)"
    using al nz lp by (simp add: vmm_clone_kernel_space_def vmm_alloc_page_def root1)
  have m1: "mem ?s1 x = mem s x" if "unat x div 4096 \<noteq> n" for x using that by (auto simp: p1(5))
  have z: "mem ?s1 (entry_addr n i) = 0" if "i < 512" for i
    using unat_entry_addr[OF nb that] that by (simp add: p1(5) word_less_nat_alt)
  have "mem s2 (entry_addr n i) = (if 256 \<le> i then mem s (entry_addr (pml4_frame s) i) else 0)"
    if "i < 512" for i
    using ent that z[OF that] m1[of "entry_addr (pml4_frame s) i"]
      entry_addr_frame[OF pml4_frame_bound that] rn by simp
  moreover have "mem s2 x = mem s x" if "unat x div 4096 \<noteq> n" for x
    using out m1 that by simp
  moreover obtain R where "s2 = ?s1\<lparr>pm := (pm ?s1)\<lparr>ram := R\<rparr>\<rparr>" using eq by blast
  then have "pmm_wf (pm s2)" "vfree s2 = vfree s - {n}" "cr3 s2 = cr3 s" "voff s2 = voff s"
    "hhdm_offset (pm s2) = hhdm_offset (pm s)" "max_page_index (pm s2) = max_page_index (pm s)"
    using p1 by simp_all
  ultimately show ?thesis using call nin by blast
qed

section \<open>Properties\<close>

text \<open>
  C5. Mapping. If the walk to \<open>virt\<close> meets no huge page, \<open>vmm_map_page\<close> returns and keeps the
  invariant: the tables stay a tree of distinct frames in use. With three free frames for
  intermediate tables the page is mapped: every address of the page then translates to the
  same offset in the frame \<open>phys\<close> (or to nothing when the flags lack the present bit), every other
  page translates as before, and the TLB entry is invalidated. When memory runs out on the way,
  no translation changes.
\<close>

theorem vmm_map_page_correct:
  assumes wf: "vm_wf s" and cl: "vclean s (table_path virt)" and fl: "flags AND ADDR_MASK = 0"
  shows "\<exists>s'. vmm_map_page virt phys flags s = Some s' \<and> vm_wf s' \<and>
    (if 3 \<le> card (free_frames (pm s)) \<or> flushes s' \<noteq> flushes s then
       flushes s' = Invlpg virt # flushes s \<and>
       (\<forall>v. vclean s (table_path v) \<longrightarrow> vmm_get_phys v s' =
          (if entry_path v = entry_path virt
           then Some (if flags AND PAGE_PRESENT \<noteq> 0 then phys AND ADDR_MASK OR (v AND 0xFFF) else 0)
           else vmm_get_phys v s))
     else \<forall>v. vclean s (table_path v) \<longrightarrow> vmm_get_phys v s' = vmm_get_phys v s)"
proof -
  from map_page_lookup[OF wf cl, of phys flags] obtain s' where
    m: "vmm_map_page virt phys flags s = Some s'" "vm_wf s'"
    and cl': "\<And>p. valid p \<Longrightarrow> vclean s p \<Longrightarrow> vclean s' p"
    and l: "(\<forall>q. page_path q \<longrightarrow> vlookup s' q =
        (if q = entry_path virt then leaf (phys AND ADDR_MASK OR flags) else vlookup s q)) \<and>
       flushes s' = Invlpg virt # flushes s
     \<or> (\<forall>q. page_path q \<longrightarrow> vlookup s' q = vlookup s q) \<and> flushes s' = flushes s \<and>
       vfree s' = {} \<and> card (vfree s) < 3" by blast
  have g: "vmm_get_phys v s' = Some (phys_of (vlookup s' (entry_path v)) v)"
    "vmm_get_phys v s = Some (phys_of (vlookup s (entry_path v)) v)" if "vclean s (table_path v)" for v
    using get_phys_lookup cl'[OF valid_table_path(1) that] that by blast+
  from l show ?thesis
  proof (elim disjE conjE)
    assume *: "\<forall>q. page_path q \<longrightarrow> vlookup s' q =
        (if q = entry_path virt then leaf (phys AND ADDR_MASK OR flags) else vlookup s q)"
      "flushes s' = Invlpg virt # flushes s"
    have "vlookup s' (entry_path v) =
        (if entry_path v = entry_path virt then leaf (phys AND ADDR_MASK OR flags) else vlookup s (entry_path v))"
      for v using *(1) page_path_entry_path by blast
    then show ?thesis using m *(2) g leaf_map_entry[OF fl, of phys]
      by (intro exI[of _ s']) (simp add: present_def)
  next
    assume *: "\<forall>q. page_path q \<longrightarrow> vlookup s' q = vlookup s q" "flushes s' = flushes s"
      "card (vfree s) < 3"
    have "vlookup s' (entry_path v) = vlookup s (entry_path v)" for v
      using *(1) page_path_entry_path by blast
    then show ?thesis using m *(2,3) g by (intro exI[of _ s']) simp
  qed
qed

text \<open>A machine for the witnesses: an empty PML4 in frame 1, frames 3 to 7 free.\<close>

definition demo_vmm :: vmm where
  "demo_vmm = \<lparr>pm = demo_pmm\<lparr>ram := (\<lambda>_. 0)\<rparr>, voff = 0xffff800000000000, cr3 = 0x1000, flushes = []\<rparr>"

lemma demo_vmm_tbl: "pml4_frame demo_vmm = 1" "vtbl demo_vmm p = (if p = [] then Some 1 else None)"
  "vclean demo_vmm p"
proof -
  show root: "pml4_frame demo_vmm = 1"
    by (simp add: pml4_frame_def frame_of_def demo_vmm_def ADDR_MASK_def)
  show t: "vtbl demo_vmm p = (if p = [] then Some 1 else None)" for p
    unfolding root by (induction p) (auto simp: demo_vmm_def present_def split: option.splits)
  show "vclean demo_vmm p"
    by (induction p) (auto simp: demo_vmm_def present_def split: option.splits)
qed

lemma demo_vmm_wf: "vm_wf demo_vmm"
proof -
  have "tables_inj (mem demo_vmm) (pml4_frame demo_vmm)" "vtables demo_vmm = {1}"
    using valid_Nil by (auto simp: tables_inj_def tables_def demo_vmm_tbl(2) split: if_splits)
  then show ?thesis
    using demo_wf by (simp add: vm_wf_def) (simp add: demo_vmm_def demo_free, simp add: demo_pmm_def)
qed

theorem vmm_map_page_witness:
  "\<exists>s'. vmm_map_page 0x400123 0x5000 7 demo_vmm = Some s' \<and> vm_wf s' \<and>
     vmm_get_phys 0x400abc s' = Some 0x5abc \<and> vmm_get_phys 0x401000 s' = vmm_get_phys 0x401000 demo_vmm"
proof -
  have "card (free_frames (pm demo_vmm)) = 5" by (simp add: demo_vmm_def demo_free)
  moreover have "(7 :: u64) AND ADDR_MASK = 0" by (simp add: ADDR_MASK_def)
  ultimately obtain s' where s': "vmm_map_page 0x400123 0x5000 7 demo_vmm = Some s'" "vm_wf s'"
    "\<forall>v. vmm_get_phys v s' = (if entry_path v = entry_path 0x400123
       then Some (if (7 :: u64) AND PAGE_PRESENT \<noteq> 0 then 0x5000 AND ADDR_MASK OR (v AND 0xFFF) else 0)
       else vmm_get_phys v demo_vmm)"
    using vmm_map_page_correct[OF demo_vmm_wf demo_vmm_tbl(3), of 7 "0x400123" "0x5000"] demo_vmm_tbl(3)
    by auto
  have "entry_path 0x400abc = entry_path 0x400123" "entry_path 0x401000 \<noteq> entry_path 0x400123"
    by (simp_all add: entry_path_def table_path_def PT_INDEX_def PD_INDEX_def PDPT_INDEX_def PML4_INDEX_def)
  then show ?thesis using s' by (intro exI[of _ s']) (simp add: PAGE_PRESENT_def ADDR_MASK_def)
qed

text \<open>
  C6. Unmapping. \<open>vmm_unmap_page\<close> removes exactly the page of \<open>virt\<close>: its addresses translate to
  nothing afterwards and every other page translates as before. The invariant holds and no frame
  changes between free and used, whether or not the page was mapped.
\<close>

theorem vmm_unmap_page_correct:
  assumes wf: "vm_wf s" and cl: "vclean s (table_path virt)"
  shows "\<exists>s'. vmm_unmap_page virt s = Some s' \<and> vm_wf s' \<and> free_frames (pm s') = free_frames (pm s) \<and>
    (\<forall>v. vclean s (table_path v) \<longrightarrow> vmm_get_phys v s' =
       (if entry_path v = entry_path virt then Some 0 else vmm_get_phys v s))"
proof -
  from unmap_page_lookup[OF assms] obtain s' where
    m: "vmm_unmap_page virt s = Some s'" "vm_wf s'" "vfree s' = vfree s"
    and cl': "\<And>p. valid p \<Longrightarrow> vclean s' p = vclean s p"
    and l: "\<And>q. page_path q \<Longrightarrow> vlookup s' q = (if q = entry_path virt then None else vlookup s q)" by blast
  have "vmm_get_phys v s' = (if entry_path v = entry_path virt then Some 0 else vmm_get_phys v s)"
    if "vclean s (table_path v)" for v
    using get_phys_lookup[of s v] get_phys_lookup[of s' v] that cl'[of "table_path v"]
      l[OF page_path_entry_path, of v] by (simp add: phys_of_def)
  with m show ?thesis by blast
qed

theorem vmm_unmap_page_witness:
  "\<exists>s'. vmm_unmap_page 0x400123 demo_vmm = Some s' \<and> vm_wf s' \<and> vmm_get_phys 0x400abc s' = Some 0"
proof -
  from vmm_unmap_page_correct[OF demo_vmm_wf demo_vmm_tbl(3), of "0x400123"] obtain s' where
    s': "vmm_unmap_page 0x400123 demo_vmm = Some s'" "vm_wf s'"
    "\<forall>v. vmm_get_phys v s' = (if entry_path v = entry_path 0x400123 then Some 0 else vmm_get_phys v demo_vmm)"
    using demo_vmm_tbl(3) by auto
  have "entry_path 0x400abc = entry_path 0x400123"
    by (simp add: entry_path_def table_path_def PT_INDEX_def PD_INDEX_def PDPT_INDEX_def PML4_INDEX_def)
  then show ?thesis using s' by auto
qed

text \<open>
  C7. A new address space. \<open>vmm_clone_kernel_space\<close> returns a fresh frame. When CR3 is set to it the
  invariant holds, every kernel address (PML4 index 256 and above) translates as in the current
  address space, and no user address is mapped. The current address space is untouched.
\<close>

theorem vmm_clone_kernel_space_correct:
  assumes wf: "vm_wf s" and ne: "free_frames (pm s) \<noteq> {}"
  shows "\<exists>a s'. vmm_clone_kernel_space s = Some (a, s') \<and> unat a div 4096 \<in> free_frames (pm s) \<and>
    vm_wf s' \<and> vm_wf (s'\<lparr>cr3 := a\<rparr>) \<and>
    (\<forall>v. vclean s (table_path v) \<longrightarrow>
       vmm_get_phys v s' = vmm_get_phys v s \<and>
       vmm_get_phys v (s'\<lparr>cr3 := a\<rparr>) = (if 256 \<le> PML4_INDEX v then vmm_get_phys v s else Some 0))"
proof -
  from clone_kernel_space_spec[OF assms] obtain n s' where
    c: "vmm_clone_kernel_space s = Some (of_nat n * 4096, s')" "n \<in> vfree s" "pmm_wf (pm s')"
      "vfree s' = vfree s - {n}" "cr3 s' = cr3 s" "voff s' = voff s"
      "hhdm_offset (pm s') = hhdm_offset (pm s)" "max_page_index (pm s') = max_page_index (pm s)"
    and out: "\<forall>x. unat x div 4096 \<noteq> n \<longrightarrow> mem s' x = mem s x"
    and ent: "\<forall>i < 512. mem s' (entry_addr n i) =
      (if 256 \<le> i then mem s (entry_addr (pml4_frame s) i) else 0)" by blast
  have mx: "unat (max_page_index (pm s)) \<le> 2 ^ 40" and disj: "vtables s \<inter> vfree s = {}"
    and off: "voff s = hhdm_offset (pm s)" and inj: "tables_inj (mem s) (pml4_frame s)"
    using wf by (auto simp: vm_wf_def)
  have nb: "n < 2 ^ 40" using free_frames_less[OF c(2)] mx by simp
  have nt: "n \<notin> vtables s" using disj c(2) by blast
  let ?a = "of_nat n * 4096 :: u64" and ?t = "s'\<lparr>cr3 := of_nat n * 4096\<rparr>"
  have ua: "unat ?a = n * 4096" using nb by (simp add: frame_address)
  have root': "pml4_frame s' = pml4_frame s" using c(5) by (simp add: pml4_frame_def)
  have tb40: "take_bit 40 (of_nat n :: u64) = of_nat n"
    using nb by (simp add: take_bit_of_nat take_bit_nat_eq_self)
  have "?a AND ADDR_MASK = ?a"
  proof -
    have "drop_bit 12 (push_bit 12 (of_nat n :: u64)) = take_bit 52 (of_nat n)"
      by (rule bit_word_eqI) (simp add: bit_simps)
    then have "push_bit 12 (of_nat n :: u64) AND ADDR_MASK = push_bit 12 (take_bit 40 (of_nat n))"
      unfolding addr_mask_bits by simp
    then show ?thesis unfolding tb40 by (simp add: push_bit_eq_mult)
  qed
  then have roott: "pml4_frame ?t = n" using ua by (simp add: pml4_frame_def frame_of_def)
  have same: "same_tables (mem s) (mem s') (pml4_frame s)"
    by (rule same_tables_outside[OF pml4_frame_bound], rule out[rule_format]) (use nt in auto)
  have wf': "vm_wf s'"
    using wf c nt unfolding vm_wf_def root' tables_cong[OF same] tables_inj_cong[OF same] by auto
  note kh = tbl_kernel_half[OF pml4_frame_bound nb nt out ent]
  have sub: "f \<in> insert n (vtables s)" if "valid p" "tbl (mem s') n p = Some f" for p f
    using that kh(1)[OF that(1)] by (cases "p = []") (auto simp: tables_def split: if_splits)
  have "tables_inj (mem s') n"
    unfolding tables_inj_def
  proof (intro allI impI)
    fix p q f assume p: "valid p" "valid q" "tbl (mem s') n p = Some f" "tbl (mem s') n q = Some f"
    have "vtbl s p \<noteq> Some n" "vtbl s q \<noteq> Some n" using nt p(1,2) by (auto simp: tables_def)
    then show "p = q"
      using kh(1)[OF p(1)] kh(1)[OF p(2)] p(3,4) tables_injD[OF inj p(1,2), of f]
      by (cases "p = []"; cases "q = []") (auto split: if_splits)
  qed
  moreover have "tables (mem s') n \<inter> (vfree s - {n}) = {}"
    using sub disj by (auto simp: tables_def)
  ultimately have wft: "vm_wf ?t"
    using c(3,4,6-8) off mx unfolding vm_wf_def roott by simp
  have "vmm_get_phys v s' = vmm_get_phys v s \<and>
      vmm_get_phys v ?t = (if 256 \<le> PML4_INDEX v then vmm_get_phys v s else Some 0)"
    if cl: "vclean s (table_path v)" for v
  proof -
    have last: "last (entry_path v) = PML4_INDEX v" "table_path v \<noteq> []"
      by (simp_all add: entry_path_def table_path_def)
    have "vclean s' (table_path v)" "vclean ?t (table_path v)"
      using clean_cong[OF same valid_table_path(1)] cl kh(2)[OF valid_table_path(1) last(2)]
      unfolding root' roott by simp_all
    note g = get_phys_lookup[OF this(1)] get_phys_lookup[OF this(2)] get_phys_lookup[OF cl]
    have "vlookup ?t (entry_path v) = (if 256 \<le> PML4_INDEX v then vlookup s (entry_path v) else None)"
      using lookup_kernel_half[OF pml4_frame_bound nb nt out ent page_path_entry_path, of v]
      unfolding last(1) roott by simp
    moreover have "vlookup s' (entry_path v) = vlookup s (entry_path v)"
    proof -
      have "tbl (mem s') (pml4_frame s) (table_path v) = vtbl s (table_path v)"
        using tbl_cong[OF same valid_table_path(1)] .
      moreover have "mem s' (entry_addr g (PT_INDEX v)) = mem s (entry_addr g (PT_INDEX v))"
        if gt: "vtbl s (table_path v) = Some g" for g
      proof (rule out[rule_format])
        have "g \<in> vtables s" using gt valid_table_path(1) unfolding tables_def by blast
        then show "unat (entry_addr g (PT_INDEX v)) div 4096 \<noteq> n"
          using entry_addr_frame[OF tbl_bound[OF pml4_frame_bound gt] index_bound(4)] nt by auto
      qed
      ultimately show ?thesis unfolding root'
        by (cases "vtbl s (table_path v)") (simp_all add: lookup_def entry_path_def)
    qed
    ultimately show ?thesis using g by (simp add: phys_of_def)
  qed
  with c(1,2) wf' wft ua show ?thesis by (intro exI[of _ ?a] exI[of _ s']) simp
qed

theorem vmm_clone_kernel_space_witness:
  "\<exists>a s'. vmm_clone_kernel_space demo_vmm = Some (a, s') \<and> vm_wf (s'\<lparr>cr3 := a\<rparr>) \<and>
     vmm_get_phys 0x400000 (s'\<lparr>cr3 := a\<rparr>) = Some 0"
proof -
  have "free_frames (pm demo_vmm) \<noteq> {}" by (simp add: demo_vmm_def demo_free)
  from vmm_clone_kernel_space_correct[OF demo_vmm_wf this] obtain a s' where
    "vmm_clone_kernel_space demo_vmm = Some (a, s')" "vm_wf (s'\<lparr>cr3 := a\<rparr>)"
    "\<forall>v. vmm_get_phys v (s'\<lparr>cr3 := a\<rparr>) = (if 256 \<le> PML4_INDEX v then vmm_get_phys v demo_vmm else Some 0)"
    using demo_vmm_tbl(3) by blast
  moreover have "\<not> 256 \<le> PML4_INDEX 0x400000" by (simp add: PML4_INDEX_def)
  ultimately show ?thesis by auto
qed

end
