(* ===== verification/Heap.thy ===== *)
theory Heap
  imports Vmm
begin

text \<open>
  The kernel heap, \<open>kernel/src/mm/heap.c\<close>: a first-fit allocator over a linked list of block headers
  in a virtual range that grows page by page. \<open>hdrs\<close> holds the block headers by address and
  \<open>bytes\<close> the rest of the heap memory. Access to a header outside the range from
  \<open>heap_virt_base\<close> to \<open>heap_virt_end\<close>, or to an address where no header was stored, is a fault.
\<close>

section \<open>State\<close>

record block_header =
  bsize :: u64
  bfree :: bool
  bnext :: "u64 option"

definition HEADER_SIZE :: u64 where "HEADER_SIZE = 24"
definition MIN_BLOCK :: u64 where "MIN_BLOCK = 32"
definition HEAP_VIRT_START :: u64 where "HEAP_VIRT_START = 0xFFFFFFFF90000000"
definition PAGE_NX :: u64 where "PAGE_NX = 0x8000000000000000"

record heap =
  heap_start :: "u64 option"
  heap_virt_base :: u64
  heap_virt_end :: u64
  heap_total_size :: u64
  hdrs :: "u64 \<Rightarrow> block_header option"
  bytes :: "u64 \<Rightarrow> u8"
  vm :: vmm

definition in_heap :: "heap \<Rightarrow> u64 \<Rightarrow> bool" where
  "in_heap h a \<longleftrightarrow> unat (heap_virt_base h) \<le> unat a \<and> unat a + 24 \<le> unat (heap_virt_end h)"

definition hdr_rd :: "u64 \<Rightarrow> heap \<Rightarrow> block_header option" where
  "hdr_rd a h = (if in_heap h a then hdrs h a else None)"

definition hdr_wr :: "u64 \<Rightarrow> block_header \<Rightarrow> heap \<Rightarrow> heap option" where
  "hdr_wr a b h = (if in_heap h a then Some (h\<lparr>hdrs := (hdrs h)(a \<mapsto> b)\<rparr>) else None)"

section \<open>Growing\<close>

text \<open>The loop of \<open>heap_grow\<close>; the result is 0, or -1 when no frame is left.\<close>

primrec heap_grow :: "nat \<Rightarrow> heap \<Rightarrow> (int \<times> heap) option" where
  "heap_grow 0 h = Some (0, h)"
| "heap_grow (Suc n) h = do {
     (phys, v1) \<leftarrow> vmm_alloc_page (vm h);
     if phys = 0 then Some (- 1, h\<lparr>vm := v1\<rparr>)
     else do {
       v2 \<leftarrow> vmm_map_page (heap_virt_end h) phys (PAGE_PRESENT OR PAGE_WRITABLE OR PAGE_NX) v1;
       heap_grow n (h\<lparr>vm := v2, heap_virt_end := heap_virt_end h + 4096\<rparr>) } }"

definition heap_init :: "u64 \<Rightarrow> heap \<Rightarrow> heap option" where
  "heap_init initial_pages h = do {
     let h1 = h\<lparr>heap_virt_base := HEAP_VIRT_START, heap_virt_end := HEAP_VIRT_START\<rparr>;
     (r, h2) \<leftarrow> heap_grow (unat initial_pages) h1;
     if r \<noteq> 0 then Some h2
     else do {
       let h3 = h2\<lparr>heap_total_size := initial_pages * 4096, heap_start := Some (heap_virt_base h2)\<rparr>;
       hdr_wr (heap_virt_base h3) \<lparr>bsize = heap_total_size h3 - HEADER_SIZE, bfree = True, bnext = None\<rparr> h3 } }"

section \<open>Allocation\<close>

definition align16 :: "u64 \<Rightarrow> u64" where
  "align16 size1 = (size1 + 15) AND NOT 15"

text \<open>The block found: split it if the rest is worth a block, and mark it used.\<close>

definition kmalloc_take :: "u64 \<Rightarrow> u64 \<Rightarrow> heap \<Rightarrow> heap option" where
  "kmalloc_take size1 cur h = do {
     b \<leftarrow> hdr_rd cur h;
     h1 \<leftarrow> (if bsize b \<ge> size1 + HEADER_SIZE + MIN_BLOCK then do {
              let new_block = cur + HEADER_SIZE + size1;
              h' \<leftarrow> hdr_wr new_block \<lparr>bsize = bsize b - size1 - HEADER_SIZE, bfree = True, bnext = bnext b\<rparr> h;
              hdr_wr cur (b\<lparr>bnext := Some new_block, bsize := size1\<rparr>) h' }
            else Some h);
     b1 \<leftarrow> hdr_rd cur h1;
     hdr_wr cur (b1\<lparr>bfree := False\<rparr>) h1 }"

partial_function (option) kmalloc_search :: "u64 \<Rightarrow> u64 option \<Rightarrow> heap \<Rightarrow> (u64 option \<times> heap) option" where
  "kmalloc_search size1 cur h =
     (case cur of
        None \<Rightarrow> Some (None, h)
      | Some c \<Rightarrow> do {
          b \<leftarrow> hdr_rd c h;
          if bfree b \<and> bsize b \<ge> size1 then do {
            h1 \<leftarrow> kmalloc_take size1 c h;
            Some (Some (c + HEADER_SIZE), h1) }
          else kmalloc_search size1 (bnext b) h })"

partial_function (option) heap_append :: "u64 \<Rightarrow> u64 \<Rightarrow> heap \<Rightarrow> heap option" where
  "heap_append cur new_block h = do {
     b \<leftarrow> hdr_rd cur h;
     (case bnext b of
        Some c \<Rightarrow> heap_append c new_block h
      | None \<Rightarrow> hdr_wr cur (b\<lparr>bnext := Some new_block\<rparr>) h) }"

text \<open>The tail of \<open>kmalloc\<close>: grow the heap by a new last block. \<open>False\<close> when memory ran out.\<close>

definition kmalloc_grow :: "u64 \<Rightarrow> heap \<Rightarrow> (bool \<times> heap) option" where
  "kmalloc_grow size1 h = do {
     let needed = size1 + HEADER_SIZE;
     let pages0 = (needed + 4095) div 4096;
     let pages = (if pages0 < 4 then 4 else pages0);
     let old_end = heap_virt_end h;
     (r, h1) \<leftarrow> heap_grow (unat pages) h;
     if r \<noteq> 0 then Some (False, h1)
     else do {
       h2 \<leftarrow> hdr_wr old_end \<lparr>bsize = pages * 4096 - HEADER_SIZE, bfree = True, bnext = None\<rparr> h1;
       let h3 = h2\<lparr>heap_total_size := heap_total_size h2 + pages * 4096\<rparr>;
       start \<leftarrow> heap_start h3;
       h4 \<leftarrow> heap_append start old_end h3;
       Some (True, h4) } }"

text \<open>\<open>kmalloc\<close> calls itself again after growing.\<close>

partial_function (option) kmalloc :: "u64 \<Rightarrow> heap \<Rightarrow> (u64 option \<times> heap) option" where
  "kmalloc size0 h =
     (if size0 = 0 then Some (None, h)
      else do {
        let size1 = align16 size0;
        (r, h1) \<leftarrow> kmalloc_search size1 (heap_start h) h;
        (case r of
           Some p \<Rightarrow> Some (Some p, h1)
         | None \<Rightarrow> do {
             (ok, h2) \<leftarrow> kmalloc_grow size1 h1;
             if \<not> ok then Some (None, h2) else kmalloc size1 h2 }) })"

section \<open>Release\<close>

text \<open>The coalescing loop. Merging does not advance.\<close>

partial_function (option) coalesce :: "u64 option \<Rightarrow> heap \<Rightarrow> heap option" where
  "coalesce cur h =
     (case cur of
        None \<Rightarrow> Some h
      | Some c \<Rightarrow> do {
          b \<leftarrow> hdr_rd c h;
          (case (if bfree b then bnext b else None) of
             None \<Rightarrow> coalesce (bnext b) h
           | Some n \<Rightarrow> do {
               bn \<leftarrow> hdr_rd n h;
               if bfree bn then do {
                 h1 \<leftarrow> hdr_wr c (b\<lparr>bsize := bsize b + (HEADER_SIZE + bsize bn), bnext := bnext bn\<rparr>) h;
                 coalesce (Some c) h1 }
               else coalesce (bnext b) h }) })"

definition kfree :: "u64 option \<Rightarrow> heap \<Rightarrow> heap option" where
  "kfree ptr h =
     (case ptr of
        None \<Rightarrow> Some h
      | Some p \<Rightarrow> do {
          let block = p - HEADER_SIZE;
          b \<leftarrow> hdr_rd block h;
          h1 \<leftarrow> hdr_wr block (b\<lparr>bfree := True\<rparr>) h;
          coalesce (heap_start h1) h1 })"

section \<open>Derived allocation functions\<close>

definition heap_memset :: "u64 \<Rightarrow> u8 \<Rightarrow> u64 \<Rightarrow> heap \<Rightarrow> heap" where
  "heap_memset p v n h =
     h\<lparr>bytes := (\<lambda>a. if unat p \<le> unat a \<and> unat a < unat p + unat n then v else bytes h a)\<rparr>"

definition store_ptr :: "u64 \<Rightarrow> u64 \<Rightarrow> heap \<Rightarrow> heap" where
  "store_ptr p v h =
     h\<lparr>bytes := (\<lambda>a. if unat p \<le> unat a \<and> unat a < unat p + 8
                     then ucast (drop_bit (8 * (unat a - unat p)) v) else bytes h a)\<rparr>"

definition kmalloc_aligned :: "u64 \<Rightarrow> u64 \<Rightarrow> heap \<Rightarrow> (u64 option \<times> heap) option" where
  "kmalloc_aligned size0 align h =
     (if align \<le> 16 then kmalloc size0 h
      else do {
        (raw, h1) \<leftarrow> kmalloc (size0 + align + 8) h;
        (case raw of
           None \<Rightarrow> Some (None, h1)
         | Some r \<Rightarrow> do {
             let addr = (r + 8 + align - 1) AND NOT (align - 1);
             Some (Some addr, store_ptr (addr - 8) r h1) }) })"

definition kcalloc :: "u64 \<Rightarrow> u64 \<Rightarrow> heap \<Rightarrow> (u64 option \<times> heap) option" where
  "kcalloc count size0 h = do {
     let total = count * size0;
     (ptr, h1) \<leftarrow> kmalloc total h;
     (case ptr of
        None \<Rightarrow> Some (None, h1)
      | Some p \<Rightarrow> Some (Some p, heap_memset p 0 total h1)) }"

text \<open>The statistics loop: total, used and free bytes.\<close>

partial_function (option) heap_stats_loop :: "u64 option \<Rightarrow> u64 \<times> u64 \<times> u64 \<Rightarrow> heap \<Rightarrow> (u64 \<times> u64 \<times> u64) option" where
  "heap_stats_loop cur acc h =
     (case cur of
        None \<Rightarrow> Some acc
      | Some c \<Rightarrow> do {
          b \<leftarrow> hdr_rd c h;
          let (t, u, f) = acc;
          heap_stats_loop (bnext b)
            (if bfree b then (t + (bsize b + HEADER_SIZE), u, f + bsize b)
             else (t + (bsize b + HEADER_SIZE), u + bsize b, f)) h })"

definition heap_get_stats :: "heap \<Rightarrow> (u64 \<times> u64 \<times> u64) option" where
  "heap_get_stats h = heap_stats_loop (heap_start h) (0, 0, 0) h"

section \<open>The abstract heap: a list of blocks\<close>

text \<open>
  A block is its header's address, the size of its data area and whether it is free.
  \<open>heap_seg h p bs e\<close>: following the headers from \<open>p\<close> visits the blocks \<open>bs\<close> and arrives at \<open>e\<close>.
  \<open>chain lo bs hi\<close>: the blocks lie between \<open>lo\<close> and \<open>hi\<close>, in ascending order without overlap.
\<close>

type_synonym blk = "u64 \<times> u64 \<times> bool"

fun heap_seg :: "heap \<Rightarrow> u64 option \<Rightarrow> blk list \<Rightarrow> u64 option \<Rightarrow> bool" where
  "heap_seg h p [] e \<longleftrightarrow> p = e"
| "heap_seg h p ((a, s, f) # bs) e \<longleftrightarrow> p = Some a \<and> in_heap h a \<and>
     (\<exists>nx. hdrs h a = Some \<lparr>bsize = s, bfree = f, bnext = nx\<rparr> \<and> heap_seg h nx bs e)"

fun chain :: "nat \<Rightarrow> blk list \<Rightarrow> nat \<Rightarrow> bool" where
  "chain lo [] hi \<longleftrightarrow> lo \<le> hi"
| "chain lo ((a, s, f) # bs) hi \<longleftrightarrow> lo \<le> unat a \<and> chain (unat a + 24 + unat s) bs hi"

definition allocated :: "blk list \<Rightarrow> (u64 \<times> u64) set" where
  "allocated bs = {(a, s). (a, s, False) \<in> set bs}"

lemma allocated_simps [simp]:
  "allocated [] = {}"
  "allocated ((a, s, f) # bs) = (if f then allocated bs else insert (a, s) (allocated bs))"
  "allocated (xs @ ys) = allocated xs \<union> allocated ys"
  by (auto simp: allocated_def)

lemma heap_seg_append:
  "heap_seg h p (xs @ ys) e \<longleftrightarrow> (\<exists>m. heap_seg h p xs m \<and> heap_seg h m ys e)"
proof (induction xs arbitrary: p)
  case (Cons x xs)
  then show ?case by (cases x) auto
qed simp

lemma heap_seg_cong:
  assumes "heap_seg h p bs e"
    and "\<And>a s f. (a, s, f) \<in> set bs \<Longrightarrow> hdrs h' a = hdrs h a \<and> (in_heap h a \<longrightarrow> in_heap h' a)"
  shows "heap_seg h' p bs e"
  using assms
proof (induction bs arbitrary: p)
  case (Cons b bs)
  obtain a s f where b: "b = (a, s, f)" by (cases b)
  from Cons.prems(1) obtain nx where "p = Some a" "in_heap h a"
    "hdrs h a = Some \<lparr>bsize = s, bfree = f, bnext = nx\<rparr>" "heap_seg h nx bs e" by (auto simp: b)
  then show ?case using Cons.IH[of nx] Cons.prems(2)[of a s f] Cons.prems(2) by (auto simp: b)
qed simp

lemma chain_le: "chain lo bs hi \<Longrightarrow> lo \<le> hi"
proof (induction bs arbitrary: lo)
  case (Cons b bs)
  obtain a s f where "b = (a, s, f)" by (cases b)
  with Cons.prems Cons.IH[of "unat a + 24 + unat s"] show ?case by auto
qed simp

lemma chain_append: "chain lo (xs @ ys) hi \<longleftrightarrow> (\<exists>m. chain lo xs m \<and> chain m ys hi)"
proof (induction xs arbitrary: lo)
  case Nil
  have "chain lo ys hi" if "lo \<le> m" "chain m ys hi" for m
    using that by (cases "(lo, ys, hi)" rule: chain.cases) auto
  then show ?case by auto
next
  case (Cons x xs)
  then show ?case by (cases x) auto
qed

lemma chain_weaken: "chain lo bs hi \<Longrightarrow> lo' \<le> lo \<Longrightarrow> hi \<le> hi' \<Longrightarrow> chain lo' bs hi'"
proof (induction bs arbitrary: lo lo')
  case (Cons b bs)
  obtain a s f where "b = (a, s, f)" by (cases b)
  with Cons show ?case by auto
qed simp

lemma chain_bounds:
  "chain lo bs hi \<Longrightarrow> (a, s, f) \<in> set bs \<Longrightarrow> lo \<le> unat a \<and> unat a + 24 + unat s \<le> hi"
proof (induction bs arbitrary: lo)
  case (Cons b bs)
  obtain a' s' f' where b: "b = (a', s', f')" by (cases b)
  show ?case
  proof (cases "(a, s, f) = b")
    case True
    then show ?thesis using Cons.prems chain_le b by auto
  next
    case False
    then show ?thesis using Cons.prems Cons.IH[of "unat a' + 24 + unat s'"] b by auto
  qed
qed simp

text \<open>Blocks of a chain do not overlap.\<close>

lemma chain_disjoint:
  assumes "chain lo bs hi" "(a, s, f) \<in> set bs" "(b, t, g) \<in> set bs" "(a, s, f) \<noteq> (b, t, g)"
  shows "unat a + 24 + unat s \<le> unat b \<or> unat b + 24 + unat t \<le> unat a"
  using assms
proof (induction bs arbitrary: lo)
  case (Cons x xs)
  obtain a' s' f' where x: "x = (a', s', f')" by (cases x)
  have c: "chain (unat a' + 24 + unat s') xs hi" using Cons.prems(1) x by simp
  consider "(a, s, f) = x" "(b, t, g) \<in> set xs" | "(b, t, g) = x" "(a, s, f) \<in> set xs"
    | "(a, s, f) \<in> set xs" "(b, t, g) \<in> set xs" using Cons.prems by auto
  then show ?case
  proof cases
    case 1
    then show ?thesis using chain_bounds[OF c 1(2)] x by auto
  next
    case 2
    then show ?thesis using chain_bounds[OF c 2(2)] x by auto
  next
    case 3
    then show ?thesis using Cons.IH[OF c 3] Cons.prems(4) by auto
  qed
qed simp

section \<open>First fit\<close>

fun first_fit :: "u64 \<Rightarrow> blk list \<Rightarrow> (u64 \<times> blk list) option" where
  "first_fit n [] = None"
| "first_fit n ((a, s, f) # bs) =
     (if f \<and> n \<le> s then
        Some (a, (if unat n + 56 \<le> unat s then [(a, n, False), (a + 24 + n, s - n - 24, True)]
                  else [(a, s, False)]) @ bs)
      else map_option (\<lambda>(x, bs'). (x, (a, s, f) # bs')) (first_fit n bs))"

lemma split_arith:
  fixes a n s :: u64
  assumes "unat n + 56 \<le> unat s" "unat a + 24 + unat s < 2 ^ 64"
  shows "unat (a + 24 + n) = unat a + 24 + unat n" "unat (s - n - 24) = unat s - unat n - 24"
proof -
  have a24: "unat (a + 24) = unat a + 24"
    using unat_add_u64[of a 24] assms by simp
  then show "unat (a + 24 + n) = unat a + 24 + unat n"
    using unat_add_u64[of "a + 24" n] assms by simp
  have "unat (s - n) = unat s - unat n" by (rule unat_sub_u64) (use assms in simp)
  then show "unat (s - n - 24) = unat s - unat n - 24"
    using unat_sub_u64[of 24 "s - n"] assms by simp
qed

lemma first_fit_chain:
  assumes "chain lo bs hi" "hi < 2 ^ 64" "first_fit n bs = Some (a, bs')"
  shows "chain lo bs' hi"
  using assms
proof (induction bs arbitrary: lo bs')
  case (Cons b bs)
  obtain a' s f where b: "b = (a', s, f)" by (cases b)
  have c: "lo \<le> unat a'" "chain (unat a' + 24 + unat s) bs hi" using Cons.prems(1) b by auto
  then have lt: "unat a' + 24 + unat s < 2 ^ 64" using chain_le[OF c(2)] Cons.prems(2) by simp
  show ?case
  proof (cases "f \<and> n \<le> s")
    case True
    have "unat a' + 24 + unat n + 24 + (unat s - (unat n + 24)) = unat a' + 24 + unat s"
      if "unat n + 56 \<le> unat s" using that by simp
    then show ?thesis
      using True Cons.prems(3) b c split_arith[OF _ lt, of n] by (auto simp: ac_simps split: if_splits)
  next
    case False
    then obtain bs1 where "first_fit n bs = Some (a, bs1)" "bs' = b # bs1"
      using Cons.prems(3) b by auto
    then show ?thesis using Cons.IH[OF c(2) Cons.prems(2)] b c(1) by simp
  qed
qed simp

lemma first_fit_allocated:
  assumes "first_fit n bs = Some (a, bs')"
  shows "\<exists>s t. n \<le> s \<and> (a, t, True) \<in> set bs \<and> s \<le> t \<and> allocated bs' = insert (a, s) (allocated bs)"
  using assms
proof (induction bs arbitrary: bs')
  case (Cons b bs)
  obtain a' s f where b: "b = (a', s, f)" by (cases b)
  show ?case
  proof (cases "f \<and> n \<le> s")
    case True
    then have "a' = a" "allocated bs' = insert (a, if unat n + 56 \<le> unat s then n else s) (allocated bs)"
      using Cons.prems b by (auto split: if_splits)
    then show ?thesis using True b
      by (intro exI[of _ "if unat n + 56 \<le> unat s then n else s"] exI[of _ s]) auto
  next
    case False
    then obtain bs1 where 1: "first_fit n bs = Some (a, bs1)" "bs' = b # bs1"
      using Cons.prems b by auto
    from Cons.IH[OF 1(1)] 1(2) b show ?thesis by (auto split: if_splits)
  qed
qed simp

lemma first_fit_None: "first_fit n bs = None \<longleftrightarrow> (\<forall>a s. (a, s, True) \<in> set bs \<longrightarrow> s < n)"
proof (induction bs)
  case (Cons b bs)
  obtain a s f where b: "b = (a, s, f)" by (cases b)
  then have "first_fit n (b # bs) = None \<longleftrightarrow> \<not> (f \<and> n \<le> s) \<and> first_fit n bs = None" by simp
  with Cons.IH b show ?case by (auto simp: not_le)
qed simp

lemma first_fit_total:
  assumes "chain lo bs hi" "hi < 2 ^ 64" "first_fit n bs = Some (a, bs')"
  shows "(\<Sum>(a, s, f) \<leftarrow> bs'. unat s + 24) = (\<Sum>(a, s, f) \<leftarrow> bs. unat s + 24)"
  using assms
proof (induction bs arbitrary: lo bs')
  case (Cons b bs)
  obtain a' s f where b: "b = (a', s, f)" by (cases b)
  have c: "chain (unat a' + 24 + unat s) bs hi" using Cons.prems(1) b by auto
  then have lt: "unat a' + 24 + unat s < 2 ^ 64" using chain_le[OF c] Cons.prems(2) by simp
  show ?case
  proof (cases "f \<and> n \<le> s")
    case True
    then show ?thesis
      using Cons.prems(3) b split_arith[OF _ lt, of n] by (auto split: if_splits)
  next
    case False
    then obtain bs1 where "first_fit n bs = Some (a, bs1)" "bs' = b # bs1"
      using Cons.prems(3) b by auto
    then show ?thesis using Cons.IH[OF c Cons.prems(2)] b by simp
  qed
qed simp

section \<open>The allocation loop refines first fit\<close>

lemma hdr_rd_in [simp]: "in_heap h a \<Longrightarrow> hdr_rd a h = hdrs h a"
  by (simp add: hdr_rd_def)

lemma hdr_wr_in [simp]: "in_heap h a \<Longrightarrow> hdr_wr a b h = Some (h\<lparr>hdrs := (hdrs h)(a \<mapsto> b)\<rparr>)"
  by (simp add: hdr_wr_def)

lemma in_heap_hdrs [simp]: "in_heap (h\<lparr>hdrs := x\<rparr>) a = in_heap h a"
  by (simp add: in_heap_def)

text \<open>\<open>only_hdrs h h'\<close>: the headers below \<open>lo\<close> and everything but headers are as in \<open>h\<close>.\<close>

definition only_hdrs :: "nat \<Rightarrow> heap \<Rightarrow> heap \<Rightarrow> bool" where
  "only_hdrs lo h h' \<longleftrightarrow> (\<exists>x. h' = h\<lparr>hdrs := x\<rparr>) \<and> (\<forall>a. unat a < lo \<longrightarrow> hdrs h' a = hdrs h a)"

lemma only_hdrs_refl [simp]: "only_hdrs lo h h"
  by (auto simp: only_hdrs_def intro: exI[of _ "hdrs h"])

lemma only_hdrs_trans: "only_hdrs lo h h1 \<Longrightarrow> only_hdrs lo h1 h2 \<Longrightarrow> only_hdrs lo h h2"
  by (auto simp: only_hdrs_def)

lemma only_hdrs_mono: "only_hdrs lo h h' \<Longrightarrow> lo' \<le> lo \<Longrightarrow> only_hdrs lo' h h'"
  by (auto simp: only_hdrs_def)

lemma only_hdrs_upd: "lo \<le> unat a \<Longrightarrow> only_hdrs lo h (h\<lparr>hdrs := (hdrs h)(a \<mapsto> b)\<rparr>)"
  by (auto simp: only_hdrs_def)

lemma only_hdrs_in_heap: "only_hdrs lo h h' \<Longrightarrow> in_heap h' a = in_heap h a"
  by (auto simp: only_hdrs_def)

lemma heap_seg_upd_below:
  assumes "heap_seg h p bs e" "chain lo bs hi" "unat a < lo"
  shows "heap_seg (h\<lparr>hdrs := (hdrs h)(a := x)\<rparr>) p bs e"
  by (rule heap_seg_cong[OF assms(1)]) (use chain_bounds[OF assms(2)] assms(3) in fastforce)

lemma kmalloc_take_spec:
  assumes seg: "heap_seg h (Some a) ((a, s, True) # bs) None"
    and ch: "chain lo ((a, s, True) # bs) hi" and hi: "hi \<le> unat (heap_virt_end h)" and n: "n \<le> s"
    and upper: "2 ^ 63 \<le> lo"
  shows "\<exists>h'. kmalloc_take n a h = Some h' \<and> only_hdrs lo h h' \<and>
     heap_seg h' (Some a) ((if unat n + 56 \<le> unat s then [(a, n, False), (a + 24 + n, s - n - 24, True)]
                  else [(a, s, False)]) @ bs) None"
proof -
  from seg obtain nx where a: "in_heap h a" "hdrs h a = Some \<lparr>bsize = s, bfree = True, bnext = nx\<rparr>"
    and rest: "heap_seg h nx bs None" by auto
  have lo: "lo \<le> unat a" and ch': "chain (unat a + 24 + unat s) bs hi" using ch by auto
  have top: "unat a + 24 + unat s < 2 ^ 64" "unat a + 24 + unat s \<le> unat (heap_virt_end h)"
    using chain_le[OF ch'] hi unat_u64_less[of "heap_virt_end h"] by (simp_all del: unat_u64_less)
  have ns: "unat n \<le> unat s" using n by (simp add: word_le_nat_alt)
  have "unat (n + 24 + 32) = unat n + 56"
    using unat_add_u64[of n 56] ns top lo upper by (simp add: add.assoc)
  then have cond: "s \<ge> n + HEADER_SIZE + MIN_BLOCK \<longleftrightarrow> unat n + 56 \<le> unat s"
    by (simp add: HEADER_SIZE_def MIN_BLOCK_def word_le_nat_alt)
  show ?thesis
  proof (cases "unat n + 56 \<le> unat s")
    case False
    let ?h = "h\<lparr>hdrs := (hdrs h)(a \<mapsto> \<lparr>bsize = s, bfree = False, bnext = nx\<rparr>)\<rparr>"
    have "kmalloc_take n a h = Some ?h" using a cond False by (simp add: kmalloc_take_def)
    moreover have "heap_seg ?h nx bs None" using heap_seg_upd_below[OF rest ch'] by simp
    ultimately show ?thesis using False a lo only_hdrs_upd by (intro exI[of _ ?h]) simp
  next
    case True
    let ?b = "a + 24 + n"
    have b: "unat ?b = unat a + 24 + unat n" using split_arith[OF True top(1)] by simp
    then have inb: "in_heap h ?b" using a(1) True top(2) by (auto simp: in_heap_def)
    have ne: "?b \<noteq> a"
    proof
      assume "?b = a"
      with b show False by simp
    qed
    let ?h = "h\<lparr>hdrs := (hdrs h)(?b \<mapsto> \<lparr>bsize = s - n - 24, bfree = True, bnext = nx\<rparr>,
        a \<mapsto> \<lparr>bsize = n, bfree = False, bnext = Some ?b\<rparr>)\<rparr>"
    have "kmalloc_take n a h = Some ?h"
      using a cond True inb ne by (simp add: kmalloc_take_def HEADER_SIZE_def Let_def)
    moreover have "heap_seg (h\<lparr>hdrs := (hdrs h)(?b \<mapsto> \<lparr>bsize = s - n - 24, bfree = True, bnext = nx\<rparr>)\<rparr>) nx bs None"
      using heap_seg_upd_below[OF rest ch', of ?b] b True by simp
    then have "heap_seg ?h nx bs None" using heap_seg_upd_below[OF _ ch', of _ nx None a] by fastforce
    moreover have "only_hdrs lo h ?h" using b lo by (auto simp: only_hdrs_def)
    ultimately show ?thesis using True a(1) inb ne by (intro exI[of _ ?h]) simp
  qed
qed

lemma kmalloc_search_spec:
  assumes "heap_seg h p bs None" "chain lo bs hi" "hi \<le> unat (heap_virt_end h)" "2 ^ 63 \<le> lo"
  shows "case first_fit n bs of
      None \<Rightarrow> kmalloc_search n p h = Some (None, h)
    | Some (a, bs') \<Rightarrow> \<exists>h'. kmalloc_search n p h = Some (Some (a + 24), h') \<and> only_hdrs lo h h' \<and>
        heap_seg h' p bs' None"
  using assms
proof (induction bs arbitrary: p lo)
  case Nil
  then show ?case by (simp add: kmalloc_search.simps[of n None h])
next
  case (Cons b bs)
  obtain a s f where b: "b = (a, s, f)" by (cases b)
  from Cons.prems(1) obtain nx where p: "p = Some a" and a: "in_heap h a"
      "hdrs h a = Some \<lparr>bsize = s, bfree = f, bnext = nx\<rparr>" and rest: "heap_seg h nx bs None"
    by (auto simp: b)
  have ch': "chain (unat a + 24 + unat s) bs hi" and lo: "lo \<le> unat a" using Cons.prems(2) b by auto
  show ?case
  proof (cases "f \<and> n \<le> s")
    case True
    have "heap_seg h (Some a) ((a, s, True) # bs) None" "chain lo ((a, s, True) # bs) hi"
      using Cons.prems(1,2) True b p by auto
    from kmalloc_take_spec[OF this Cons.prems(3) _ Cons.prems(4)] True obtain h' where
      "kmalloc_take n a h = Some h'" "only_hdrs lo h h'"
      "heap_seg h' (Some a) ((if unat n + 56 \<le> unat s then [(a, n, False), (a + 24 + n, s - n - 24, True)]
                  else [(a, s, False)]) @ bs) None" by blast
    then show ?thesis using True a b p
      by (simp add: kmalloc_search.simps[of n "Some a" h] HEADER_SIZE_def)
  next
    case False
    then have eq: "kmalloc_search n p h = kmalloc_search n nx h"
      using a p by (auto simp: kmalloc_search.simps[of n "Some a" h])
    have "2 ^ 63 \<le> unat a + 24 + unat s" using lo Cons.prems(4) by linarith
    note IH = Cons.IH[OF rest ch' Cons.prems(3) this]
    show ?thesis
    proof (cases "first_fit n bs")
      case None
      then show ?thesis using IH False b eq by auto
    next
      case (Some r)
      obtain x bs' where r: "r = (x, bs')" by (cases r)
      with IH Some obtain h' where h': "kmalloc_search n nx h = Some (Some (x + 24), h')"
        "only_hdrs (unat a + 24 + unat s) h h'" "heap_seg h' nx bs' None" by auto
      have "hdrs h' a = hdrs h a" using h'(2) by (simp add: only_hdrs_def)
      then have "heap_seg h' p ((a, s, f) # bs') None"
        using h' a p only_hdrs_in_heap[OF h'(2)] by auto
      moreover have "only_hdrs lo h h'" using only_hdrs_mono[OF h'(2)] lo by simp
      ultimately show ?thesis using Some r False b eq h'(1) by auto
    qed
  qed
qed

section \<open>Growing the heap\<close>

definition heap_clean :: "vmm \<Rightarrow> bool" where
  "heap_clean v \<longleftrightarrow> (\<forall>a. unat HEAP_VIRT_START \<le> unat a \<longrightarrow> vclean v (table_path a))"

lemma vmm_alloc_page_spec:
  assumes wf: "vm_wf s"
  shows "\<exists>a s'. vmm_alloc_page s = Some (a, s') \<and> vm_wf s' \<and> cr3 s' = cr3 s \<and>
     (a = 0 \<longleftrightarrow> vfree s = {}) \<and> (a = 0 \<longrightarrow> s' = s) \<and>
     (\<forall>p. valid p \<longrightarrow> vclean s' p = vclean s p) \<and>
     (a \<noteq> 0 \<longrightarrow> unat a mod 4096 = 0 \<and> unat a div 4096 \<in> vfree s \<and> vfree s' = vfree s - {unat a div 4096})"
proof (cases "vfree s = {}")
  case True
  then show ?thesis
    using pmm_alloc_page_none[of "pm s"] wf by (simp add: vmm_alloc_page_def vm_wf_def)
next
  case False
  have pwf: "pmm_wf (pm s)" and mx: "unat (max_page_index (pm s)) \<le> 2 ^ 40"
    and disj: "vtables s \<inter> vfree s = {}" and inj: "tables_inj (mem s) (pml4_frame s)"
    and off: "voff s = hhdm_offset (pm s)" using wf by (auto simp: vm_wf_def)
  define n where "n = Min (vfree s)"
  have nin: "n \<in> vfree s" using False by (simp add: n_def)
  then have nb: "n < 2 ^ 40" using free_frames_less[OF nin] mx by simp
  from pmm_alloc_page_full[OF pwf False, folded n_def] obtain p1 where
    al: "pmm_alloc_page (pm s) = Some (of_nat n * 4096, p1)" and
    p1: "pmm_wf p1" "free_frames p1 = vfree s - {n}" "max_page_index p1 = max_page_index (pm s)"
      "hhdm_offset p1 = hhdm_offset (pm s)"
      "ram p1 = (\<lambda>x. if n * 4096 \<le> unat x \<and> unat x < n * 4096 + 4096 then 0 else mem s x)"
    by blast
  have nz: "of_nat n * 4096 \<noteq> (0 :: u64)" using fa.alloc_zero_iff[OF pwf al] False by simp
  have un: "unat (of_nat n * 4096 :: u64) = n * 4096" using nb by (simp add: frame_address)
  let ?s = "s\<lparr>pm := p1\<rparr>"
  have root: "pml4_frame ?s = pml4_frame s" by (simp add: pml4_frame_def)
  have same: "same_tables (mem s) (mem ?s) (pml4_frame s)"
  proof (rule same_tables_outside[OF pml4_frame_bound])
    fix x :: u64 assume "unat x div 4096 \<in> vtables s"
    then have "unat x div 4096 \<noteq> n" using disj nin by blast
    then show "mem ?s x = mem s x" by (auto simp: p1(5))
  qed
  have "vm_wf ?s"
    unfolding vm_wf_def root tables_cong[OF same] tables_inj_cong[OF same]
    using p1 mx disj inj off by auto
  moreover have "\<forall>p. valid p \<longrightarrow> vclean ?s p = vclean s p"
    unfolding root using clean_cong[OF same] by blast
  ultimately show ?thesis
    using al nz False un nin p1(2) by (intro exI[of _ "of_nat n * 4096"] exI[of _ ?s]) (simp add: vmm_alloc_page_def)
qed

lemma heap_grow_spec:
  assumes "vm_wf (vm h)" "heap_clean (vm h)" "unat HEAP_VIRT_START \<le> unat (heap_virt_end h)"
    "unat (heap_virt_end h) + n * 4096 < 2 ^ 64"
  shows "\<exists>r k v. heap_grow n h = Some (r, h\<lparr>vm := v, heap_virt_end := heap_virt_end h + of_nat k * 4096\<rparr>) \<and>
     vm_wf v \<and> heap_clean v \<and> k \<le> n \<and> (r = 0 \<longrightarrow> k = n) \<and> (r \<noteq> 0 \<longrightarrow> r = - 1 \<and> vfree v = {})"
  using assms
proof (induction n arbitrary: h)
  case 0
  then show ?case by (intro exI[of _ 0] exI[of _ "vm h"]) simp
next
  case (Suc n)
  from vmm_alloc_page_spec[OF Suc.prems(1)] obtain a v1 where
    v1: "vmm_alloc_page (vm h) = Some (a, v1)" "vm_wf v1" "a = 0 \<longleftrightarrow> vfree (vm h) = {}"
      "a = 0 \<longrightarrow> v1 = vm h" "\<forall>p. valid p \<longrightarrow> vclean v1 p = vclean (vm h) p" by blast
  show ?case
  proof (cases "a = 0")
    case True
    then show ?thesis using v1 Suc.prems
      by (intro exI[of _ "- 1"] exI[of _ 0] exI[of _ v1]) simp
  next
    case False
    have "vclean v1 (table_path (heap_virt_end h))"
      using v1(5) Suc.prems(2,3) by (simp add: heap_clean_def)
    from map_page_lookup[OF v1(2) this, of a "PAGE_PRESENT OR PAGE_WRITABLE OR PAGE_NX"]
    obtain v2 where v2: "vmm_map_page (heap_virt_end h) a (PAGE_PRESENT OR PAGE_WRITABLE OR PAGE_NX) v1 = Some v2"
      "vm_wf v2" "\<forall>p. valid p \<longrightarrow> vclean v1 p \<longrightarrow> vclean v2 p" by blast
    let ?h = "h\<lparr>vm := v2, heap_virt_end := heap_virt_end h + 4096\<rparr>"
    have e: "unat (heap_virt_end h + 4096) = unat (heap_virt_end h) + 4096"
      using unat_add_u64[of "heap_virt_end h" 4096] Suc.prems(4) by simp
    have "heap_clean (vm ?h)" using v1(5) v2(3) Suc.prems(2) by (simp add: heap_clean_def)
    then obtain r k v where IH: "heap_grow n ?h =
        Some (r, ?h\<lparr>vm := v, heap_virt_end := heap_virt_end ?h + of_nat k * 4096\<rparr>)"
      "vm_wf v" "heap_clean v" "k \<le> n" "r = 0 \<longrightarrow> k = n" "r \<noteq> 0 \<longrightarrow> r = - 1 \<and> vfree v = {}"
      using Suc.IH[of ?h] v2(2) Suc.prems(3,4) e by auto
    have "heap_grow (Suc n) h = Some (r, h\<lparr>vm := v, heap_virt_end := heap_virt_end h + of_nat (Suc k) * 4096\<rparr>)"
      using v1(1) v2(1) False IH(1) by (simp add: algebra_simps)
    with IH show ?thesis by (intro exI[of _ r] exI[of _ "Suc k"] exI[of _ v]) simp
  qed
qed

lemma heap_append_spec:
  assumes "heap_seg h (Some p) bs None" "chain lo bs hi" "in_heap h p" "hi \<le> unat new"
  shows "\<exists>h'. heap_append p new h = Some h' \<and> (\<exists>x. h' = h\<lparr>hdrs := x\<rparr>) \<and> heap_seg h' (Some p) bs (Some new) \<and>
    (\<forall>a. unat a < lo \<or> hi \<le> unat a \<longrightarrow> hdrs h' a = hdrs h a)"
  using assms
proof (induction bs arbitrary: p lo)
  case (Cons b bs)
  obtain a s f where b: "b = (a, s, f)" by (cases b)
  from Cons.prems(1) obtain nx where p: "p = a" and a: "in_heap h a"
      "hdrs h a = Some \<lparr>bsize = s, bfree = f, bnext = nx\<rparr>" and rest: "heap_seg h nx bs None"
    by (auto simp: b)
  have lo: "lo \<le> unat a" and ch': "chain (unat a + 24 + unat s) bs hi" using Cons.prems(2) b by auto
  have ahi: "unat a + 24 + unat s \<le> hi" using chain_le[OF ch'] .
  show ?case
  proof (cases nx)
    case None
    then have bs: "bs = []" using rest by (cases bs) auto
    let ?h = "h\<lparr>hdrs := (hdrs h)(a \<mapsto> \<lparr>bsize = s, bfree = f, bnext = Some new\<rparr>)\<rparr>"
    have "heap_append p new h = Some ?h"
      using a p None by (simp add: heap_append.simps[of a new h])
    then show ?thesis using a p b bs lo ahi by (intro exI[of _ ?h]) auto
  next
    case (Some c)
    then have c: "in_heap h c" using rest by (cases bs) auto
    from Cons.IH[OF rest[unfolded Some] ch' c Cons.prems(4)] obtain h' where
      h': "heap_append c new h = Some h'" "\<exists>x. h' = h\<lparr>hdrs := x\<rparr>" "heap_seg h' (Some c) bs (Some new)"
      "\<forall>x. unat x < unat a + 24 + unat s \<or> hi \<le> unat x \<longrightarrow> hdrs h' x = hdrs h x" by blast
    have "heap_append p new h = Some h'"
      using a p Some h'(1) by (simp add: heap_append.simps[of a new h])
    moreover have "hdrs h' a = hdrs h a" "in_heap h' a" using h'(2,4) a(1) by auto
    ultimately show ?thesis using h' a(2) p b Some lo by (intro exI[of _ h']) auto
  qed
qed simp

section \<open>The invariant and kmalloc\<close>

definition heap_wf :: "heap \<Rightarrow> blk list \<Rightarrow> bool" where
  "heap_wf h bs \<longleftrightarrow> heap_seg h (heap_start h) bs None \<and> bs \<noteq> [] \<and>
     chain (unat (heap_virt_base h)) bs (unat (heap_virt_end h)) \<and>
     unat HEAP_VIRT_START \<le> unat (heap_virt_base h) \<and> vm_wf (vm h) \<and> heap_clean (vm h)"

lemma heap_wf_upper: "heap_wf h bs \<Longrightarrow> 2 ^ 63 \<le> unat (heap_virt_base h)"
  by (simp add: heap_wf_def HEAP_VIRT_START_def)

lemma heap_wf_end: "heap_wf h bs \<Longrightarrow> unat HEAP_VIRT_START \<le> unat (heap_virt_end h)"
  using chain_le by (fastforce simp: heap_wf_def)

lemma align16_unat:
  assumes "unat n + 15 < 2 ^ 64"
  shows "unat (align16 n) = (unat n + 15) div 16 * 16"
proof -
  have m: "(15 :: u64) = mask 4" by (simp add: mask_eq_exp_minus_1)
  have "align16 n = push_bit 4 (drop_bit 4 (n + 15))"
    unfolding align16_def m by (rule bit_word_eqI) (auto simp: bit_simps)
  then have "align16 n = (n + 15) div 16 * 16"
    by (simp add: push_bit_eq_mult drop_bit_eq_div)
  moreover have d: "unat ((n + 15) div 16) = (unat n + 15) div 16"
    using unat_add_u64[of n 15] assms by (simp add: unat_div_distrib)
  moreover have "unat ((n + 15) div 16 * 16) = unat ((n + 15) div 16) * 16"
    by (rule unat_mult_lem[THEN iffD1, of _ "16 :: u64", simplified]) (use d assms in simp)
  ultimately show ?thesis by simp
qed

lemma align16_ge: "unat n + 15 < 2 ^ 64 \<Longrightarrow> unat n \<le> unat (align16 n) \<and> unat (align16 n) \<le> unat n + 15"
  by (simp add: align16_unat)

lemma align16_idem: "unat n + 30 < 2 ^ 64 \<Longrightarrow> align16 (align16 n) = align16 n"
proof -
  assume a: "unat n + 30 < 2 ^ 64"
  then have "unat (align16 n) = (unat n + 15) div 16 * 16" by (simp add: align16_unat)
  moreover from this have "unat (align16 (align16 n)) = (unat (align16 n) + 15) div 16 * 16"
    using a by (intro align16_unat) simp
  ultimately have "unat (align16 (align16 n)) = unat (align16 n)" by simp
  then show ?thesis by (rule unsigned_word_eqI)
qed

text \<open>A successful search.\<close>

lemma search_wf:
  assumes wf: "heap_wf h bs" and ff: "first_fit n bs = Some (a, bs')"
  shows "\<exists>h'. kmalloc_search n (heap_start h) h = Some (Some (a + 24), h') \<and> heap_wf h' bs' \<and>
    only_hdrs 0 h h'"
proof -
  have ch: "chain (unat (heap_virt_base h)) bs (unat (heap_virt_end h))"
    and seg: "heap_seg h (heap_start h) bs None" using wf by (auto simp: heap_wf_def)
  from kmalloc_search_spec[OF seg ch order_refl heap_wf_upper[OF wf], of n] ff obtain h' where
    h': "kmalloc_search n (heap_start h) h = Some (Some (a + 24), h')"
      "only_hdrs (unat (heap_virt_base h)) h h'" "heap_seg h' (heap_start h) bs' None" by auto
  have "chain (unat (heap_virt_base h)) bs' (unat (heap_virt_end h))"
    using first_fit_chain[OF ch _ ff] by simp
  moreover have "bs' \<noteq> []" using first_fit_allocated[OF ff] by auto
  moreover obtain x where "h' = h\<lparr>hdrs := x\<rparr>" using h'(2) by (auto simp: only_hdrs_def)
  ultimately have "heap_wf h' bs'" using h'(3) wf by (simp add: heap_wf_def)
  with h' show ?thesis using only_hdrs_mono by blast
qed

lemma grow_pages:
  fixes n :: u64
  assumes "unat n < 2 ^ 62"
  defines "pages0 \<equiv> (n + HEADER_SIZE + 4095) div 4096"
  defines "pages \<equiv> if pages0 < 4 then 4 else pages0"
  shows "unat n + 24 \<le> unat pages * 4096" "unat pages * 4096 \<le> unat n + 20480" "1 \<le> unat pages"
    "unat (pages * 4096) = unat pages * 4096"
proof -
  have "unat (n + 24 + 4095) = unat n + 4119"
    using unat_add_u64[of n 24] unat_add_u64[of "n + 24" 4095] assms(1) by simp
  then have p0: "unat pages0 = (unat n + 4119) div 4096"
    by (simp add: pages0_def HEADER_SIZE_def unat_div_4096)
  have p: "unat pages = (if unat pages0 < 4 then 4 else unat pages0)"
    by (simp add: pages_def word_less_nat_alt)
  then show 1: "unat n + 24 \<le> unat pages * 4096" "unat pages * 4096 \<le> unat n + 20480" "1 \<le> unat pages"
    using p0 by auto
  have "unat pages < 2 ^ 52" using 1(2) assms(1) by simp
  from frame_address[OF this] show "unat (pages * 4096) = unat pages * 4096" by simp
qed

lemma kmalloc_grow_spec:
  assumes wf: "heap_wf h bs" and room: "unat (heap_virt_end h) + unat n + 20480 < 2 ^ 64"
  shows "\<exists>ok h'. kmalloc_grow n h = Some (ok, h') \<and>
     (if ok then \<exists>s. heap_wf h' (bs @ [(heap_virt_end h, s, True)]) \<and> n \<le> s
      else heap_wf h' bs \<and> vfree (vm h') = {}) \<and>
     unat (heap_virt_end h') \<le> unat (heap_virt_end h) + unat n + 20480"
proof -
  have E: "unat HEAP_VIRT_START \<le> unat (heap_virt_end h)" using heap_wf_end[OF wf] .
  then have nb: "unat n < 2 ^ 62" using room by (simp add: HEAP_VIRT_START_def)
  define pages where "pages = (if (n + HEADER_SIZE + 4095) div 4096 < 4 then 4
    else (n + HEADER_SIZE + 4095) div 4096)"
  note gp = grow_pages[OF nb, folded pages_def]
  have vw: "vm_wf (vm h)" "heap_clean (vm h)" using wf by (auto simp: heap_wf_def)
  have seg: "heap_seg h (heap_start h) bs None"
    and ch: "chain (unat (heap_virt_base h)) bs (unat (heap_virt_end h))"
    and be: "unat HEAP_VIRT_START \<le> unat (heap_virt_base h)" and ne: "bs \<noteq> []"
    using wf by (auto simp: heap_wf_def)
  have "unat (heap_virt_end h) + unat pages * 4096 < 2 ^ 64" using gp(2) room by simp
  from heap_grow_spec[OF vw E this] obtain r k v where
    g: "heap_grow (unat pages) h = Some (r, h\<lparr>vm := v, heap_virt_end := heap_virt_end h + of_nat k * 4096\<rparr>)"
    "vm_wf v" "heap_clean v" "k \<le> unat pages" "r = 0 \<longrightarrow> k = unat pages" "r \<noteq> 0 \<longrightarrow> r = - 1 \<and> vfree v = {}"
    by blast
  let ?h1 = "h\<lparr>vm := v, heap_virt_end := heap_virt_end h + of_nat k * 4096\<rparr>"
  have k52: "k < 2 ^ 52" using g(4) gp(2) nb by simp
  have e1: "unat (heap_virt_end ?h1) = unat (heap_virt_end h) + k * 4096"
  proof -
    have "unat (of_nat k * 4096 :: u64) = k * 4096" using frame_address[OF k52] .
    then show ?thesis using unat_add_u64[of "heap_virt_end h" "of_nat k * 4096"] g(4) gp(2) room by simp
  qed
  have ub: "unat (heap_virt_end ?h1) \<le> unat (heap_virt_end h) + unat n + 20480"
    unfolding e1 using g(4) gp(2) by linarith
  have in1: "in_heap h a \<longrightarrow> in_heap ?h1 a" for a using e1 by (auto simp: in_heap_def)
  have seg1: "heap_seg ?h1 (heap_start h) bs None"
    by (rule heap_seg_cong[OF seg]) (use in1 in auto)
  have wf1: "heap_wf ?h1 bs"
    using seg1 ne chain_weaken[OF ch order_refl] e1 be g(2,3) by (simp add: heap_wf_def)
  show ?thesis
  proof (cases "r = 0")
    case False
    then have "kmalloc_grow n h = Some (False, ?h1)"
      using g(1) by (simp add: kmalloc_grow_def pages_def[symmetric] Let_def)
    then show ?thesis using wf1 False g(6) ub by auto
  next
    case True
    then have k: "k = unat pages" using g(5) by simp
    let ?new = "heap_virt_end h" and ?s = "pages * 4096 - HEADER_SIZE"
    have inn: "in_heap ?h1 ?new"
      using e1 k gp(3) chain_le[OF ch] by (auto simp: in_heap_def)
    let ?b = "\<lparr>bsize = ?s, bfree = True, bnext = None\<rparr>"
    let ?h3 = "?h1\<lparr>hdrs := (hdrs h)(?new \<mapsto> ?b), heap_total_size := heap_total_size h + pages * 4096\<rparr>"
    have us: "unat ?s = unat pages * 4096 - 24"
      using unat_sub_u64[of 24 "pages * 4096"] gp by (simp add: HEADER_SIZE_def)
    have in3: "in_heap ?h3 a = in_heap ?h1 a" for a by (simp add: in_heap_def)
    have seg3: "heap_seg ?h3 (heap_start h) bs None"
    proof (rule heap_seg_cong[OF seg1])
      fix a s f assume "(a, s, f) \<in> set bs"
      from chain_bounds[OF ch this] have "a \<noteq> ?new" by auto
      then show "hdrs ?h3 a = hdrs ?h1 a \<and> (in_heap ?h1 a \<longrightarrow> in_heap ?h3 a)" using in3 by simp
    qed
    obtain a0 where a0: "heap_start h = Some a0" "in_heap ?h3 a0"
      using seg3 ne by (cases bs) auto
    from heap_append_spec[OF seg3[unfolded a0(1)] ch a0(2) order_refl] obtain h4 where
      h4: "heap_append a0 ?new ?h3 = Some h4" "\<exists>x. h4 = ?h3\<lparr>hdrs := x\<rparr>" "heap_seg h4 (Some a0) bs (Some ?new)"
      "\<forall>a. unat a < unat (heap_virt_base h) \<or> unat (heap_virt_end h) \<le> unat a \<longrightarrow> hdrs h4 a = hdrs ?h3 a" by blast
    then obtain x where x: "h4 = ?h3\<lparr>hdrs := x\<rparr>" by blast
    have "hdrs h4 ?new = Some ?b" using h4(4) by simp
    moreover have "in_heap h4 ?new" using inn by (simp add: x in_heap_def)
    ultimately have segn: "heap_seg h4 (heap_start h4) (bs @ [(?new, ?s, True)]) None"
      using h4(3) a0(1) by (simp add: heap_seg_append x)
    have "chain (unat (heap_virt_base h)) (bs @ [(?new, ?s, True)]) (unat (heap_virt_end ?h1))"
      using ch us e1 k gp(1) unfolding chain_append by auto
    then have "heap_wf h4 (bs @ [(?new, ?s, True)])"
      using segn be g(2,3) by (simp add: heap_wf_def x)
    moreover have "n \<le> ?s" using us gp(1) by (simp add: word_le_nat_alt)
    moreover have "kmalloc_grow n h = Some (True, h4)"
      using g(1) True h4(1) a0(1) inn
      by (simp add: kmalloc_grow_def pages_def[symmetric] Let_def)
    moreover have "heap_virt_end h4 = heap_virt_end ?h1" by (simp add: x)
    ultimately show ?thesis using ub by auto
  qed
qed

lemma kmalloc_spec_end:
  assumes wf: "heap_wf h bs" and n: "n \<noteq> 0" and room: "unat (heap_virt_end h) + unat n + 20510 < 2 ^ 64"
  shows "\<exists>r h' bs'. kmalloc n h = Some (r, h') \<and> heap_wf h' bs' \<and>
    (case r of
       None \<Rightarrow> allocated bs' = allocated bs \<and> vfree (vm h') = {}
     | Some p \<Rightarrow> \<exists>a s. p = a + 24 \<and> unat n \<le> unat s \<and> allocated bs' = insert (a, s) (allocated bs) \<and>
         (\<forall>s'. (a, s') \<notin> allocated bs)) \<and>
    unat (heap_virt_end h') \<le> unat (heap_virt_end h) + unat n + 20510"
proof -
  have bound: "unat n + 30 < 2 ^ 64" using room by simp
  then have n1: "unat n \<le> unat (align16 n)" "unat (align16 n) \<le> unat n + 15"
    using align16_ge[of n] by simp_all
  have take: "\<exists>s. unat n \<le> unat s \<and> allocated bs2 = insert (a, s) (allocated bs1) \<and> (\<forall>s'. (a, s') \<notin> allocated bs1)"
    if ff: "first_fit (align16 n) bs1 = Some (a, bs2)" and wf1: "heap_wf h1 bs1" for a bs1 bs2 h1
  proof -
    from first_fit_allocated[OF ff] obtain s t where st: "align16 n \<le> s" "(a, t, True) \<in> set bs1" "s \<le> t"
      "allocated bs2 = insert (a, s) (allocated bs1)" by blast
    have "(a, s', False) \<notin> set bs1" for s'
    proof
      assume "(a, s', False) \<in> set bs1"
      with chain_disjoint[of _ bs1 _ a s' False a t True] wf1 st(2) show False
        by (auto simp: heap_wf_def)
    qed
    then have "\<forall>s'. (a, s') \<notin> allocated bs1" by (auto simp: allocated_def)
    moreover have "unat n \<le> unat s" using st(1) n1(1) by (simp add: word_le_nat_alt)
    ultimately show ?thesis using st(4) by blast
  qed
  have found: "\<exists>r h' bs'. kmalloc m h1 = Some (r, h') \<and> heap_wf h' bs' \<and>
      (\<exists>a s. r = Some (a + 24) \<and> unat n \<le> unat s \<and> allocated bs' = insert (a, s) (allocated bs1) \<and>
         (\<forall>s'. (a, s') \<notin> allocated bs1)) \<and> heap_virt_end h' = heap_virt_end h1"
    if ff: "first_fit (align16 n) bs1 = Some (a, bs2)" and wf1: "heap_wf h1 bs1"
      and m: "align16 m = align16 n" "m \<noteq> 0" for a bs1 bs2 h1 m
  proof -
    from search_wf[OF wf1 ff] obtain h' where
      "kmalloc_search (align16 n) (heap_start h1) h1 = Some (Some (a + 24), h')" "heap_wf h' bs2"
      "only_hdrs 0 h1 h'" by blast
    moreover from this(3) have "heap_virt_end h' = heap_virt_end h1" by (auto simp: only_hdrs_def)
    moreover from calculation(1) have "kmalloc m h1 = Some (Some (a + 24), h')"
      using m by (simp add: kmalloc.simps[of m h1])
    ultimately show ?thesis using take[OF ff wf1] by blast
  qed
  show ?thesis
  proof (cases "first_fit (align16 n) bs")
    case (Some r)
    then obtain a bs2 where "first_fit (align16 n) bs = Some (a, bs2)" by (cases r) auto
    from found[OF this wf refl n] show ?thesis by fastforce
  next
    case None
    have seg: "heap_seg h (heap_start h) bs None"
      "chain (unat (heap_virt_base h)) bs (unat (heap_virt_end h))" using wf by (auto simp: heap_wf_def)
    from kmalloc_search_spec[OF seg order_refl heap_wf_upper[OF wf], of "align16 n"] None
    have s0: "kmalloc_search (align16 n) (heap_start h) h = Some (None, h)" by simp
    have "unat (heap_virt_end h) + unat (align16 n) + 20480 < 2 ^ 64" using n1(2) room by simp
    from kmalloc_grow_spec[OF wf this] obtain ok h2 where
      g: "kmalloc_grow (align16 n) h = Some (ok, h2)"
        "if ok then \<exists>s. heap_wf h2 (bs @ [(heap_virt_end h, s, True)]) \<and> align16 n \<le> s
         else heap_wf h2 bs \<and> vfree (vm h2) = {}"
        "unat (heap_virt_end h2) \<le> unat (heap_virt_end h) + unat (align16 n) + 20480" by blast
    have km: "kmalloc n h = (if \<not> ok then Some (None, h2) else kmalloc (align16 n) h2)"
      using n s0 g(1) by (simp add: kmalloc.simps[of n h] Let_def)
    show ?thesis
    proof (cases ok)
      case False
      then show ?thesis using g(2,3) n1(2) km by auto
    next
      case True
      then obtain s where s: "heap_wf h2 (bs @ [(heap_virt_end h, s, True)])" "align16 n \<le> s"
        using g(2) by auto
      have "first_fit (align16 n) (bs @ [(heap_virt_end h, s, True)]) \<noteq> None"
        using s(2) unfolding first_fit_None by (auto simp: not_less)
      then obtain a bs2 where ff: "first_fit (align16 n) (bs @ [(heap_virt_end h, s, True)]) = Some (a, bs2)"
        by fastforce
      have nz: "align16 n \<noteq> 0"
      proof
        assume "align16 n = 0"
        then have "unat n = 0" using n1(1) by simp
        with n show False by (simp add: unat_eq_0)
      qed
      from found[OF ff s(1) align16_idem[OF bound] nz] km True g(3) n1(2) show ?thesis by fastforce
    qed
  qed
qed

lemma kmalloc_spec:
  assumes wf: "heap_wf h bs" and n: "n \<noteq> 0" and room: "unat (heap_virt_end h) + unat n + 20510 < 2 ^ 64"
  shows "\<exists>r h' bs'. kmalloc n h = Some (r, h') \<and> heap_wf h' bs' \<and>
    (case r of
       None \<Rightarrow> allocated bs' = allocated bs \<and> vfree (vm h') = {}
     | Some p \<Rightarrow> \<exists>a s. p = a + 24 \<and> unat n \<le> unat s \<and> allocated bs' = insert (a, s) (allocated bs) \<and>
         (\<forall>s'. (a, s') \<notin> allocated bs))"
  using kmalloc_spec_end[OF assms] by blast

section \<open>Coalescing\<close>

function coal :: "blk list \<Rightarrow> blk list" where
  "coal [] = []"
| "coal [b] = [b]"
| "coal ((a, s, f) # (b, t, g) # bs) =
     (if f \<and> g then coal ((a, s + (24 + t), True) # bs) else (a, s, f) # coal ((b, t, g) # bs))"
  by pat_completeness auto
termination
  by (relation "measure length") auto

fun coalesced :: "blk list \<Rightarrow> bool" where
  "coalesced ((a, s, f) # (b, t, g) # bs) \<longleftrightarrow> \<not> (f \<and> g) \<and> coalesced ((b, t, g) # bs)"
| "coalesced _ \<longleftrightarrow> True"

lemma coal_hd: "bs \<noteq> [] \<Longrightarrow> \<exists>s f bs'. coal bs = (fst (hd bs), s, f) # bs' \<and> (f \<longleftrightarrow> snd (snd (hd bs)))"
  by (induction bs rule: coal.induct) auto

lemma coal_coalesced: "coalesced (coal bs)"
proof (induction bs rule: coal.induct)
  case (3 a s f b t g bs)
  show ?case
  proof (cases "f \<and> g")
    case False
    moreover obtain s' f' bs' where "coal ((b, t, g) # bs) = (b, s', f') # bs'" "f' = g"
      using coal_hd[of "(b, t, g) # bs"] by auto
    ultimately show ?thesis using 3 by auto
  qed (use 3 in simp)
qed (auto split: prod.splits)

lemma coal_allocated: "allocated (coal bs) = allocated bs"
  by (induction bs rule: coal.induct) auto

lemma merge_arith:
  fixes a b s t :: u64
  assumes "unat a + 24 + unat s \<le> unat b" "unat b + 24 + unat t < 2 ^ 64"
  shows "unat (s + (24 + t)) = unat s + 24 + unat t"
proof -
  have "unat (24 + t) = 24 + unat t" using unat_add_u64[of 24 t] assms by simp
  then show ?thesis using unat_add_u64[of s "24 + t"] assms by simp
qed

lemma chain_merge:
  assumes "chain lo ((a, s, f) # (b, t, g) # bs) hi" "hi < 2 ^ 64"
  shows "chain lo ((a, s + (24 + t), True) # bs) hi"
    "unat (s + (24 + t)) = unat s + 24 + unat t"
proof -
  have c: "lo \<le> unat a" "unat a + 24 + unat s \<le> unat b" "chain (unat b + 24 + unat t) bs hi"
    using assms(1) by auto
  have "unat b + 24 + unat t < 2 ^ 64" using chain_le[OF c(3)] assms(2) by simp
  from merge_arith[OF c(2) this] show u: "unat (s + (24 + t)) = unat s + 24 + unat t" .
  show "chain lo ((a, s + (24 + t), True) # bs) hi"
    using c(1) chain_weaken[OF c(3), of "unat a + 24 + unat (s + (24 + t))" hi] c(2) u by simp
qed

lemma coal_chain: "chain lo bs hi \<Longrightarrow> hi < 2 ^ 64 \<Longrightarrow> chain lo (coal bs) hi"
proof (induction bs arbitrary: lo rule: coal.induct)
  case (3 a s f b t g bs)
  show ?case
  proof (cases "f \<and> g")
    case True
    then show ?thesis using 3(1)[OF True chain_merge(1)[OF 3(3,4)] 3(4)] by simp
  next
    case False
    have "lo \<le> unat a" "chain (unat a + 24 + unat s) ((b, t, g) # bs) hi" using 3(3) by auto
    then show ?thesis using 3(2)[OF False _ 3(4)] False by auto
  qed
qed auto

lemma coal_total:
  "chain lo bs hi \<Longrightarrow> hi < 2 ^ 64 \<Longrightarrow>
   (\<Sum>(a, s, f) \<leftarrow> coal bs. unat s + 24) = (\<Sum>(a, s, f) \<leftarrow> bs. unat s + 24)"
proof (induction bs arbitrary: lo rule: coal.induct)
  case (3 a s f b t g bs)
  show ?case
  proof (cases "f \<and> g")
    case True
    then show ?thesis using 3(1)[OF True chain_merge(1)[OF 3(3,4)] 3(4)] chain_merge(2)[OF 3(3,4)] by simp
  next
    case False
    have "chain (unat a + 24 + unat s) ((b, t, g) # bs) hi" using 3(3) by auto
    then show ?thesis using 3(2)[OF False _ 3(4)] False by auto
  qed
qed auto

lemma coalesce_spec:
  assumes "heap_seg h p bs None" "chain lo bs hi" "hi < 2 ^ 64"
  shows "\<exists>h'. coalesce p h = Some h' \<and> only_hdrs lo h h' \<and> heap_seg h' p (coal bs) None"
  using assms
proof (induction bs arbitrary: h p lo rule: coal.induct)
  case 1
  then show ?case by (simp add: coalesce.simps[of None h])
next
  case (2 b)
  obtain a s f where b: "b = (a, s, f)" by (cases b)
  with 2 have p: "p = Some a" "in_heap h a" "hdrs h a = Some \<lparr>bsize = s, bfree = f, bnext = None\<rparr>" by auto
  then have "coalesce p h = Some h"
    by (simp add: coalesce.simps[of "Some a" h] coalesce.simps[of None h])
  then show ?case using 2 by auto
next
  case (3 a s f b t g bs)
  from 3(3) obtain nx where p: "p = Some a" "in_heap h a"
      "hdrs h a = Some \<lparr>bsize = s, bfree = f, bnext = Some b\<rparr>" "in_heap h b"
      "hdrs h b = Some \<lparr>bsize = t, bfree = g, bnext = nx\<rparr>" and rest: "heap_seg h nx bs None"
    by auto
  have lo: "lo \<le> unat a" and ch1: "chain (unat a + 24 + unat s) ((b, t, g) # bs) hi" using 3(4) by auto
  show ?case
  proof (cases "f \<and> g")
    case True
    let ?h = "h\<lparr>hdrs := (hdrs h)(a \<mapsto> \<lparr>bsize = s + (24 + t), bfree = True, bnext = nx\<rparr>)\<rparr>"
    have eq: "coalesce p h = coalesce (Some a) ?h"
      using p True by (simp add: coalesce.simps[of "Some a" h] HEADER_SIZE_def)
    have "chain (unat b + 24 + unat t) bs hi" "unat a < unat b + 24 + unat t" using ch1 by auto
    from heap_seg_upd_below[OF rest this]
    have "heap_seg ?h (Some a) ((a, s + (24 + t), True) # bs) None" using p(2) by simp
    from 3(1)[OF True this chain_merge(1)[OF 3(4,5)] 3(5)] obtain h' where
      "coalesce (Some a) ?h = Some h'" "only_hdrs lo ?h h'" "heap_seg h' (Some a) (coal ((a, s + (24 + t), True) # bs)) None"
      by blast
    then show ?thesis using True p(1) eq only_hdrs_trans[OF only_hdrs_upd[OF lo]] by auto
  next
    case False
    have eq: "coalesce p h = coalesce (Some b) h"
      using p False by (cases f) (auto simp: coalesce.simps[of "Some a" h])
    have "heap_seg h (Some b) ((b, t, g) # bs) None" using p rest by simp
    from 3(2)[OF False this ch1 3(5)] obtain h' where
      h': "coalesce (Some b) h = Some h'" "only_hdrs (unat a + 24 + unat s) h h'"
        "heap_seg h' (Some b) (coal ((b, t, g) # bs)) None" by blast
    have "hdrs h' a = hdrs h a" using h'(2) by (simp add: only_hdrs_def)
    then have "heap_seg h' p ((a, s, f) # coal ((b, t, g) # bs)) None"
      using h'(3) p only_hdrs_in_heap[OF h'(2)] by auto
    then show ?thesis using False eq h'(1) only_hdrs_mono[OF h'(2)] lo by auto
  qed
qed

lemma heap_seg_mark:
  assumes "heap_seg h p (xs @ (a, s, f) # ys) e" "chain lo (xs @ (a, s, f) # ys) hi"
  obtains nx where "in_heap h a" "hdrs h a = Some \<lparr>bsize = s, bfree = f, bnext = nx\<rparr>"
    "heap_seg (h\<lparr>hdrs := (hdrs h)(a \<mapsto> \<lparr>bsize = s, bfree = f', bnext = nx\<rparr>)\<rparr>) p (xs @ (a, s, f') # ys) e"
proof -
  from assms(1) obtain nx where 1: "heap_seg h p xs (Some a)" "in_heap h a"
    "hdrs h a = Some \<lparr>bsize = s, bfree = f, bnext = nx\<rparr>" "heap_seg h nx ys e"
    by (auto simp: heap_seg_append)
  from assms(2) obtain m where m: "chain lo xs m" "m \<le> unat a" "chain (unat a + 24 + unat s) ys hi"
    by (auto simp: chain_append)
  let ?h = "h\<lparr>hdrs := (hdrs h)(a \<mapsto> \<lparr>bsize = s, bfree = f', bnext = nx\<rparr>)\<rparr>"
  have "heap_seg ?h nx ys e" using heap_seg_upd_below[OF 1(4) m(3)] by simp
  moreover have "heap_seg ?h p xs (Some a)"
  proof (rule heap_seg_cong[OF 1(1)])
    fix b t g assume "(b, t, g) \<in> set xs"
    from chain_bounds[OF m(1) this] m(2) have "b \<noteq> a" by auto
    then show "hdrs ?h b = hdrs h b \<and> (in_heap h b \<longrightarrow> in_heap ?h b)" by simp
  qed
  ultimately have "heap_seg ?h p (xs @ (a, s, f') # ys) e" using 1(2) by (auto simp: heap_seg_append)
  with 1 that show thesis by blast
qed

lemma chain_mark: "chain lo (xs @ (a, s, f) # ys) hi = chain lo (xs @ (a, s, f') # ys) hi"
  by (simp add: chain_append)

lemma allocated_once:
  assumes "chain lo (xs @ (a, s, False) # ys) hi"
  shows "(a, t) \<notin> allocated xs" "(a, t) \<notin> allocated ys"
proof -
  from assms obtain m where m: "chain lo xs m" "m \<le> unat a" "chain (unat a + 24 + unat s) ys hi"
    by (auto simp: chain_append)
  show "(a, t) \<notin> allocated xs" using chain_bounds[OF m(1), of a t False] m(2) by (auto simp: allocated_def)
  show "(a, t) \<notin> allocated ys" using chain_bounds[OF m(3), of a t False] by (auto simp: allocated_def)
qed

lemma kfree_spec:
  assumes wf: "heap_wf h bs" and al: "(a, s) \<in> allocated bs"
  shows "\<exists>h' bs'. kfree (Some (a + 24)) h = Some h' \<and> heap_wf h' bs' \<and>
    allocated bs' = allocated bs - {(a, s)} \<and> coalesced bs' \<and> (\<exists>x. h' = h\<lparr>hdrs := x\<rparr>) \<and>
    (\<Sum>(a, s, f) \<leftarrow> bs'. unat s + 24) = (\<Sum>(a, s, f) \<leftarrow> bs. unat s + 24)"
proof -
  obtain xs ys where bs: "bs = xs @ (a, s, False) # ys"
    using al by (auto simp: allocated_def dest: split_list)
  let ?bs = "xs @ (a, s, True) # ys"
  have seg: "heap_seg h (heap_start h) bs None"
    and ch: "chain (unat (heap_virt_base h)) bs (unat (heap_virt_end h))" using wf by (auto simp: heap_wf_def)
  from heap_seg_mark[OF seg[unfolded bs] ch[unfolded bs], where f' = True] obtain nx where
    nx: "in_heap h a" "hdrs h a = Some \<lparr>bsize = s, bfree = False, bnext = nx\<rparr>"
      "heap_seg (h\<lparr>hdrs := (hdrs h)(a \<mapsto> \<lparr>bsize = s, bfree = True, bnext = nx\<rparr>)\<rparr>) (heap_start h) ?bs None"
    by blast
  let ?h = "h\<lparr>hdrs := (hdrs h)(a \<mapsto> \<lparr>bsize = s, bfree = True, bnext = nx\<rparr>)\<rparr>"
  have ch2: "chain (unat (heap_virt_base h)) ?bs (unat (heap_virt_end h))"
    using ch chain_mark unfolding bs by blast
  have e64: "unat (heap_virt_end h) < 2 ^ 64" by simp
  from coalesce_spec[OF nx(3) ch2 e64] obtain h' where
    h': "coalesce (heap_start h) ?h = Some h'" "only_hdrs (unat (heap_virt_base h)) ?h h'"
      "heap_seg h' (heap_start h) (coal ?bs) None" by blast
  have "kfree (Some (a + 24)) h = Some h'"
    using nx h'(1) by (simp add: kfree_def HEADER_SIZE_def Let_def)
  moreover obtain x where x: "h' = h\<lparr>hdrs := x\<rparr>" using h'(2) by (auto simp: only_hdrs_def)
  moreover have "coal ?bs \<noteq> []" using coal_hd[of ?bs] by auto
  then have "heap_wf h' (coal ?bs)"
    using h'(3) coal_chain[OF ch2 e64] wf by (simp add: heap_wf_def x)
  moreover have "allocated (coal ?bs) = allocated bs - {(a, s)}"
    using allocated_once[OF ch[unfolded bs], of s] by (auto simp: coal_allocated bs)
  moreover have "(\<Sum>(a, s, f) \<leftarrow> coal ?bs. unat s + 24) = (\<Sum>(a, s, f) \<leftarrow> bs. unat s + 24)"
    using coal_total[OF ch2 e64] by (simp add: bs)
  ultimately show ?thesis using coal_coalesced by blast
qed

lemma heap_stats_loop_spec:
  assumes "heap_seg h p bs None"
  shows "heap_stats_loop p (t, u, f) h = Some
    (t + (\<Sum>(a, s, b) \<leftarrow> bs. s + 24), u + (\<Sum>(a, s, b) \<leftarrow> bs. if b then 0 else s),
     f + (\<Sum>(a, s, b) \<leftarrow> bs. if b then s else 0))"
  using assms
proof (induction bs arbitrary: p t u f)
  case Nil
  then show ?case by (simp add: heap_stats_loop.simps[of None])
next
  case (Cons x bs)
  obtain a s b where x: "x = (a, s, b)" by (cases x)
  from Cons.prems x obtain nx where p: "p = Some a" "in_heap h a"
    "hdrs h a = Some \<lparr>bsize = s, bfree = b, bnext = nx\<rparr>" "heap_seg h nx bs None" by auto
  show ?case
    using p Cons.IH[OF p(4)] x
    by (cases b) (simp_all add: heap_stats_loop.simps[of "Some a"] HEADER_SIZE_def add.assoc)
qed

lemma heap_get_stats_spec:
  assumes "heap_wf h bs"
  shows "heap_get_stats h = Some (\<Sum>(a, s, b) \<leftarrow> bs. s + 24, \<Sum>(a, s, b) \<leftarrow> bs. if b then 0 else s,
     \<Sum>(a, s, b) \<leftarrow> bs. if b then s else 0)"
  using heap_stats_loop_spec[of h "heap_start h" bs 0 0 0] assms
  by (simp add: heap_get_stats_def heap_wf_def)

section \<open>The interface: an allocator of memory blocks\<close>

text \<open>
  What the users of the heap rely on. \<open>rep h L\<close>: the heap is in order and \<open>L\<close> holds the
  address and size of every block handed out. \<open>room n h\<close>: the address range can still grow for a
  block of \<open>n\<close> bytes.
\<close>

locale block_allocator =
  fixes malloc :: "u64 \<Rightarrow> 'h \<Rightarrow> (u64 option \<times> 'h) option"
    and free :: "u64 \<Rightarrow> 'h \<Rightarrow> 'h option"
    and rep :: "'h \<Rightarrow> (u64 \<times> u64) set \<Rightarrow> bool"
    and room :: "u64 \<Rightarrow> 'h \<Rightarrow> bool"
  assumes malloc_law: "rep h L \<Longrightarrow> n \<noteq> 0 \<Longrightarrow> room n h \<Longrightarrow>
      \<exists>r h' L'. malloc n h = Some (r, h') \<and> rep h' L' \<and>
        (case r of None \<Rightarrow> L' = L
         | Some p \<Rightarrow> \<exists>s. unat n \<le> unat s \<and> L' = insert (p, s) L \<and> (\<forall>s'. (p, s') \<notin> L))"
    and free_law: "rep h L \<Longrightarrow> (p, s) \<in> L \<Longrightarrow> \<exists>h'. free p h = Some h' \<and> rep h' (L - {(p, s)})"
    and no_overlap: "rep h L \<Longrightarrow> (p, s) \<in> L \<Longrightarrow> (q, t) \<in> L \<Longrightarrow> (p, s) \<noteq> (q, t) \<Longrightarrow>
      unat p + unat s \<le> unat q \<or> unat q + unat t \<le> unat p"
begin

lemma malloc_fresh:
  assumes "rep h L" "n \<noteq> 0" "room n h" "malloc n h = Some (Some p, h')"
  obtains s where "unat n \<le> unat s" "rep h' (insert (p, s) L)"
    "\<And>q t. (q, t) \<in> L \<Longrightarrow> unat p + unat s \<le> unat q \<or> unat q + unat t \<le> unat p"
proof -
  from malloc_law[OF assms(1-3)] assms(4) obtain s where s: "unat n \<le> unat s" "rep h' (insert (p, s) L)"
    "\<forall>s'. (p, s') \<notin> L" by auto
  have "unat p + unat s \<le> unat q \<or> unat q + unat t \<le> unat p" if "(q, t) \<in> L" for q t
    using no_overlap[OF s(2), of p s q t] s(3) that by auto
  with s that show thesis by blast
qed

lemma malloc_free:
  assumes "rep h L" "n \<noteq> 0" "room n h" "malloc n h = Some (Some p, h1)"
  shows "\<exists>h2. free p h1 = Some h2 \<and> rep h2 L"
proof -
  from malloc_law[OF assms(1-3)] assms(4) obtain s where s: "rep h1 (insert (p, s) L)" "\<forall>s'. (p, s') \<notin> L"
    by auto
  then have "insert (p, s) L - {(p, s)} = L" by blast
  with free_law[OF s(1), of p s] show ?thesis by simp
qed

end

definition heap_rep :: "heap \<Rightarrow> (u64 \<times> u64) set \<Rightarrow> bool" where
  "heap_rep h L \<longleftrightarrow> (\<exists>bs. heap_wf h bs \<and> L = (\<lambda>(a, s). (a + 24, s)) ` allocated bs)"

definition heap_room :: "u64 \<Rightarrow> heap \<Rightarrow> bool" where
  "heap_room n h \<longleftrightarrow> unat (heap_virt_end h) + unat n + 20510 < 2 ^ 64"

lemma heap_block_addr:
  assumes "heap_wf h bs" "(a, s) \<in> allocated bs"
  shows "unat (a + 24) = unat a + 24" "unat (a + 24) + unat s \<le> unat (heap_virt_end h)"
    "unat (heap_virt_base h) \<le> unat a"
proof -
  have "(a, s, False) \<in> set bs" using assms(2) by (simp add: allocated_def)
  with assms(1) have b: "unat (heap_virt_base h) \<le> unat a" "unat a + 24 + unat s \<le> unat (heap_virt_end h)"
    using chain_bounds by (auto simp: heap_wf_def)
  have "unat a + 24 < 2 ^ 64" using b(2) unat_u64_less[of "heap_virt_end h"] by (simp del: unat_u64_less)
  then show u: "unat (a + 24) = unat a + 24" using unat_add_u64[of a 24] by simp
  show "unat (a + 24) + unat s \<le> unat (heap_virt_end h)" "unat (heap_virt_base h) \<le> unat a"
    using b u by simp_all
qed

interpretation kh: block_allocator kmalloc "\<lambda>p. kfree (Some p)" heap_rep heap_room
proof unfold_locales
  fix h L and n :: u64
  assume "heap_rep h L" and n: "n \<noteq> 0" and room: "heap_room n h"
  then obtain bs where bs: "heap_wf h bs" "L = (\<lambda>(a, s). (a + 24, s)) ` allocated bs"
    by (auto simp: heap_rep_def)
  from kmalloc_spec[OF bs(1) n] room obtain r h' bs' where
    k: "kmalloc n h = Some (r, h')" "heap_wf h' bs'"
      "case r of None \<Rightarrow> allocated bs' = allocated bs \<and> vfree (vm h') = {}
       | Some p \<Rightarrow> \<exists>a s. p = a + 24 \<and> unat n \<le> unat s \<and> allocated bs' = insert (a, s) (allocated bs) \<and>
         (\<forall>s'. (a, s') \<notin> allocated bs)" by (auto simp: heap_room_def)
  let ?L = "(\<lambda>(a, s). (a + 24, s)) ` allocated bs'"
  have rep': "heap_rep h' ?L" using k(2) by (auto simp: heap_rep_def)
  have "case r of None \<Rightarrow> ?L = L
     | Some p \<Rightarrow> \<exists>s. unat n \<le> unat s \<and> ?L = insert (p, s) L \<and> (\<forall>s'. (p, s') \<notin> L)"
  proof (cases r)
    case (Some p)
    with k(3) obtain a s where as: "p = a + 24" "unat n \<le> unat s"
      "allocated bs' = insert (a, s) (allocated bs)" "\<forall>s'. (a, s') \<notin> allocated bs" by auto
    then have "?L = insert (p, s) L" "\<forall>s'. (p, s') \<notin> L" using bs(2) by auto
    with Some as(2) show ?thesis by auto
  qed (use k(3) bs(2) in auto)
  with k(1) rep' show "\<exists>r h' L'. kmalloc n h = Some (r, h') \<and> heap_rep h' L' \<and>
      (case r of None \<Rightarrow> L' = L
       | Some p \<Rightarrow> \<exists>s. unat n \<le> unat s \<and> L' = insert (p, s) L \<and> (\<forall>s'. (p, s') \<notin> L))" by blast
next
  fix h L and p s :: u64
  assume "heap_rep h L" "(p, s) \<in> L"
  then obtain bs a where bs: "heap_wf h bs" "L = (\<lambda>(a, s). (a + 24, s)) ` allocated bs"
    "p = a + 24" "(a, s) \<in> allocated bs" by (auto simp: heap_rep_def)
  from kfree_spec[OF bs(1,4)] obtain h' bs' where
    h': "kfree (Some (a + 24)) h = Some h'" "heap_wf h' bs'" "allocated bs' = allocated bs - {(a, s)}" by blast
  have "inj (\<lambda>(a, s). (a + 24 :: u64, s :: u64))" by (auto simp: inj_def)
  then have "(\<lambda>(a, s). (a + 24, s)) ` allocated bs' = L - {(p, s)}"
    using bs(2,3) h'(3) by (simp add: image_set_diff)
  with h'(1,2) bs(3) show "\<exists>h'. kfree (Some p) h = Some h' \<and> heap_rep h' (L - {(p, s)})"
    unfolding heap_rep_def by metis
next
  fix h L and p s q t :: u64
  assume "heap_rep h L" "(p, s) \<in> L" "(q, t) \<in> L" and ne: "(p, s) \<noteq> (q, t)"
  then obtain bs a b where bs: "heap_wf h bs" "p = a + 24" "(a, s) \<in> allocated bs"
    "q = b + 24" "(b, t) \<in> allocated bs" by (auto simp: heap_rep_def)
  then have "(a, s, False) \<in> set bs" "(b, t, False) \<in> set bs" "(a, s, False) \<noteq> (b, t, False)"
    using ne by (auto simp: allocated_def)
  with bs(1) have "unat a + 24 + unat s \<le> unat b \<or> unat b + 24 + unat t \<le> unat a"
    using chain_disjoint unfolding heap_wf_def by blast
  then show "unat p + unat s \<le> unat q \<or> unat q + unat t \<le> unat p"
    using heap_block_addr(1)[OF bs(1,3)] heap_block_addr(1)[OF bs(1,5)] bs(2,4) by auto
qed

section \<open>Properties\<close>


lemma demo_heap_clean: "heap_clean demo_vmm"
  by (simp add: heap_clean_def demo_vmm_tbl(3))

definition demo_cold :: heap where
  "demo_cold = \<lparr>heap_start = None, heap_virt_base = 0, heap_virt_end = 0, heap_total_size = 0,
     hdrs = (\<lambda>_. None), bytes = (\<lambda>_. 0), vm = demo_vmm\<rparr>"


definition demo_heap :: heap where
  "demo_heap = \<lparr>heap_start = Some HEAP_VIRT_START, heap_virt_base = HEAP_VIRT_START,
     heap_virt_end = HEAP_VIRT_START + 4096, heap_total_size = 4096,
     hdrs = [HEAP_VIRT_START \<mapsto> \<lparr>bsize = 976, bfree = False, bnext = Some (HEAP_VIRT_START + 1000)\<rparr>,
             HEAP_VIRT_START + 1000 \<mapsto> \<lparr>bsize = 3072, bfree = True, bnext = None\<rparr>],
     bytes = (\<lambda>_. 0), vm = demo_vmm\<rparr>"

lemma demo_heap_wf: "heap_wf demo_heap [(HEAP_VIRT_START, 976, False), (HEAP_VIRT_START + 1000, 3072, True)]"
  using demo_vmm_wf demo_heap_clean
  by (simp add: heap_wf_def demo_heap_def in_heap_def HEAP_VIRT_START_def)



text \<open>
  C10. Release. \<open>kfree\<close> of a block in use returns; the block is no longer in use and every other
  block in use stays where it is. Afterwards no two neighbouring blocks are both free, and no
  byte of the heap is lost to the list.
\<close>

theorem kfree_correct:
  assumes "heap_wf h bs" "(a, s) \<in> allocated bs"
  shows "\<exists>h' bs'. kfree (Some (a + 24)) h = Some h' \<and> heap_wf h' bs' \<and>
    allocated bs' = allocated bs - {(a, s)} \<and> coalesced bs' \<and>
    (\<Sum>(a, s, f) \<leftarrow> bs'. unat s + 24) = (\<Sum>(a, s, f) \<leftarrow> bs. unat s + 24)"
  using kfree_spec[OF assms] by blast

theorem kfree_witness:
  "\<exists>h' bs'. kfree (Some (HEAP_VIRT_START + 24)) demo_heap = Some h' \<and> heap_wf h' bs' \<and>
     allocated bs' = {} \<and> coalesced bs'"
  using kfree_correct[OF demo_heap_wf, of HEAP_VIRT_START 976] by auto

text \<open>
  The rounding of the size wraps: a request of \<open>2 ^ 64 - 1\<close> bytes is rounded to 0 bytes, and
  when a block is free \<open>kmalloc\<close> returns a pointer to it instead of NULL.
\<close>

theorem kmalloc_size_wraps:
  assumes wf: "heap_wf h bs" and f: "(a, s, True) \<in> set bs"
  shows "\<exists>p h'. kmalloc (- 1) h = Some (Some p, h')"
proof -
  have a0: "align16 (- 1) = 0" by (simp add: align16_def)
  have "first_fit 0 bs \<noteq> None" unfolding first_fit_None using f by auto
  then obtain b bs' where "first_fit 0 bs = Some (b, bs')" by fastforce
  from search_wf[OF wf this] obtain h' where
    "kmalloc_search 0 (heap_start h) h = Some (Some (b + 24), h')" by blast
  then show ?thesis by (simp add: kmalloc.simps[of "- 1" h] a0)
qed

theorem kmalloc_size_wraps_witness: "\<exists>p h'. kmalloc (- 1) demo_heap = Some (Some p, h')"
  using kmalloc_size_wraps[OF demo_heap_wf] by auto

end
