(* ===== verification/Sched.thy ===== *)
theory Sched
  imports Heap
begin

text \<open>
  The scheduler: run queues, selection, the context switch and the timer tick
  (\<open>kernel/src/sched/scheduler.c\<close>, \<open>arch/x86_64/context.asm\<close>), and the data types of processes and
  threads (\<open>sched/thread.h\<close>, \<open>sched/process.h\<close>).

  Control blocks live at kernel addresses; the maps of the state hold the block at each address in
  use, and a null pointer is \<open>None\<close>. A thread that is switched away from stays inside \<open>schedule\<close>;
  the last assignment of \<open>schedule\<close>, or of \<open>thread_entry_stub\<close> for a new thread, is then performed by
  the thread switched to, which is why the model clears \<open>sched_lock\<close> after the switch.
\<close>

section \<open>Data\<close>

datatype thread_state = THREAD_READY | THREAD_RUNNING | THREAD_BLOCKED | THREAD_SLEEPING | THREAD_DEAD

datatype proc_state = PROC_ALIVE | PROC_ZOMBIE | PROC_DEAD

record thread =
  tid :: u32
  tstate :: thread_state
  priority :: u8
  kstack_phys :: u64
  kstack_virt :: u64
  kstack_rsp :: u64
  ustack_virt_top :: u64
  sleep_until_ms :: u64
  next_in_proc :: "u64 option"
  next_in_queue :: "u64 option"
  tproc :: "u64 option"

record vma =
  virt_start :: u64
  virt_end :: u64
  vma_flags :: u32
  vma_next :: "u64 option"

record fd_table =
  fds :: "u64 option list"
  open_count :: u32

text \<open>Process identifiers are signed 32-bit integers.\<close>

type_synonym pid_t = "32 word"

record process =
  pid :: pid_t
  ppid :: pid_t
  pstate :: proc_state
  uid :: u32
  gid :: u32
  euid :: u32
  egid :: u32
  pcr3 :: u64
  threads :: "u64 option"
  thread_count :: u32
  pfd_table :: "u64 option"
  cwd :: "char list option"
  exit_code :: u32
  heap_base :: u64
  heap_end :: u64
  stack_top_virt :: u64
  stack_limit_virt :: u64
  vmas :: "u64 option"
  pnext :: "u64 option"

text \<open>The registers that a context switch and the thread entry stub touch.\<close>

record regs =
  rsp :: u64
  rip :: u64
  rbx :: u64
  rbp :: u64
  r12 :: u64
  r13 :: u64
  r14 :: u64
  r15 :: u64
  rdi :: u64
  rsi :: u64
  rdx :: u64
  rax :: u64
  if_flag :: bool

record kernel =
  kheap :: heap
  thr :: "u64 \<rightharpoonup> thread"
  prc :: "u64 \<rightharpoonup> process"
  vmat :: "u64 \<rightharpoonup> vma"
  fdts :: "u64 \<rightharpoonup> fd_table"
  ready_head :: "u64 option list"
  ready_tail :: "u64 option list"
  tick_counter :: u64
  sched_active :: bool
  sched_lock :: bool
  idle_process :: "u64 option"
  idle_thread :: "u64 option"
  current_process :: "u64 option"
  current_thread :: "u64 option"
  proc_table_head :: "u64 option"
  next_pid :: pid_t
  next_tid :: u32
  tick_count :: u64
  tss_rsp0 :: u64
  kernel_rsp_scratch :: u64
  cpu :: regs

definition SCHED_NUM_PRIORITIES :: nat where "SCHED_NUM_PRIORITIES = 8"
definition SCHED_PRIORITY_IDLE :: u8 where "SCHED_PRIORITY_IDLE = 0"
definition SCHED_PRIORITY_NORMAL :: u8 where "SCHED_PRIORITY_NORMAL = 4"
definition SCHED_QUANTUM_MS :: u64 where "SCHED_QUANTUM_MS = 10"

definition pit_get_ticks :: "kernel \<Rightarrow> u64" where
  "pit_get_ticks k = tick_count k"

text \<open>Field access through a pointer, a fault when it is null or dangling.\<close>

definition thr_rd :: "u64 option \<Rightarrow> kernel \<Rightarrow> thread option" where
  "thr_rd p k = Option.bind p (thr k)"

definition thr_upd :: "u64 option \<Rightarrow> (thread \<Rightarrow> thread) \<Rightarrow> kernel \<Rightarrow> kernel option" where
  "thr_upd p f k = do {
     a \<leftarrow> p;
     t \<leftarrow> thr k a;
     Some (k\<lparr>thr := (thr k)(a \<mapsto> f t)\<rparr>) }"

definition prc_rd :: "u64 option \<Rightarrow> kernel \<Rightarrow> process option" where
  "prc_rd p k = Option.bind p (prc k)"

definition prc_upd :: "u64 option \<Rightarrow> (process \<Rightarrow> process) \<Rightarrow> kernel \<Rightarrow> kernel option" where
  "prc_upd p f k = do {
     a \<leftarrow> p;
     x \<leftarrow> prc k a;
     Some (k\<lparr>prc := (prc k)(a \<mapsto> f x)\<rparr>) }"

definition set_head :: "nat \<Rightarrow> u64 option \<Rightarrow> kernel \<Rightarrow> kernel option" where
  "set_head pri p k = do { h \<leftarrow> wr (ready_head k) pri p; Some (k\<lparr>ready_head := h\<rparr>) }"

definition set_tail :: "nat \<Rightarrow> u64 option \<Rightarrow> kernel \<Rightarrow> kernel option" where
  "set_tail pri p k = do { h \<leftarrow> wr (ready_tail k) pri p; Some (k\<lparr>ready_tail := h\<rparr>) }"

section \<open>Run queues\<close>

definition queue_index :: "thread \<Rightarrow> nat" where
  "queue_index t = (if SCHED_NUM_PRIORITIES \<le> unat (priority t) then unat SCHED_PRIORITY_NORMAL
                    else unat (priority t))"

definition scheduler_enqueue :: "u64 option \<Rightarrow> kernel \<Rightarrow> kernel option" where
  "scheduler_enqueue t k =
     (if t = None then Some k
      else do {
        x \<leftarrow> thr_rd t k;
        let pri = queue_index x;
        k1 \<leftarrow> thr_upd t (\<lambda>x. x\<lparr>next_in_queue := None\<rparr>) k;
        hd \<leftarrow> rd (ready_head k1) pri;
        k3 \<leftarrow> (if hd = None then do { k2 \<leftarrow> set_head pri t k1; set_tail pri t k2 }
               else do {
                 tl \<leftarrow> rd (ready_tail k1) pri;
                 k2 \<leftarrow> thr_upd tl (\<lambda>x. x\<lparr>next_in_queue := t\<rparr>) k1;
                 set_tail pri t k2 });
        thr_upd t (\<lambda>x. x\<lparr>tstate := THREAD_READY\<rparr>) k3 })"

text \<open>The search loop of \<open>scheduler_dequeue\<close>.\<close>

partial_function (option) dequeue_loop ::
  "u64 option \<Rightarrow> nat \<Rightarrow> u64 option \<Rightarrow> u64 option \<Rightarrow> kernel \<Rightarrow> kernel option" where
  "dequeue_loop t pri prev cur k =
     (if cur = None then Some k
      else do {
        c \<leftarrow> thr_rd cur k;
        if cur = t then do {
          k1 \<leftarrow> (if prev \<noteq> None then thr_upd prev (\<lambda>x. x\<lparr>next_in_queue := next_in_queue c\<rparr>) k
                 else set_head pri (next_in_queue c) k);
          tl \<leftarrow> rd (ready_tail k1) pri;
          k2 \<leftarrow> (if tl = cur then set_tail pri prev k1 else Some k1);
          thr_upd cur (\<lambda>x. x\<lparr>next_in_queue := None\<rparr>) k2 }
        else dequeue_loop t pri cur (next_in_queue c) k })"

definition scheduler_dequeue :: "u64 option \<Rightarrow> kernel \<Rightarrow> kernel option" where
  "scheduler_dequeue t k =
     (if t = None then Some k
      else do {
        x \<leftarrow> thr_rd t k;
        let pri = queue_index x;
        hd \<leftarrow> rd (ready_head k) pri;
        dequeue_loop t pri None hd k })"

text \<open>The loop of \<open>pick_next\<close> that wakes expired sleepers in one queue.\<close>

partial_function (option) wake_expired :: "u64 option \<Rightarrow> kernel \<Rightarrow> kernel option" where
  "wake_expired t k =
     (if t = None then Some k
      else do {
        x \<leftarrow> thr_rd t k;
        k1 \<leftarrow> (if tstate x = THREAD_SLEEPING \<and> sleep_until_ms x \<le> pit_get_ticks k then do {
                 k2 \<leftarrow> scheduler_dequeue t k;
                 k3 \<leftarrow> thr_upd t (\<lambda>x. x\<lparr>tstate := THREAD_READY\<rparr>) k2;
                 scheduler_enqueue t k3 }
               else Some k);
        wake_expired (next_in_queue x) k1 })"

text \<open>The loop of \<open>pick_next\<close> over the priorities \<open>n - 1, \<dots>, 0\<close>.\<close>

primrec pick_from :: "nat \<Rightarrow> kernel \<Rightarrow> (u64 option \<times> kernel) option" where
  "pick_from 0 k = Some (None, k)"
| "pick_from (Suc pri) k = do {
     t \<leftarrow> rd (ready_head k) pri;
     k1 \<leftarrow> wake_expired t k;
     chosen \<leftarrow> rd (ready_head k1) pri;
     if chosen \<noteq> None then do { k2 \<leftarrow> scheduler_dequeue chosen k1; Some (chosen, k2) }
     else pick_from pri k1 }"

definition pick_next :: "kernel \<Rightarrow> (u64 option \<times> kernel) option" where
  "pick_next k = pick_from SCHED_NUM_PRIORITIES k"

section \<open>The context switch\<close>

text \<open>Kernel stacks are in the direct map; 8-byte stack slots are words of physical memory.\<close>

definition stack_wr :: "u64 \<Rightarrow> u64 \<Rightarrow> kernel \<Rightarrow> kernel" where
  "stack_wr a v k = (let h = kheap k; v0 = vm h in
     k\<lparr>kheap := h\<lparr>vm := v0\<lparr>pm := (pm v0)\<lparr>ram := (ram (pm v0))(a - voff v0 := v)\<rparr>\<rparr>\<rparr>\<rparr>)"

definition stack_rd :: "u64 \<Rightarrow> kernel \<Rightarrow> u64" where
  "stack_rd a k = ram (pm (vm (kheap k))) (a - voff (vm (kheap k)))"

definition push :: "u64 \<Rightarrow> kernel \<Rightarrow> kernel" where
  "push v k = (let a = rsp (cpu k) - 8 in stack_wr a v (k\<lparr>cpu := (cpu k)\<lparr>rsp := a\<rparr>\<rparr>))"

definition pop :: "(u64 \<Rightarrow> regs \<Rightarrow> regs) \<Rightarrow> kernel \<Rightarrow> kernel" where
  "pop upd k = (let v = stack_rd (rsp (cpu k)) k in
     k\<lparr>cpu := upd v ((cpu k)\<lparr>rsp := rsp (cpu k) + 8\<rparr>)\<rparr>)"

text \<open>The registers popped by \<open>switch_context\<close> before \<open>ret\<close>, and the return itself.\<close>

definition pop_context :: "kernel \<Rightarrow> kernel" where
  "pop_context k =
     (let k1 = pop (\<lambda>v r. r\<lparr>r15 := v\<rparr>) k;
          k2 = pop (\<lambda>v r. r\<lparr>r14 := v\<rparr>) k1;
          k3 = pop (\<lambda>v r. r\<lparr>r13 := v\<rparr>) k2;
          k4 = pop (\<lambda>v r. r\<lparr>r12 := v\<rparr>) k3;
          k5 = pop (\<lambda>v r. r\<lparr>rbp := v\<rparr>) k4;
          k6 = pop (\<lambda>v r. r\<lparr>rbx := v\<rparr>) k5
      in pop (\<lambda>v r. r\<lparr>rip := v\<rparr>) k6)"

text \<open>
  \<open>switch_context(&old->kstack_rsp, new_rsp)\<close>, with the return address already pushed by the call.
\<close>

definition switch_context :: "u64 option \<Rightarrow> u64 \<Rightarrow> kernel \<Rightarrow> kernel option" where
  "switch_context old new_rsp k = do {
     let k1 = push (rip (cpu k)) k;
     let k2 = push (rbx (cpu k1)) k1;
     let k3 = push (rbp (cpu k2)) k2;
     let k4 = push (r12 (cpu k3)) k3;
     let k5 = push (r13 (cpu k4)) k4;
     let k6 = push (r14 (cpu k5)) k5;
     let k7 = push (r15 (cpu k6)) k6;
     k8 \<leftarrow> thr_upd old (\<lambda>t. t\<lparr>kstack_rsp := rsp (cpu k7)\<rparr>) k7;
     Some (pop_context (k8\<lparr>cpu := (cpu k8)\<lparr>rsp := new_rsp\<rparr>\<rparr>)) }"

definition load_cr3 :: "u64 \<Rightarrow> kernel \<Rightarrow> kernel" where
  "load_cr3 c k = k\<lparr>kheap := (kheap k)\<lparr>vm := write_cr3 c (vm (kheap k))\<rparr>\<rparr>"

section \<open>Scheduling\<close>

text \<open>The part of \<open>schedule\<close> after the selection: make \<open>nx\<close> the running thread.\<close>

definition switch_to :: "u64 option \<Rightarrow> u64 option \<Rightarrow> kernel \<Rightarrow> kernel option" where
  "switch_to old nx k = do {
     k1 \<leftarrow> (case old of None \<Rightarrow> Some k | Some _ \<Rightarrow> do {
              o1 \<leftarrow> thr_rd old k;
              if tstate o1 = THREAD_RUNNING then do {
                k0 \<leftarrow> thr_upd old (\<lambda>t. t\<lparr>tstate := THREAD_READY\<rparr>) k;
                scheduler_enqueue old k0 }
              else Some k });
     k2 \<leftarrow> thr_upd nx (\<lambda>t. t\<lparr>tstate := THREAD_RUNNING\<rparr>) k1;
     n \<leftarrow> thr_rd nx k2;
     let k3 = k2\<lparr>current_thread := nx, current_process := tproc n,
                 tss_rsp0 := kstack_virt n, kernel_rsp_scratch := kstack_virt n\<rparr>;
     k4 \<leftarrow> (case old of None \<Rightarrow> Some k3 | Some _ \<Rightarrow> do {
              o1 \<leftarrow> thr_rd old k3;
              if tproc o1 \<noteq> None \<and> tproc n \<noteq> tproc o1 then do {
                p \<leftarrow> prc_rd (tproc n) k3;
                Some (load_cr3 (pcr3 p) k3) }
              else Some k3 });
     k5 \<leftarrow> (if old \<noteq> None then switch_context old (kstack_rsp n) k4
            else Some (pop_context (k4\<lparr>cpu := (cpu k4)\<lparr>rsp := kstack_rsp n\<rparr>\<rparr>)));
     Some (k5\<lparr>sched_lock := False\<rparr>) }"

definition schedule :: "kernel \<Rightarrow> kernel option" where
  "schedule k =
     (if sched_lock k then Some k
      else do {
        let old = current_thread k;
        (nx0, k1) \<leftarrow> pick_next (k\<lparr>sched_lock := True\<rparr>);
        if nx0 = None \<and> old = idle_thread k1 then Some (k1\<lparr>sched_lock := False\<rparr>)
        else do {
          let nx = (if nx0 = None then idle_thread k1 else nx0);
          if nx = old then do {
            k2 \<leftarrow> scheduler_enqueue nx k1;
            Some (k2\<lparr>sched_lock := False\<rparr>) }
          else switch_to old nx k1 } })"

definition scheduler_tick :: "kernel \<Rightarrow> kernel option" where
  "scheduler_tick k =
     (let c = tick_counter k + 1 in
      if SCHED_QUANTUM_MS \<le> c then schedule (k\<lparr>tick_counter := 0\<rparr>)
      else Some (k\<lparr>tick_counter := c\<rparr>))"

definition pit_tick_increment :: "kernel \<Rightarrow> kernel" where
  "pit_tick_increment k = k\<lparr>tick_count := tick_count k + 1\<rparr>"

definition scheduler_timer_handler :: "kernel \<Rightarrow> kernel option" where
  "scheduler_timer_handler k =
     (let k1 = pit_tick_increment k
      in if \<not> sched_active k1 then Some k1 else scheduler_tick k1)"

definition scheduler_block :: "thread_state \<Rightarrow> kernel \<Rightarrow> kernel option" where
  "scheduler_block reason k =
     (if current_thread k = None then Some k
      else do {
        k1 \<leftarrow> thr_upd (current_thread k) (\<lambda>t. t\<lparr>tstate := reason\<rparr>) k;
        k2 \<leftarrow> scheduler_dequeue (current_thread k1) k1;
        schedule k2 })"

definition scheduler_wake :: "u64 option \<Rightarrow> kernel \<Rightarrow> kernel option" where
  "scheduler_wake t k =
     (if t = None then Some k
      else do {
        x \<leftarrow> thr_rd t k;
        if tstate x = THREAD_BLOCKED \<or> tstate x = THREAD_SLEEPING then do {
          k1 \<leftarrow> thr_upd t (\<lambda>x. x\<lparr>tstate := THREAD_READY\<rparr>) k;
          scheduler_enqueue t k1 }
        else Some k })"

section \<open>The queues as lists\<close>

definition nxq :: "kernel \<Rightarrow> u64 \<Rightarrow> u64 option" where
  "nxq k x = Option.bind (thr k x) next_in_queue"

definition queue_wf :: "kernel \<Rightarrow> nat \<Rightarrow> u64 list \<Rightarrow> bool" where
  "queue_wf k p xs \<longleftrightarrow> lseg (nxq k) (ready_head k ! p) xs None \<and>
     ready_tail k ! p = (if xs = [] then None else Some (last xs)) \<and> distinct xs \<and>
     (\<forall>x \<in> set xs. \<exists>t. thr k x = Some t \<and> queue_index t = p)"

definition sched_wf :: "kernel \<Rightarrow> (nat \<Rightarrow> u64 list) \<Rightarrow> bool" where
  "sched_wf k qs \<longleftrightarrow> length (ready_head k) = 8 \<and> length (ready_tail k) = 8 \<and> (\<forall>p < 8. queue_wf k p (qs p))"

text \<open>A thread without its queue link, and what the queue operations leave alone.\<close>

definition core :: "thread \<Rightarrow> thread" where
  "core t = t\<lparr>next_in_queue := None\<rparr>"

definition cores :: "kernel \<Rightarrow> u64 \<rightharpoonup> thread" where
  "cores k = (\<lambda>a. map_option core (thr k a))"

definition queues_only :: "kernel \<Rightarrow> kernel \<Rightarrow> bool" where
  "queues_only k k' \<longleftrightarrow> (\<exists>T H L. k' = k\<lparr>thr := T, ready_head := H, ready_tail := L\<rparr>)"

lemma queues_only_fields:
  assumes "queues_only k k'"
  shows "kheap k' = kheap k" "prc k' = prc k" "sched_lock k' = sched_lock k" "idle_thread k' = idle_thread k"
    "current_thread k' = current_thread k" "current_process k' = current_process k"
    "tick_count k' = tick_count k" "tick_counter k' = tick_counter k" "sched_active k' = sched_active k"
    "cpu k' = cpu k"
  using assms by (auto simp: queues_only_def)

lemma queues_only_refl [simp]: "queues_only k k"
proof -
  have "k = k\<lparr>thr := thr k, ready_head := ready_head k, ready_tail := ready_tail k\<rparr>" by simp
  then show ?thesis unfolding queues_only_def by blast
qed

lemma queues_only_trans: "queues_only a b \<Longrightarrow> queues_only b c \<Longrightarrow> queues_only a c"
  unfolding queues_only_def by (elim exE) (simp, blast)

lemma queue_index_bound [simp]: "queue_index t < 8"
  by (simp add: queue_index_def SCHED_NUM_PRIORITIES_def SCHED_PRIORITY_NORMAL_def)

lemma queue_index_upd [simp]:
  "queue_index (t\<lparr>next_in_queue := a\<rparr>) = queue_index t" "queue_index (t\<lparr>tstate := s\<rparr>) = queue_index t"
  "queue_index (core t) = queue_index t" "queue_index (t\<lparr>kstack_rsp := r\<rparr>) = queue_index t"
  by (simp_all add: queue_index_def core_def)

lemma core_upd [simp]: "core (t\<lparr>next_in_queue := a\<rparr>) = core t" "tstate (core t) = tstate t"
  "core (t\<lparr>tstate := s\<rparr>) = (core t)\<lparr>tstate := s\<rparr>" "sleep_until_ms (core t) = sleep_until_ms t"
  "tproc (core t) = tproc t"
  by (simp_all add: core_def)

lemma sched_wf_index:
  "sched_wf k qs \<Longrightarrow> p < 8 \<Longrightarrow> x \<in> set (qs p) \<Longrightarrow> thr k x = Some t \<Longrightarrow> queue_index t = p"
  by (force simp: sched_wf_def queue_wf_def)

lemma sched_wf_thr: "sched_wf k qs \<Longrightarrow> p < 8 \<Longrightarrow> x \<in> set (qs p) \<Longrightarrow> \<exists>t. thr k x = Some t \<and> queue_index t = p"
  by (auto simp: sched_wf_def queue_wf_def)

text \<open>Whether a state represents queues depends only on the queue heads, tails, links and indices.\<close>

lemma queue_wf_cong:
  assumes "queue_wf k p xs" "ready_head k' ! p = ready_head k ! p" "ready_tail k' ! p = ready_tail k ! p"
    "\<And>x. x \<in> set xs \<Longrightarrow> \<exists>t t'. thr k x = Some t \<and> thr k' x = Some t' \<and>
       next_in_queue t' = next_in_queue t \<and> queue_index t' = queue_index t"
  shows "queue_wf k' p xs"
proof -
  have "nxq k' x = nxq k x" if "x \<in> set xs" for x using assms(4)[OF that] by (auto simp: nxq_def)
  then have "lseg (nxq k') (ready_head k' ! p) xs None"
    using assms(1,2) lseg_cong[of xs "nxq k'" "nxq k"] by (simp add: queue_wf_def)
  moreover have "\<exists>t. thr k' x = Some t \<and> queue_index t = p" if "x \<in> set xs" for x
    using assms(1,4) that by (fastforce simp: queue_wf_def)
  ultimately show ?thesis using assms(1,3) by (simp add: queue_wf_def)
qed

lemma queue_wf_same:
  assumes "queue_wf k p xs" "ready_head k' ! p = ready_head k ! p" "ready_tail k' ! p = ready_tail k ! p"
    "\<forall>x \<in> set xs. thr k' x = thr k x"
  shows "queue_wf k' p xs"
  using assms(1-3)
proof (rule queue_wf_cong)
  fix x assume x: "x \<in> set xs"
  then obtain t where "thr k x = Some t" using assms(1) by (auto simp: queue_wf_def)
  then show "\<exists>t t'. thr k x = Some t \<and> thr k' x = Some t' \<and>
       next_in_queue t' = next_in_queue t \<and> queue_index t' = queue_index t" using assms(4) x by auto
qed

lemma sched_wf_cong:
  assumes "sched_wf k qs" "ready_head k' = ready_head k" "ready_tail k' = ready_tail k"
    "\<And>x t. thr k x = Some t \<Longrightarrow> \<exists>t'. thr k' x = Some t' \<and>
       next_in_queue t' = next_in_queue t \<and> queue_index t' = queue_index t"
  shows "sched_wf k' qs"
proof -
  have "queue_wf k' p (qs p)" if "p < 8" for p
  proof (rule queue_wf_cong[of k])
    show "queue_wf k p (qs p)" using assms(1) that by (simp add: sched_wf_def)
    show "\<exists>t t'. thr k x = Some t \<and> thr k' x = Some t' \<and>
       next_in_queue t' = next_in_queue t \<and> queue_index t' = queue_index t" if "x \<in> set (qs p)" for x
      using sched_wf_thr[OF assms(1) \<open>p < 8\<close> that] assms(4) by blast
  qed (use assms in simp_all)
  then show ?thesis using assms by (simp add: sched_wf_def)
qed

lemma queue_wf_nonempty:
  "queue_wf k p xs \<Longrightarrow> ready_head k ! p = None \<longleftrightarrow> xs = []"
  "queue_wf k p (x # xs) \<Longrightarrow> ready_head k ! p = Some x"
  by (auto simp: queue_wf_def neq_Nil_conv)

lemma enqueue_spec:
  assumes wf: "sched_wf k qs" and t: "thr k x = Some t" and x: "x \<notin> set (qs (queue_index t))"
  shows "\<exists>k'. scheduler_enqueue (Some x) k = Some k' \<and>
     sched_wf k' (qs(queue_index t := qs (queue_index t) @ [x])) \<and> queues_only k k' \<and>
     cores k' = (cores k)(x \<mapsto> core (t\<lparr>tstate := THREAD_READY\<rparr>))"
proof -
  let ?p = "queue_index t"
  have len: "length (ready_head k) = 8" "length (ready_tail k) = 8" and q: "queue_wf k ?p (qs ?p)"
    using wf by (simp_all add: sched_wf_def)
  let ?t = "t\<lparr>next_in_queue := None, tstate := THREAD_READY\<rparr>"
  show ?thesis
  proof (cases "qs ?p = []")
    case True
    define k' where "k' = k\<lparr>thr := (thr k)(x \<mapsto> ?t), ready_head := (ready_head k)[?p := Some x],
      ready_tail := (ready_tail k)[?p := Some x]\<rparr>"
    have "scheduler_enqueue (Some x) k = Some k'"
      using t len True queue_wf_nonempty(1)[OF q]
      by (simp add: scheduler_enqueue_def thr_rd_def thr_upd_def set_head_def set_tail_def k'_def Let_def)
    moreover have "queue_wf k' p ((qs(?p := qs ?p @ [x])) p)" if "p < 8" for p
    proof (cases "p = ?p")
      case True
      then show ?thesis using \<open>qs ?p = []\<close> len by (simp add: queue_wf_def k'_def nxq_def)
    next
      case False
      have "queue_wf k p (qs p)" using wf that by (simp add: sched_wf_def)
      moreover have "x \<notin> set (qs p)" using sched_wf_index[OF wf that _ t] False by auto
      ultimately have "queue_wf k' p (qs p)"
        by (intro queue_wf_same[of k p "qs p" k']) (use False in \<open>auto simp: k'_def\<close>)
      then show ?thesis using False by simp
    qed
    moreover have "queues_only k k'" unfolding queues_only_def k'_def by blast
    moreover have "cores k' = (cores k)(x \<mapsto> core (t\<lparr>tstate := THREAD_READY\<rparr>))"
      by (auto simp: cores_def k'_def)
    moreover have "length (ready_head k') = 8" "length (ready_tail k') = 8" using len by (simp_all add: k'_def)
    ultimately show ?thesis unfolding sched_wf_def by blast
  next
    case False
    then obtain ys l where ys: "qs ?p = ys @ [l]" by (metis rev_exhaust)
    then have tl: "ready_tail k ! ?p = Some l" and d: "distinct (ys @ [l])" using q by (auto simp: queue_wf_def)
    have l: "l \<in> set (qs ?p)" "l \<noteq> x" using ys x by auto
    obtain u where u: "thr k l = Some u" "queue_index u = ?p"
      using sched_wf_thr[OF wf queue_index_bound l(1)] by blast
    define k' where "k' = k\<lparr>thr := (thr k)(x \<mapsto> ?t, l \<mapsto> u\<lparr>next_in_queue := Some x\<rparr>),
      ready_tail := (ready_tail k)[?p := Some x]\<rparr>"
    have upd: "(thr k)(x \<mapsto> t\<lparr>next_in_queue := None\<rparr>, l \<mapsto> u\<lparr>next_in_queue := Some x\<rparr>, x \<mapsto> ?t) =
        (thr k)(x \<mapsto> ?t, l \<mapsto> u\<lparr>next_in_queue := Some x\<rparr>)"
      using l(2) by auto
    obtain y where hd: "ready_head k ! ?p = Some y" using queue_wf_nonempty(1)[OF q] False by auto
    have "scheduler_enqueue (Some x) k = Some k'"
      using t u l(2) len hd tl upd
      by (simp add: scheduler_enqueue_def thr_rd_def thr_upd_def set_head_def set_tail_def k'_def Let_def)
    moreover have "queue_wf k' p ((qs(?p := qs ?p @ [x])) p)" if "p < 8" for p
    proof (cases "p = ?p")
      case True
      have "nxq k' y = nxq k y" if "y \<in> set ys" for y
        using d x ys that by (auto simp: nxq_def k'_def)
      moreover have "lseg (nxq k) (ready_head k ! ?p) ys (Some l)" "nxq k l = None"
        using q ys by (simp_all add: queue_wf_def lseg_snoc)
      ultimately have "lseg (nxq k') (ready_head k ! ?p) ys (Some l)"
        using lseg_cong[of ys "nxq k'" "nxq k"] by simp
      moreover have "nxq k' l = Some x" "nxq k' x = None" using l(2) by (simp_all add: nxq_def k'_def)
      ultimately have "lseg (nxq k') (ready_head k' ! ?p) (qs ?p @ [x]) None"
        using ys by (simp add: lseg_append lseg_snoc k'_def)
      moreover have "\<exists>t. thr k' y = Some t \<and> queue_index t = ?p" if "y \<in> set (qs ?p @ [x])" for y
        using that sched_wf_thr[OF wf queue_index_bound[of t]] u by (auto simp: k'_def)
      ultimately show ?thesis using True q x len by (simp add: queue_wf_def k'_def)
    next
      case False
      have "queue_wf k p (qs p)" using wf that by (simp add: sched_wf_def)
      moreover have "x \<notin> set (qs p)" "l \<notin> set (qs p)"
        using sched_wf_index[OF wf that _ t] sched_wf_index[OF wf that _ u(1)] u(2) False by auto
      ultimately have "queue_wf k' p (qs p)"
        by (intro queue_wf_same[of k p "qs p" k']) (use False in \<open>auto simp: k'_def\<close>)
      then show ?thesis using False by simp
    qed
    moreover have "queues_only k k'" unfolding queues_only_def k'_def
      by (rule exI[of _ "thr k'"], rule exI[of _ "ready_head k"], rule exI[of _ "ready_tail k'"])
        (simp add: k'_def)
    moreover have "cores k' = (cores k)(x \<mapsto> core (t\<lparr>tstate := THREAD_READY\<rparr>))"
      using u l(2) by (auto simp: cores_def k'_def fun_eq_iff)
    moreover have "length (ready_head k') = 8" "length (ready_tail k') = 8" using len by (simp_all add: k'_def)
    ultimately show ?thesis unfolding sched_wf_def by blast
  qed
qed

text \<open>Dequeuing: the loop skips the threads before the one searched.\<close>

lemma dequeue_skip:
  assumes "lseg (nxq k) cur bs mid" "x \<notin> set bs" "\<forall>b \<in> set bs. thr k b \<noteq> None"
  shows "dequeue_loop (Some x) p prev cur k =
         dequeue_loop (Some x) p (if bs = [] then prev else Some (last bs)) mid k"
  using assms
proof (induction bs arbitrary: prev cur)
  case (Cons b bs)
  then obtain t where t: "cur = Some b" "thr k b = Some t" "b \<noteq> x" by auto
  then have "dequeue_loop (Some x) p prev cur k = dequeue_loop (Some x) p (Some b) (next_in_queue t) k"
    by (subst dequeue_loop.simps) (simp add: thr_rd_def)
  with Cons.IH[of "next_in_queue t" "Some b"] Cons.prems t show ?case by (simp add: nxq_def)
qed simp

text \<open>Unlinking: the state after thread \<open>x\<close> was taken out from between \<open>pre\<close> and \<open>post\<close>.\<close>

definition unlinked :: "nat \<Rightarrow> u64 list \<Rightarrow> u64 \<Rightarrow> u64 list \<Rightarrow> kernel \<Rightarrow> kernel" where
  "unlinked p pre x post k =
     (let prev = (if pre = [] then None else Some (last pre));
          nx = nxq k x;
          T = (if pre = [] then thr k
               else (thr k)(last pre := map_option (\<lambda>u. u\<lparr>next_in_queue := nx\<rparr>) (thr k (last pre))))
      in k\<lparr>thr := T(x := map_option core (thr k x)),
           ready_head := (if pre = [] then (ready_head k)[p := nx] else ready_head k),
           ready_tail := (if post = [] then (ready_tail k)[p := prev] else ready_tail k)\<rparr>)"

lemma dequeue_found:
  assumes wf: "sched_wf k qs" and p: "p < 8" and xs: "qs p = pre @ x # post"
  shows "dequeue_loop (Some x) p (if pre = [] then None else Some (last pre)) (Some x) k =
         Some (unlinked p pre x post k)"
proof -
  have q: "queue_wf k p (pre @ x # post)" and len: "length (ready_head k) = 8" "length (ready_tail k) = 8"
    using wf p xs by (auto simp: sched_wf_def)
  obtain t where t: "thr k x = Some t" using sched_wf_thr[OF wf p] xs by auto
  have d: "distinct (pre @ x # post)" using q by (simp add: queue_wf_def)
  have tail: "ready_tail k ! p = Some x \<longleftrightarrow> post = []"
    using q d by (auto simp: queue_wf_def)
  show ?thesis
  proof (cases "pre = []")
    case True
    then show ?thesis using t len p tail
      by (subst dequeue_loop.simps)
        (simp add: thr_rd_def thr_upd_def set_head_def set_tail_def unlinked_def Let_def nxq_def core_def)
  next
    case False
    then have lp: "last pre \<in> set pre" by simp
    then obtain u where u: "thr k (last pre) = Some u" using sched_wf_thr[OF wf p, of "last pre"] xs by auto
    have ne: "last pre \<noteq> x" using d lp by auto
    show ?thesis using t u ne False len p tail
      by (subst dequeue_loop.simps)
        (simp add: thr_rd_def thr_upd_def set_head_def set_tail_def unlinked_def Let_def nxq_def core_def)
  qed
qed

lemma unlinked_wf:
  assumes wf: "sched_wf k qs" and p: "p < 8" and xs: "qs p = pre @ x # post"
  shows "sched_wf (unlinked p pre x post k) (qs(p := pre @ post))"
proof -
  let ?k = "unlinked p pre x post k"
  have q: "queue_wf k p (pre @ x # post)" and len: "length (ready_head k) = 8" "length (ready_tail k) = 8"
    using wf p xs by (auto simp: sched_wf_def)
  have d: "distinct (pre @ x # post)" and seg: "lseg (nxq k) (ready_head k ! p) (pre @ x # post) None"
    using q by (auto simp: queue_wf_def)
  obtain m where m: "lseg (nxq k) (ready_head k ! p) pre (Some x)" "lseg (nxq k) (nxq k x) post None"
    using seg by (auto simp: lseg_append)
  have thr_other: "thr ?k y = thr k y" if "y \<noteq> x" "pre = [] \<or> y \<noteq> last pre" for y
    using that by (auto simp: unlinked_def Let_def)
  have idx: "\<exists>t'. thr ?k y = Some t' \<and> queue_index t' = queue_index t" if "thr k y = Some t" for y t
    using that by (auto simp: unlinked_def Let_def)
  have post: "lseg (nxq ?k) (nxq k x) post None"
  proof -
    have "nxq ?k y = nxq k y" if "y \<in> set post" for y
    proof -
      have "y \<noteq> x" "pre = [] \<or> y \<noteq> last pre" using d that last_in_set[of pre] by (auto simp: disjoint_iff)
      then show ?thesis by (simp add: nxq_def thr_other)
    qed
    then show ?thesis using m(2) lseg_cong[of post "nxq ?k" "nxq k"] by simp
  qed
  have main: "lseg (nxq ?k) (ready_head ?k ! p) (pre @ post) None"
  proof (cases "pre = []")
    case True
    then show ?thesis using post p len by (simp add: unlinked_def Let_def)
  next
    case False
    then obtain ys l where ys: "pre = ys @ [l]" by (metis rev_exhaust)
    have "nxq ?k y = nxq k y" if "y \<in> set ys" for y
    proof -
      have "y \<noteq> x" "pre = [] \<or> y \<noteq> last pre" using d ys that by auto
      then show ?thesis by (simp add: nxq_def thr_other)
    qed
    moreover have "lseg (nxq k) (ready_head k ! p) ys (Some l)" using m(1) ys by (simp add: lseg_snoc)
    ultimately have "lseg (nxq ?k) (ready_head k ! p) ys (Some l)"
      using lseg_cong[of ys "nxq ?k" "nxq k"] by simp
    moreover have "nxq ?k l = nxq k x"
    proof -
      have "\<exists>u. thr k l = Some u" using sched_wf_thr[OF wf p, of l] xs ys by auto
      moreover have "l \<noteq> x" using d ys by auto
      ultimately show ?thesis using ys by (auto simp: nxq_def unlinked_def Let_def)
    qed
    ultimately have "lseg (nxq ?k) (ready_head k ! p) pre (nxq k x)" using ys by (simp add: lseg_snoc)
    then show ?thesis using post False by (auto simp: lseg_append unlinked_def Let_def)
  qed
  have tl: "ready_tail ?k ! p = (if pre @ post = [] then None else Some (last (pre @ post)))"
    using q p len by (auto simp: queue_wf_def unlinked_def Let_def)
  have "queue_wf ?k p (pre @ post)"
    unfolding queue_wf_def using main tl d idx sched_wf_thr[OF wf p] xs
    by (auto simp: ball_Un) (metis idx)+
  moreover have "queue_wf ?k r (qs r)" if r: "r < 8" "r \<noteq> p" for r
  proof (rule queue_wf_cong[of k])
    show "queue_wf k r (qs r)" using wf r by (simp add: sched_wf_def)
    show "ready_head ?k ! r = ready_head k ! r" "ready_tail ?k ! r = ready_tail k ! r"
      using r by (simp_all add: unlinked_def Let_def)
    fix y assume y: "y \<in> set (qs r)"
    then obtain t where t: "thr k y = Some t" "queue_index t = r" using sched_wf_thr[OF wf r(1)] by blast
    then have "y \<notin> set (qs p)" using sched_wf_index[OF wf p _ t(1)] r(2) by auto
    then have "y \<noteq> x" "pre = [] \<or> y \<noteq> last pre" using xs last_in_set[of pre] by auto
    then have "thr ?k y = thr k y" by (rule thr_other)
    then show "\<exists>t t'. thr k y = Some t \<and> thr ?k y = Some t' \<and>
       next_in_queue t' = next_in_queue t \<and> queue_index t' = queue_index t" using t by auto
  qed
  moreover have "length (ready_head ?k) = 8" "length (ready_tail ?k) = 8"
    using len by (simp_all add: unlinked_def Let_def)
  ultimately show ?thesis unfolding sched_wf_def by simp
qed

lemma unlinked_frame:
  assumes "thr k x = Some t"
  shows "queues_only k (unlinked p pre x post k)" "cores (unlinked p pre x post k) = cores k"
proof -
  show "queues_only k (unlinked p pre x post k)" unfolding queues_only_def unlinked_def Let_def by blast
  show "cores (unlinked p pre x post k) = cores k"
    by (rule ext) (auto simp: cores_def unlinked_def Let_def map_option.compositionality o_def core_def[abs_def])
qed

lemma dequeue_spec:
  assumes wf: "sched_wf k qs" and t: "thr k x = Some t"
  shows "\<exists>k'. scheduler_dequeue (Some x) k = Some k' \<and>
     sched_wf k' (qs(queue_index t := remove1 x (qs (queue_index t)))) \<and> queues_only k k' \<and> cores k' = cores k"
proof -
  let ?p = "queue_index t"
  have q: "queue_wf k ?p (qs ?p)" and len: "length (ready_head k) = 8"
    using wf by (simp_all add: sched_wf_def)
  have th: "\<forall>b \<in> set (qs ?p). thr k b \<noteq> None" using sched_wf_thr[OF wf, of ?p] by fastforce
  have start: "scheduler_dequeue (Some x) k = dequeue_loop (Some x) ?p None (ready_head k ! ?p) k"
    using t len by (simp add: scheduler_dequeue_def thr_rd_def Let_def)
  show ?thesis
  proof (cases "x \<in> set (qs ?p)")
    case False
    have "dequeue_loop (Some x) ?p None (ready_head k ! ?p) k = Some k"
      using dequeue_skip[of k "ready_head k ! ?p" "qs ?p" None x ?p None] q False th
      by (simp add: queue_wf_def dequeue_loop.simps)
    moreover have "qs(?p := remove1 x (qs ?p)) = qs" using False by (simp add: remove1_idem)
    ultimately show ?thesis using start wf by simp
  next
    case True
    then obtain pre post where xs: "qs ?p = pre @ x # post" "x \<notin> set pre" by (metis split_list_first)
    have "lseg (nxq k) (ready_head k ! ?p) pre (Some x)"
      using q xs(1) by (auto simp: queue_wf_def lseg_append)
    from dequeue_skip[OF this xs(2)] th xs(1) dequeue_found[OF wf _ xs(1)]
    have "dequeue_loop (Some x) ?p None (ready_head k ! ?p) k = Some (unlinked ?p pre x post k)"
      by simp
    moreover have "remove1 x (qs ?p) = pre @ post" using xs by (simp add: remove1_append)
    ultimately show ?thesis using start unlinked_wf[OF wf _ xs(1)] unlinked_frame[OF t, of ?p pre post] by simp
  qed
qed

section \<open>The interface of the run queues\<close>

text \<open>
  What the scheduler needs of its queues: \<open>rep k qs\<close> says that the state \<open>k\<close> holds the queues \<open>qs\<close>, and
  \<open>idx\<close> gives the queue a thread belongs to.
\<close>

locale thread_queues =
  fixes rep :: "'k \<Rightarrow> (nat \<Rightarrow> 'a list) \<Rightarrow> bool"
    and idx :: "'k \<Rightarrow> 'a \<Rightarrow> nat option"
    and enq deq :: "'a option \<Rightarrow> 'k \<Rightarrow> 'k option"
  assumes enq_law: "rep k qs \<Longrightarrow> idx k x = Some p \<Longrightarrow> x \<notin> set (qs p) \<Longrightarrow>
      \<exists>k'. enq (Some x) k = Some k' \<and> rep k' (qs(p := qs p @ [x])) \<and> idx k' = idx k"
    and deq_law: "rep k qs \<Longrightarrow> idx k x = Some p \<Longrightarrow>
      \<exists>k'. deq (Some x) k = Some k' \<and> rep k' (qs(p := remove1 x (qs p))) \<and> idx k' = idx k"
    and rep_distinct: "rep k qs \<Longrightarrow> idx k x = Some p \<Longrightarrow> distinct (qs p)"
begin

text \<open>Taking a thread out and putting it back moves it to the end of its queue.\<close>

lemma move_to_back:
  assumes "rep k qs" "idx k x = Some p"
  shows "\<exists>k'. Option.bind (deq (Some x) k) (enq (Some x)) = Some k' \<and>
           rep k' (qs(p := remove1 x (qs p) @ [x])) \<and> idx k' = idx k"
proof -
  obtain k1 where k1: "deq (Some x) k = Some k1" "rep k1 (qs(p := remove1 x (qs p)))" "idx k1 = idx k"
    using deq_law[OF assms] by blast
  have "x \<notin> set ((qs(p := remove1 x (qs p))) p)" using rep_distinct[OF assms] by simp
  with enq_law[OF k1(2), of x p] k1 assms(2) show ?thesis by auto
qed

text \<open>Enqueuing and dequeuing again restores the queues.\<close>

lemma enq_deq:
  assumes "rep k qs" "idx k x = Some p" "x \<notin> set (qs p)"
  shows "\<exists>k'. Option.bind (enq (Some x) k) (deq (Some x)) = Some k' \<and> rep k' qs \<and> idx k' = idx k"
proof -
  obtain k1 where k1: "enq (Some x) k = Some k1" "rep k1 (qs(p := qs p @ [x]))" "idx k1 = idx k"
    using enq_law[OF assms] by blast
  obtain k2 where k2: "deq (Some x) k1 = Some k2" "rep k2 (qs(p := remove1 x (qs p @ [x])))" "idx k2 = idx k1"
    using deq_law[OF k1(2), of x p] k1(3) assms(2) by auto
  have "remove1 x (qs p @ [x]) = qs p" using assms(3) by (simp add: remove1_append)
  with k1 k2 show ?thesis by auto
qed

end

text \<open>The state, queue and process of every thread.\<close>

definition view :: "kernel \<Rightarrow> u64 \<rightharpoonup> thread_state \<times> nat \<times> u64 option" where
  "view k = (\<lambda>a. map_option (\<lambda>t. (tstate t, queue_index t, tproc t)) (thr k a))"

definition queue_of :: "kernel \<Rightarrow> u64 \<Rightarrow> nat option" where
  "queue_of k x = map_option queue_index (thr k x)"

lemma view_cores: "view k = (\<lambda>a. map_option (\<lambda>t. (tstate t, queue_index t, tproc t)) (cores k a))"
  by (simp add: view_def cores_def map_option.compositionality o_def)

lemma queue_of_view: "queue_of k = (\<lambda>a. map_option (fst \<circ> snd) (view k a))"
  by (auto simp: queue_of_def view_def map_option.compositionality o_def)

lemma view_Some: "view k a = Some v \<longleftrightarrow> (\<exists>t. thr k a = Some t \<and> v = (tstate t, queue_index t, tproc t))"
  by (auto simp: view_def)

lemma enqueue_view:
  assumes "sched_wf k qs" "view k x = Some (s, p, pr)" "x \<notin> set (qs p)"
  shows "\<exists>k'. scheduler_enqueue (Some x) k = Some k' \<and> sched_wf k' (qs(p := qs p @ [x])) \<and>
     queues_only k k' \<and> view k' = (view k)(x \<mapsto> (THREAD_READY, p, pr))"
proof -
  obtain t where t: "thr k x = Some t" "s = tstate t" "p = queue_index t" "pr = tproc t"
    using assms(2) by (auto simp: view_Some)
  from enqueue_spec[OF assms(1) t(1)] assms(3) t(3) obtain k' where
    k': "scheduler_enqueue (Some x) k = Some k'" "sched_wf k' (qs(p := qs p @ [x]))" "queues_only k k'"
      "cores k' = (cores k)(x \<mapsto> core (t\<lparr>tstate := THREAD_READY\<rparr>))" by auto
  have "view k' = (view k)(x \<mapsto> (THREAD_READY, p, pr))"
    using t(3,4) by (auto simp: view_cores k'(4) core_def queue_index_def)
  with k' show ?thesis by blast
qed

lemma dequeue_view:
  assumes "sched_wf k qs" "view k x = Some (s, p, pr)"
  shows "\<exists>k'. scheduler_dequeue (Some x) k = Some k' \<and> sched_wf k' (qs(p := remove1 x (qs p))) \<and>
     queues_only k k' \<and> view k' = view k"
proof -
  obtain t where t: "thr k x = Some t" "p = queue_index t" using assms(2) by (auto simp: view_Some)
  from dequeue_spec[OF assms(1) t(1)] t(2) show ?thesis unfolding view_cores by auto
qed

interpretation rq: thread_queues sched_wf queue_of scheduler_enqueue scheduler_dequeue
proof
  fix k qs and x :: u64 and p
  assume wf: "sched_wf k qs" and p: "queue_of k x = Some p"
  obtain s pr where v: "view k x = Some (s, p, pr)" using p by (auto simp: queue_of_view)
  then have "(view k)(x \<mapsto> (THREAD_READY, p, pr)) = (\<lambda>a. if a = x then Some (THREAD_READY, p, pr) else view k a)"
    by auto
  with v show "x \<notin> set (qs p) \<Longrightarrow> \<exists>k'. scheduler_enqueue (Some x) k = Some k' \<and>
      sched_wf k' (qs(p := qs p @ [x])) \<and> queue_of k' = queue_of k"
    using enqueue_view[OF wf v] by (fastforce simp: queue_of_view)
  show "\<exists>k'. scheduler_dequeue (Some x) k = Some k' \<and> sched_wf k' (qs(p := remove1 x (qs p))) \<and>
      queue_of k' = queue_of k"
    using dequeue_view[OF wf v] by (auto simp: queue_of_view)
  have "p < 8" using p by (auto simp: queue_of_def)
  then show "distinct (qs p)" using wf by (simp add: sched_wf_def queue_wf_def)
qed

section \<open>Selection\<close>

definition queued_ready :: "kernel \<Rightarrow> (nat \<Rightarrow> u64 list) \<Rightarrow> bool" where
  "queued_ready k qs \<longleftrightarrow> (\<forall>p < 8. \<forall>x \<in> set (qs p). \<exists>pr. view k x = Some (THREAD_READY, p, pr))"

text \<open>The highest nonempty queue below \<open>n\<close>.\<close>

primrec abs_pick :: "nat \<Rightarrow> (nat \<Rightarrow> u64 list) \<Rightarrow> nat option" where
  "abs_pick 0 qs = None"
| "abs_pick (Suc p) qs = (if qs p \<noteq> [] then Some p else abs_pick p qs)"

lemma abs_pick_Some: "abs_pick n qs = Some p \<longleftrightarrow> p < n \<and> qs p \<noteq> [] \<and> (\<forall>r. p < r \<and> r < n \<longrightarrow> qs r = [])"
proof (induction n)
  case (Suc n)
  show ?case
  proof (cases "qs n = []")
    case True
    then show ?thesis using Suc by (auto simp: less_Suc_eq)
  next
    case False
    then show ?thesis by (auto simp: less_Suc_eq)
  qed
qed simp

lemma abs_pick_None: "abs_pick n qs = None \<longleftrightarrow> (\<forall>p < n. qs p = [])"
  by (induction n) (auto simp: less_Suc_eq)

lemma wake_expired_none:
  assumes "lseg (nxq k) t xs None" "\<forall>x \<in> set xs. \<exists>u. thr k x = Some u \<and> tstate u \<noteq> THREAD_SLEEPING"
  shows "wake_expired t k = Some k"
  using assms
proof (induction xs arbitrary: t)
  case Nil
  then show ?case by (simp add: wake_expired.simps)
next
  case (Cons x xs)
  then obtain u where u: "t = Some x" "thr k x = Some u" "tstate u \<noteq> THREAD_SLEEPING" by auto
  then have "wake_expired t k = wake_expired (next_in_queue u) k"
    by (subst wake_expired.simps) (simp add: thr_rd_def)
  with Cons u show ?case by (simp add: nxq_def)
qed

lemma pick_from_spec:
  assumes wf: "sched_wf k qs" and rdy: "queued_ready k qs" and n: "n \<le> 8"
  shows "case abs_pick n qs of
      None \<Rightarrow> pick_from n k = Some (None, k)
    | Some p \<Rightarrow> \<exists>k'. pick_from n k = Some (Some (hd (qs p)), k') \<and> sched_wf k' (qs(p := tl (qs p))) \<and>
        queues_only k k' \<and> view k' = view k"
  using n
proof (induction n)
  case (Suc n)
  then have q: "queue_wf k n (qs n)" and len: "n < length (ready_head k)" using wf by (auto simp: sched_wf_def)
  have "\<forall>x \<in> set (qs n). \<exists>u. thr k x = Some u \<and> tstate u \<noteq> THREAD_SLEEPING"
  proof
    fix x assume "x \<in> set (qs n)"
    then obtain pr where "view k x = Some (THREAD_READY, n, pr)"
      using rdy Suc.prems unfolding queued_ready_def by (meson Suc_le_lessD)
    then show "\<exists>u. thr k x = Some u \<and> tstate u \<noteq> THREAD_SLEEPING" by (auto simp: view_Some)
  qed
  then have w: "wake_expired (ready_head k ! n) k = Some k"
    using q wake_expired_none unfolding queue_wf_def by blast
  show ?case
  proof (cases "qs n")
    case Nil
    then have "ready_head k ! n = None" using queue_wf_nonempty(1)[OF q] by simp
    with w len Nil have "pick_from (Suc n) k = pick_from n k" "abs_pick (Suc n) qs = abs_pick n qs" by simp_all
    with Suc show ?thesis by (simp only: Suc_leD)
  next
    case (Cons x xs)
    then have h: "ready_head k ! n = Some x" using queue_wf_nonempty(2) q by metis
    obtain pr where "view k x = Some (THREAD_READY, n, pr)"
      using rdy Suc.prems Cons unfolding queued_ready_def by force
    from dequeue_view[OF wf this] h w len Cons show ?thesis by auto
  qed
qed simp

section \<open>Switching\<close>

text \<open>What pushes, pops and address-space loads leave alone.\<close>

definition regs_only :: "kernel \<Rightarrow> kernel \<Rightarrow> bool" where
  "regs_only k k' \<longleftrightarrow> (\<exists>h c. k' = k\<lparr>kheap := h, cpu := c\<rparr>)"

lemma regs_onlyI: "k' = k\<lparr>kheap := h, cpu := c\<rparr> \<Longrightarrow> regs_only k k'"
  unfolding regs_only_def by blast

lemma regs_only_trans: "regs_only a b \<Longrightarrow> regs_only b c \<Longrightarrow> regs_only a c"
  unfolding regs_only_def by (elim exE) (simp, blast)

lemma regs_only_push: "regs_only k (push v k)"
  by (rule regs_onlyI[where h = "kheap (push v k)" and c = "cpu (push v k)"]) (simp add: push_def stack_wr_def Let_def)

lemma regs_only_pop: "regs_only k (pop f k)"
  by (rule regs_onlyI[where h = "kheap k" and c = "cpu (pop f k)"]) (simp add: pop_def Let_def)

lemma regs_only_cpu: "regs_only k (k\<lparr>cpu := c\<rparr>)"
  by (rule regs_onlyI[where h = "kheap k" and c = c]) simp

lemma regs_only_cr3: "regs_only k (load_cr3 c k)"
  by (rule regs_onlyI[where h = "kheap (load_cr3 c k)" and c = "cpu k"]) (simp add: load_cr3_def)

lemma regs_only_pop_context: "regs_only k (pop_context k)"
  unfolding pop_context_def Let_def by (meson regs_only_pop regs_only_trans)

lemma regs_only_fields:
  assumes "regs_only k k'"
  shows "thr k' = thr k" "prc k' = prc k" "ready_head k' = ready_head k" "ready_tail k' = ready_tail k"
    "sched_lock k' = sched_lock k" "idle_thread k' = idle_thread k" "current_thread k' = current_thread k"
    "current_process k' = current_process k" "tick_count k' = tick_count k"
    "tick_counter k' = tick_counter k" "sched_active k' = sched_active k"
  using assms by (auto simp: regs_only_def)

lemma switch_context_spec:
  assumes "thr k c = Some t"
  shows "\<exists>k' r. switch_context (Some c) v k = Some k' \<and> regs_only (k\<lparr>thr := (thr k)(c \<mapsto> t\<lparr>kstack_rsp := r\<rparr>)\<rparr>) k'"
proof -
  define k7 where "k7 = (let k1 = push (rip (cpu k)) k; k2 = push (rbx (cpu k1)) k1;
     k3 = push (rbp (cpu k2)) k2; k4 = push (r12 (cpu k3)) k3; k5 = push (r13 (cpu k4)) k4;
     k6 = push (r14 (cpu k5)) k5 in push (r15 (cpu k6)) k6)"
  have k7: "regs_only k k7" unfolding k7_def Let_def by (meson regs_only_push regs_only_trans)
  define k8 where "k8 = k7\<lparr>thr := (thr k7)(c \<mapsto> t\<lparr>kstack_rsp := rsp (cpu k7)\<rparr>)\<rparr>"
  obtain h ca where hc: "k7 = k\<lparr>kheap := h, cpu := ca\<rparr>" using k7 unfolding regs_only_def by blast
  have "k8 = (k\<lparr>thr := (thr k)(c \<mapsto> t\<lparr>kstack_rsp := rsp (cpu k7)\<rparr>)\<rparr>)\<lparr>kheap := h, cpu := ca\<rparr>"
    unfolding k8_def hc by simp
  then have "regs_only (k\<lparr>thr := (thr k)(c \<mapsto> t\<lparr>kstack_rsp := rsp (cpu k7)\<rparr>)\<rparr>) k8" by (rule regs_onlyI)
  moreover have "switch_context (Some c) v k = Some (pop_context (k8\<lparr>cpu := (cpu k8)\<lparr>rsp := v\<rparr>\<rparr>))"
    using assms regs_only_fields(1)[OF k7]
    unfolding switch_context_def k8_def k7_def Let_def by (simp add: thr_upd_def)
  ultimately show ?thesis using regs_only_cpu regs_only_pop_context regs_only_trans by blast
qed

text \<open>Every thread belongs to a process.\<close>

definition procs_ok :: "kernel \<Rightarrow> bool" where
  "procs_ok k \<longleftrightarrow> (\<forall>a t. thr k a = Some t \<longrightarrow> (\<exists>b p. tproc t = Some b \<and> prc k b = Some p))"

lemma procs_ok_view: "procs_ok k \<longleftrightarrow> (\<forall>a s i pr. view k a = Some (s, i, pr) \<longrightarrow> (\<exists>b p. pr = Some b \<and> prc k b = Some p))"
  unfolding procs_ok_def view_Some by (auto, blast)

definition requeue :: "bool \<Rightarrow> nat \<Rightarrow> u64 \<Rightarrow> (nat \<Rightarrow> u64 list) \<Rightarrow> nat \<Rightarrow> u64 list" where
  "requeue b p x qs = (if b then qs(p := qs p @ [x]) else qs)"

lemma thr_upd_state_wf:
  assumes "sched_wf k qs" "thr k a = Some t"
  shows "sched_wf (k\<lparr>thr := (thr k)(a \<mapsto> t\<lparr>tstate := s\<rparr>)\<rparr>) qs"
  by (rule sched_wf_cong[OF assms(1)]) (use assms(2) in auto)

text \<open>The old thread goes to the end of its queue if it was running.\<close>

lemma put_back_spec:
  assumes wf: "sched_wf k qs" and rdy: "queued_ready k qs" and c: "view k c = Some (s, p, pr)"
  shows "\<exists>k'. (do { o1 \<leftarrow> thr_rd (Some c) k;
              if tstate o1 = THREAD_RUNNING then do {
                k0 \<leftarrow> thr_upd (Some c) (\<lambda>t. t\<lparr>tstate := THREAD_READY\<rparr>) k;
                scheduler_enqueue (Some c) k0 }
              else Some k }) = Some k' \<and>
     sched_wf k' (requeue (s = THREAD_RUNNING) p c qs) \<and> queues_only k k' \<and>
     view k' = (if s = THREAD_RUNNING then (view k)(c \<mapsto> (THREAD_READY, p, pr)) else view k)"
proof -
  obtain t where t: "thr k c = Some t" "s = tstate t" "p = queue_index t" "pr = tproc t"
    using c by (auto simp: view_Some)
  show ?thesis
  proof (cases "s = THREAD_RUNNING")
    case True
    define k0 where "k0 = k\<lparr>thr := (thr k)(c \<mapsto> t\<lparr>tstate := THREAD_READY\<rparr>)\<rparr>"
    have v0: "view k0 = (view k)(c \<mapsto> (THREAD_READY, p, pr))" using t by (auto simp: k0_def view_def)
    have p: "p < 8" using t(3) by simp
    have "c \<notin> set (qs p)" using rdy p c True unfolding queued_ready_def by force
    moreover have "sched_wf k0 qs" unfolding k0_def by (rule thr_upd_state_wf[OF wf t(1)])
    moreover have "view k0 c = Some (THREAD_READY, p, pr)" using v0 by simp
    ultimately obtain k' where
      k': "scheduler_enqueue (Some c) k0 = Some k'" "sched_wf k' (qs(p := qs p @ [c]))" "queues_only k0 k'"
        "view k' = (view k)(c \<mapsto> (THREAD_READY, p, pr))" using enqueue_view[of k0 qs c] v0 by fastforce
    have "queues_only k k0" unfolding queues_only_def k0_def
      by (rule exI[of _ "thr k0"], rule exI[of _ "ready_head k"], rule exI[of _ "ready_tail k"]) (simp add: k0_def)
    then have "queues_only k k'" using k'(3) queues_only_trans by blast
    then show ?thesis using k' True t by (simp add: thr_rd_def thr_upd_def requeue_def flip: k0_def)
  next
    case False
    then show ?thesis using wf t by (simp add: thr_rd_def requeue_def)
  qed
qed

lemma switch_to_spec:
  assumes wf: "sched_wf k qs" and rdy: "queued_ready k qs" and pr: "procs_ok k"
    and c: "view k c = Some (s, p, pc)" and n: "view k n = Some (sn, q, pn)" and ne: "n \<noteq> c"
  shows "\<exists>k'. switch_to (Some c) (Some n) k = Some k' \<and>
     sched_wf k' (requeue (s = THREAD_RUNNING) p c qs) \<and>
     view k' = (if s = THREAD_RUNNING then (view k)(c \<mapsto> (THREAD_READY, p, pc)) else view k)
                 (n \<mapsto> (THREAD_RUNNING, q, pn)) \<and>
     prc k' = prc k \<and> current_thread k' = Some n \<and> idle_thread k' = idle_thread k \<and> \<not> sched_lock k' \<and>
     tick_count k' = tick_count k \<and> tick_counter k' = tick_counter k \<and> sched_active k' = sched_active k"
proof -
  define v1 where "v1 = (if s = THREAD_RUNNING then (view k)(c \<mapsto> (THREAD_READY, p, pc)) else view k)"
  obtain k1 where k1: "(do { o1 \<leftarrow> thr_rd (Some c) k;
              if tstate o1 = THREAD_RUNNING then do {
                k0 \<leftarrow> thr_upd (Some c) (\<lambda>t. t\<lparr>tstate := THREAD_READY\<rparr>) k;
                scheduler_enqueue (Some c) k0 }
              else Some k }) = Some k1"
     "sched_wf k1 (requeue (s = THREAD_RUNNING) p c qs)" "queues_only k k1" "view k1 = v1"
    using put_back_spec[OF wf rdy c] unfolding v1_def by auto
  note k1f = queues_only_fields[OF k1(3)]
  have "view k1 n = Some (sn, q, pn)" using k1(4) n ne by (simp add: v1_def)
  then obtain tn where tn: "thr k1 n = Some tn" "q = queue_index tn" "pn = tproc tn" by (auto simp: view_Some)
  obtain s1 where "view k1 c = Some (s1, p, pc)" using k1(4) c by (cases "s = THREAD_RUNNING") (auto simp: v1_def)
  then obtain tc where tc: "thr k1 c = Some tc" "p = queue_index tc" "pc = tproc tc" by (auto simp: view_Some)
  define tn' where "tn' = tn\<lparr>tstate := THREAD_RUNNING\<rparr>"
  define k3 where "k3 = k1\<lparr>thr := (thr k1)(n \<mapsto> tn'), current_thread := Some n, current_process := pn,
    tss_rsp0 := kstack_virt tn, kernel_rsp_scratch := kstack_virt tn\<rparr>"
  have wf3: "sched_wf k3 (requeue (s = THREAD_RUNNING) p c qs)"
    by (rule sched_wf_cong[OF k1(2)]) (use tn in \<open>auto simp: k3_def tn'_def\<close>)
  have v3: "view k3 = v1(n \<mapsto> (THREAD_RUNNING, q, pn))"
    unfolding k1(4)[symmetric] using tn by (auto simp: view_def k3_def tn'_def)
  obtain b x where b: "pn = Some b" "prc k b = Some x"
    using pr n unfolding procs_ok_view by blast
  define k4 where "k4 = (if pc \<noteq> None \<and> pn \<noteq> pc then load_cr3 (pcr3 x) k3 else k3)"
  have k4: "regs_only k3 k4"
    using regs_only_cr3 regs_onlyI[where k = k3 and h = "kheap k3" and c = "cpu k3"] by (simp add: k4_def)
  have tc3: "thr k3 c = Some tc" using tc ne by (simp add: k3_def)
  obtain k5 r where k5: "switch_context (Some c) (kstack_rsp tn) k4 = Some k5"
    "regs_only (k4\<lparr>thr := (thr k4)(c \<mapsto> tc\<lparr>kstack_rsp := r\<rparr>)\<rparr>) k5"
    using switch_context_spec[of k4 c tc "kstack_rsp tn"] tc3 regs_only_fields(1)[OF k4] by auto
  have run: "switch_to (Some c) (Some n) k = Some (k5\<lparr>sched_lock := False\<rparr>)"
  proof -
    have "prc_rd pn k3 = Some x" using b k1f by (simp add: prc_rd_def k3_def)
    moreover have "thr_upd (Some n) (\<lambda>t. t\<lparr>tstate := THREAD_RUNNING\<rparr>) k1 =
        Some (k1\<lparr>thr := (thr k1)(n \<mapsto> tn')\<rparr>)" using tn by (simp add: thr_upd_def tn'_def)
    moreover have "thr_rd (Some n) (k1\<lparr>thr := (thr k1)(n \<mapsto> tn')\<rparr>) = Some tn'" by (simp add: thr_rd_def)
    moreover have "thr_rd (Some c) k3 = Some tc" using tc3 by (simp add: thr_rd_def)
    moreover have "tproc tn' = pn" "kstack_virt tn' = kstack_virt tn" "kstack_rsp tn' = kstack_rsp tn"
      using tn by (simp_all add: tn'_def)
    ultimately show ?thesis using k1(1) k5(1) tc(3)
      by (cases "pc \<noteq> None \<and> pn \<noteq> pc") (auto simp: switch_to_def Let_def k4_def simp flip: k3_def)
  qed
  have f5: "thr k5 = (thr k3)(c \<mapsto> tc\<lparr>kstack_rsp := r\<rparr>)"
    using regs_only_fields(1)[OF k5(2)] regs_only_fields(1)[OF k4] by simp
  have wf5: "sched_wf (k5\<lparr>sched_lock := False\<rparr>) (requeue (s = THREAD_RUNNING) p c qs)"
    by (rule sched_wf_cong[OF wf3])
      (use f5 tc3 regs_only_fields[OF k5(2)] regs_only_fields[OF k4] in auto)
  have v5: "view (k5\<lparr>sched_lock := False\<rparr>) = view k3"
    unfolding view_def using f5 tc3 by auto
  show ?thesis using run wf5 v5 v3 k1f regs_only_fields[OF k5(2)] regs_only_fields[OF k4]
    unfolding v1_def by (simp add: k3_def)
qed

section \<open>The scheduler refines a list scheduler\<close>

text \<open>
  The abstract scheduler: from the current thread, the idle thread, whether the current thread is
  still running, and its queue, the next thread and the new queues.
\<close>

definition abs_schedule ::
  "u64 \<Rightarrow> u64 \<Rightarrow> bool \<Rightarrow> nat \<Rightarrow> (nat \<Rightarrow> u64 list) \<Rightarrow> u64 \<times> (nat \<Rightarrow> u64 list)" where
  "abs_schedule c i running pc qs =
     (case abs_pick 8 qs of
        None \<Rightarrow> if c = i then (c, qs) else (i, requeue running pc c qs)
      | Some p \<Rightarrow>
          let x = hd (qs p); qs1 = qs(p := tl (qs p))
          in if x = c then (c, requeue True p c qs1) else (x, requeue running pc c qs1))"

text \<open>
  The invariant: the queues are represented, hold exactly ready threads, the current and the idle
  thread exist, every thread has a process, and the scheduler is not locked.
\<close>

definition sched_inv :: "kernel \<Rightarrow> (nat \<Rightarrow> u64 list) \<Rightarrow> u64 \<Rightarrow> u64 \<Rightarrow> bool" where
  "sched_inv k qs c i \<longleftrightarrow> sched_wf k qs \<and> queued_ready k qs \<and> procs_ok k \<and> \<not> sched_lock k \<and>
     current_thread k = Some c \<and> idle_thread k = Some i \<and> view k c \<noteq> None \<and> view k i \<noteq> None"

lemma sched_wf_lock [simp]: "sched_wf (k\<lparr>sched_lock := b\<rparr>) qs = sched_wf k qs"
  unfolding sched_wf_def queue_wf_def nxq_def by simp

lemma view_lock [simp]: "view (k\<lparr>sched_lock := b\<rparr>) = view k"
  by (simp add: view_def)

lemma procs_ok_lock [simp]: "procs_ok (k\<lparr>sched_lock := b\<rparr>) = procs_ok k"
  by (simp add: procs_ok_def)

lemma queued_ready_cong: "view k' = view k \<Longrightarrow> queued_ready k' qs = queued_ready k qs"
  by (simp add: queued_ready_def)

lemma queued_ready_tl: "queued_ready k qs \<Longrightarrow> queued_ready k (qs(p := tl (qs p)))"
  unfolding queued_ready_def by (cases "qs p") auto

text \<open>The head of the chosen queue is in no queue after it has been taken.\<close>

lemma chosen_gone:
  assumes "sched_wf k qs" "queued_ready k qs" "p < 8" "qs p = x # xs" "r < 8"
  shows "x \<notin> set ((qs(p := xs)) r)"
proof
  assume x: "x \<in> set ((qs(p := xs)) r)"
  have "queue_wf k p (x # xs)" using assms(1,3,4) by (metis sched_wf_def)
  then have d: "x \<notin> set xs" by (simp add: queue_wf_def)
  then have "r \<noteq> p" "x \<in> set (qs r)" using x by (auto split: if_splits)
  then have "\<exists>pr. view k x = Some (THREAD_READY, p, pr)" "\<exists>pr. view k x = Some (THREAD_READY, r, pr)"
    using assms(2-5) unfolding queued_ready_def by auto
  then show False using \<open>r \<noteq> p\<close> by auto
qed

lemma switch_inv:
  assumes inv: "sched_wf k qs" "queued_ready k qs" "procs_ok k" "idle_thread k = Some i" "view k i \<noteq> None"
    and c: "view k c = Some (s, p, pc)" and n: "view k n = Some (sn, q, pn)" "n \<noteq> c"
    and out: "\<And>r. r < 8 \<Longrightarrow> n \<notin> set (qs r)"
  shows "\<exists>k'. switch_to (Some c) (Some n) k = Some k' \<and>
     sched_inv k' (requeue (s = THREAD_RUNNING) p c qs) n i \<and>
     (\<forall>a. a \<noteq> c \<and> a \<noteq> n \<longrightarrow> view k' a = view k a) \<and> view k' n = Some (THREAD_RUNNING, q, pn) \<and>
     map_option fst (view k' c) = Some (if s = THREAD_RUNNING then THREAD_READY else s) \<and>
     queue_of k' = queue_of k \<and> prc k' = prc k \<and>
     tick_count k' = tick_count k \<and> tick_counter k' = tick_counter k \<and> sched_active k' = sched_active k"
proof -
  let ?v = "(if s = THREAD_RUNNING then (view k)(c \<mapsto> (THREAD_READY, p, pc)) else view k)(n \<mapsto> (THREAD_RUNNING, q, pn))"
  obtain k' where k': "switch_to (Some c) (Some n) k = Some k'"
     "sched_wf k' (requeue (s = THREAD_RUNNING) p c qs)" "view k' = ?v"
     "prc k' = prc k" "current_thread k' = Some n" "idle_thread k' = idle_thread k" "\<not> sched_lock k'"
     "tick_count k' = tick_count k" "tick_counter k' = tick_counter k" "sched_active k' = sched_active k"
    using switch_to_spec[OF inv(1-3) c n] by blast
  have cq: "c \<notin> set (qs r)" if "s = THREAD_RUNNING" "r < 8" for r
    using inv(2) c that unfolding queued_ready_def by force
  have p8: "p < 8" using c by (auto simp: view_Some)
  have "queued_ready k' (requeue (s = THREAD_RUNNING) p c qs)"
    unfolding queued_ready_def
  proof (intro allI impI ballI)
    fix r x assume r: "r < 8" and x: "x \<in> set (requeue (s = THREAD_RUNNING) p c qs r)"
    have xn: "x \<noteq> n" using out[OF r] x n(2) by (auto simp: requeue_def split: if_splits)
    show "\<exists>pr. view k' x = Some (THREAD_READY, r, pr)"
    proof (cases "x \<in> set (qs r)")
      case True
      then obtain pr where "view k x = Some (THREAD_READY, r, pr)" using inv(2) r unfolding queued_ready_def by blast
      then show ?thesis using k'(3) xn True cq[OF _ r] by auto
    next
      case False
      then have "s = THREAD_RUNNING" "r = p" "x = c" using x by (auto simp: requeue_def split: if_splits)
      then show ?thesis using k'(3) xn by simp
    qed
  qed
  moreover have "procs_ok k'" unfolding procs_ok_view k'(3,4) using inv(3) c n unfolding procs_ok_view
    by (auto split: if_splits)
  moreover have "view k' i \<noteq> None" "view k' n \<noteq> None" using k'(3) inv(5) by auto
  ultimately have "sched_inv k' (requeue (s = THREAD_RUNNING) p c qs) n i"
    using k' inv(4) by (simp add: sched_inv_def)
  moreover have "queue_of k' = queue_of k"
    unfolding queue_of_view k'(3) using c n by (auto split: if_splits)
  moreover have "map_option fst (view k' c) = Some (if s = THREAD_RUNNING then THREAD_READY else s)"
    using k'(3) c n(2) by auto
  ultimately show ?thesis using k' by auto
qed

lemma schedule_spec:
  assumes inv: "sched_inv k qs c i" and c: "view k c = Some (s, p, pc)"
  shows "\<exists>k'. schedule k = Some k' \<and>
     (case abs_schedule c i (s = THREAD_RUNNING) p qs of (c', qs') \<Rightarrow>
        sched_inv k' qs' c' i \<and> (c' \<noteq> c \<longrightarrow> map_option fst (view k' c') = Some THREAD_RUNNING) \<and>
        (\<forall>a. a \<noteq> c \<and> a \<noteq> c' \<longrightarrow> view k' a = view k a) \<and>
        map_option fst (view k' c) = Some (if s = THREAD_RUNNING \<and> c' \<noteq> c then THREAD_READY else s)) \<and>
     queue_of k' = queue_of k \<and> prc k' = prc k \<and>
     tick_count k' = tick_count k \<and> tick_counter k' = tick_counter k \<and> sched_active k' = sched_active k"
proof -
  define k0 where "k0 = k\<lparr>sched_lock := True\<rparr>"
  have wf: "sched_wf k0 qs" and rdy: "queued_ready k0 qs" and pr: "procs_ok k0" and lk: "\<not> sched_lock k"
    and cur: "current_thread k = Some c" and idl: "idle_thread k0 = Some i" and vi: "view k0 i \<noteq> None"
    and v0: "view k0 = view k"
    using inv by (simp_all add: sched_inv_def k0_def queued_ready_def)
  have t0: "prc k0 = prc k" "tick_count k0 = tick_count k" "tick_counter k0 = tick_counter k" "sched_active k0 = sched_active k"
    by (simp_all add: k0_def)
  note pick = pick_from_spec[OF wf rdy order_refl]
  have qo: "queue_of k' = queue_of k" if "view k' = view k" for k' using that by (simp add: queue_of_view)
  show ?thesis
  proof (cases "abs_pick 8 qs")
    case None
    then have pn: "pick_next k0 = Some (None, k0)" using pick by (simp add: pick_next_def SCHED_NUM_PRIORITIES_def)
    show ?thesis
    proof (cases "c = i")
      case True
      have "schedule k = Some (k0\<lparr>sched_lock := False\<rparr>)"
        using lk cur pn idl True by (simp add: schedule_def flip: k0_def)
      moreover have "sched_inv (k0\<lparr>sched_lock := False\<rparr>) qs c i"
        using inv by (simp add: sched_inv_def k0_def queued_ready_def)
      ultimately show ?thesis using None True c v0 t0 qo[of "k0\<lparr>sched_lock := False\<rparr>"]
        by (auto simp: abs_schedule_def)
    next
      case False
      obtain sn q pn' where n: "view k0 i = Some (sn, q, pn')" using vi by (cases "view k0 i") auto
      have "i \<notin> set (qs r)" if "r < 8" for r using None that by (simp add: abs_pick_None)
      from switch_inv[OF wf rdy pr idl vi c[folded v0] n _ this] False obtain k' where
        k': "switch_to (Some c) (Some i) k0 = Some k'" "sched_inv k' (requeue (s = THREAD_RUNNING) p c qs) i i"
          "\<forall>a. a \<noteq> c \<and> a \<noteq> i \<longrightarrow> view k' a = view k0 a" "view k' i = Some (THREAD_RUNNING, q, pn')"
          "map_option fst (view k' c) = Some (if s = THREAD_RUNNING then THREAD_READY else s)"
          "queue_of k' = queue_of k0" "prc k' = prc k0" "tick_count k' = tick_count k0"
          "tick_counter k' = tick_counter k0" "sched_active k' = sched_active k0" by metis
      have "schedule k = Some k'"
        using lk cur pn idl False k'(1) by (simp add: schedule_def Let_def flip: k0_def)
      moreover have "queue_of k' = queue_of k" using k'(6) qo[of k0] v0 by simp
      ultimately show ?thesis using None False k' t0 v0 by (simp add: abs_schedule_def)
    qed
  next
    case (Some r)
    then have r: "r < 8" "qs r \<noteq> []" by (simp_all add: abs_pick_Some)
    then obtain x xs where x: "qs r = x # xs" by (cases "qs r") auto
    obtain k1 where k1: "pick_next k0 = Some (Some x, k1)" "sched_wf k1 (qs(r := xs))" "queues_only k0 k1" "view k1 = view k0"
      using pick Some x by (auto simp: pick_next_def SCHED_NUM_PRIORITIES_def)
    note f1 = queues_only_fields[OF k1(3)]
    have rdy1: "queued_ready k1 (qs(r := xs))"
      using queued_ready_tl[OF rdy, of r] x k1(4) by (simp add: queued_ready_def)
    have pr1: "procs_ok k1" using pr f1 k1(4) by (simp add: procs_ok_view)
    have gone: "x \<notin> set ((qs(r := xs)) r')" if "r' < 8" for r'
      by (rule chosen_gone[OF wf rdy r(1) x that])
    obtain px where vx: "view k x = Some (THREAD_READY, r, px)"
      using rdy r(1) x v0 unfolding queued_ready_def by force
    show ?thesis
    proof (cases "x = c")
      case True
      then have sp: "s = THREAD_READY" "p = r" "px = pc" using vx c by auto
      obtain k2 where k2: "scheduler_enqueue (Some c) k1 = Some k2"
        "sched_wf k2 ((qs(r := xs))(r := (qs(r := xs)) r @ [c]))" "queues_only k1 k2"
        "view k2 = (view k1)(c \<mapsto> (THREAD_READY, r, pc))"
        using enqueue_view[OF k1(2), of c THREAD_READY r pc] gone[OF r(1)] True vx sp k1(4) v0 by auto
      have v2: "view k2 = view k" using k2(4) k1(4) v0 c sp by auto
      note f2 = queues_only_fields[OF k2(3)]
      have run: "schedule k = Some (k2\<lparr>sched_lock := False\<rparr>)"
        using lk cur k1(1) True k2(1) by (simp add: schedule_def Let_def flip: k0_def)
      have "queued_ready (k2\<lparr>sched_lock := False\<rparr>) (qs(r := xs @ [c]))"
        using rdy v2 v0 x True unfolding queued_ready_def by auto
      then have "sched_inv (k2\<lparr>sched_lock := False\<rparr>) (qs(r := xs @ [c])) c i"
        using k2(2) f1 f2 v2 c vi v0 idl cur pr1 inv
        by (simp add: sched_inv_def procs_ok_view k0_def)
      then show ?thesis using run Some x True c v2 sp f1 f2 t0 qo[of "k2\<lparr>sched_lock := False\<rparr>"]
        by (auto simp: abs_schedule_def requeue_def)
    next
      case False
      have idl1: "idle_thread k1 = Some i" "view k1 i \<noteq> None" using f1 idl k1(4) vi by simp_all
      have c1: "view k1 c = Some (s, p, pc)" "view k1 x = Some (THREAD_READY, r, px)" using k1(4) v0 c vx by simp_all
      obtain k' where
        k': "switch_to (Some c) (Some x) k1 = Some k'" "sched_inv k' (requeue (s = THREAD_RUNNING) p c (qs(r := xs))) x i"
          "\<forall>a. a \<noteq> c \<and> a \<noteq> x \<longrightarrow> view k' a = view k1 a" "view k' x = Some (THREAD_RUNNING, r, px)"
          "map_option fst (view k' c) = Some (if s = THREAD_RUNNING then THREAD_READY else s)"
          "queue_of k' = queue_of k1" "prc k' = prc k1" "tick_count k' = tick_count k1" "tick_counter k' = tick_counter k1"
          "sched_active k' = sched_active k1"
        using switch_inv[OF k1(2) rdy1 pr1 idl1 c1 False gone] by blast
      have "schedule k = Some k'"
        using lk cur k1(1) False k'(1) by (simp add: schedule_def Let_def flip: k0_def)
      moreover have "queue_of k' = queue_of k" using k'(6) qo[of k1] k1(4) v0 by simp
      ultimately show ?thesis using Some x False k' f1 t0 k1(4) v0
        by (simp add: abs_schedule_def)
    qed
  qed
qed


section \<open>Fairness\<close>

primrec schedule_n :: "nat \<Rightarrow> kernel \<Rightarrow> kernel option" where
  "schedule_n 0 k = Some k"
| "schedule_n (Suc n) k = Option.bind (schedule k) (schedule_n n)"

lemma round_robin_step:
  assumes inv: "sched_inv k qs c i" and p: "abs_pick 8 qs = Some p"
    and low: "\<forall>pc pr. view k c = Some (THREAD_RUNNING, pc, pr) \<longrightarrow> pc \<le> p"
  shows "\<exists>k' ys. schedule k = Some k' \<and> current_thread k' = Some (hd (qs p)) \<and>
     (\<exists>qs'. sched_inv k' qs' (hd (qs p)) i \<and> qs' p = tl (qs p) @ ys \<and> (\<forall>r. p < r \<and> r < 8 \<longrightarrow> qs' r = []) \<and>
       (\<forall>pc pr. view k' (hd (qs p)) = Some (THREAD_RUNNING, pc, pr) \<longrightarrow> pc \<le> p))"
proof -
  have pk: "p < 8" "qs p \<noteq> []" "\<forall>r. p < r \<and> r < 8 \<longrightarrow> qs r = []" using p by (auto simp: abs_pick_Some)
  obtain s pc pr where c: "view k c = Some (s, pc, pr)" using inv by (cases "view k c") (auto simp: sched_inv_def)
  obtain c' qs' where abs: "abs_schedule c i (s = THREAD_RUNNING) pc qs = (c', qs')" by fastforce
  obtain k' where k': "schedule k = Some k'" "sched_inv k' qs' c' i" "queue_of k' = queue_of k"
    using schedule_spec[OF inv c] abs by auto
  have hd: "c' = hd (qs p)" using abs p by (auto simp: abs_schedule_def Let_def split: if_splits)
  have q': "qs' = requeue (hd (qs p) = c \<or> s = THREAD_RUNNING) (if hd (qs p) = c then p else pc) c (qs(p := tl (qs p)))"
    using abs p by (auto simp: abs_schedule_def Let_def split: if_splits)
  have hv: "queue_of k (hd (qs p)) = Some p"
    using inv pk list.set_sel(1)[OF pk(2)] unfolding sched_inv_def queued_ready_def queue_of_view by fastforce
  have "\<exists>ys. qs' p = tl (qs p) @ ys" using q' by (auto simp: requeue_def)
  moreover have "qs' r = []" if "p < r" "r < 8" for r
    using q' pk(3) that low c by (auto simp: requeue_def)
  moreover have "pc' \<le> p" if "view k' c' = Some (THREAD_RUNNING, pc', pr')" for pc' pr'
  proof -
    have "queue_of k' c' = Some pc'" using that by (simp add: queue_of_view)
    then show ?thesis using k'(3) hv hd by simp
  qed
  ultimately show ?thesis using k' hd unfolding sched_inv_def by blast
qed

text \<open>
  C20. Round robin without starvation. While only the scheduler runs, the thread at position \<open>j\<close> of
  the highest nonempty queue is given the processor by the \<open>(j+1)\<close>-th call of \<open>schedule\<close>, provided
  the running thread does not outrank that queue.
\<close>

theorem schedule_round_robin:
  assumes "sched_inv k qs c i" "abs_pick 8 qs = Some p" "j < length (qs p)"
    "\<forall>pc pr. view k c = Some (THREAD_RUNNING, pc, pr) \<longrightarrow> pc \<le> p"
  shows "\<exists>k'. schedule_n (Suc j) k = Some k' \<and> current_thread k' = Some (qs p ! j)"
  using assms
proof (induction j arbitrary: k qs c)
  case 0
  from round_robin_step[OF 0(1,2,4)] 0(3) show ?case by (auto simp: hd_conv_nth)
next
  case (Suc j)
  obtain k1 ys qs' where k1: "schedule k = Some k1" "sched_inv k1 qs' (hd (qs p)) i" "qs' p = tl (qs p) @ ys"
    "\<forall>r. p < r \<and> r < 8 \<longrightarrow> qs' r = []"
    "\<forall>pc pr. view k1 (hd (qs p)) = Some (THREAD_RUNNING, pc, pr) \<longrightarrow> pc \<le> p"
    using round_robin_step[OF Suc.prems(1,2,4)] by blast
  have j: "j < length (tl (qs p))" using Suc.prems(3) by simp
  then have "tl (qs p) \<noteq> []" by (metis length_0_conv not_less0)
  then have "abs_pick 8 qs' = Some p" using k1(3,4) Suc.prems(2) by (auto simp: abs_pick_Some)
  moreover have "j < length (qs' p)" "qs' p ! j = qs p ! Suc j"
    using k1(3) j Suc.prems(3) by (auto simp: nth_append nth_tl)
  ultimately show ?case using Suc.IH[OF k1(2) _ _ k1(5)] k1(1) by auto
qed

section \<open>Sleeping threads\<close>

primrec timer_n :: "nat \<Rightarrow> kernel \<Rightarrow> kernel option" where
  "timer_n 0 k = Some k"
| "timer_n (Suc n) k = Option.bind (scheduler_timer_handler k) (timer_n n)"

lemma sched_inv_ticks [simp]:
  "sched_inv (k\<lparr>tick_count := x\<rparr>) qs c i = sched_inv k qs c i"
  "sched_inv (k\<lparr>tick_counter := y\<rparr>) qs c i = sched_inv k qs c i"
  unfolding sched_inv_def sched_wf_def queue_wf_def nxq_def queued_ready_def view_def procs_ok_def by simp_all

lemma view_ticks [simp]: "view (k\<lparr>tick_count := x\<rparr>) = view k" "view (k\<lparr>tick_counter := y\<rparr>) = view k"
  by (simp_all add: view_def)

lemma schedule_sleeper:
  assumes inv: "sched_inv k qs c i" and a: "view k a = Some (THREAD_SLEEPING, p, pr)" "a \<noteq> c" "a \<noteq> i"
  shows "\<exists>k' qs' c'. schedule k = Some k' \<and> sched_inv k' qs' c' i \<and> view k' a = view k a \<and> a \<noteq> c' \<and>
           tick_count k' = tick_count k"
proof -
  obtain s pc pr' where c: "view k c = Some (s, pc, pr')" using inv by (cases "view k c") (auto simp: sched_inv_def)
  obtain c' qs' where abs: "abs_schedule c i (s = THREAD_RUNNING) pc qs = (c', qs')" by fastforce
  have "a \<noteq> c'"
  proof (cases "abs_pick 8 qs")
    case None
    then show ?thesis using abs a(2,3) by (auto simp: abs_schedule_def split: if_splits)
  next
    case (Some r)
    then have "r < 8" "qs r \<noteq> []" by (auto simp: abs_pick_Some)
    then have "\<exists>pr. view k (hd (qs r)) = Some (THREAD_READY, r, pr)"
      using inv unfolding sched_inv_def queued_ready_def by (meson list.set_sel(1))
    then show ?thesis using abs Some a by (auto simp: abs_schedule_def Let_def split: if_splits)
  qed
  with schedule_spec[OF inv c] abs a(2) show ?thesis by auto
qed

lemma timer_sleeper:
  assumes inv: "sched_inv k qs c i" and a: "view k a = Some (THREAD_SLEEPING, p, pr)" "a \<noteq> c" "a \<noteq> i"
  shows "\<exists>k' qs' c'. scheduler_timer_handler k = Some k' \<and> sched_inv k' qs' c' i \<and> view k' a = view k a \<and> a \<noteq> c' \<and>
           tick_count k' = tick_count k + 1"
proof -
  define k1 where "k1 = k\<lparr>tick_count := tick_count k + 1\<rparr>"
  have inv1: "sched_inv (k1\<lparr>tick_counter := y\<rparr>) qs c i" for y using inv by (simp add: k1_def)
  have v1: "view (k1\<lparr>tick_counter := y\<rparr>) = view k" for y by (simp add: k1_def)
  consider "\<not> sched_active k1" | "sched_active k1" "SCHED_QUANTUM_MS \<le> tick_counter k1 + 1"
    | "sched_active k1" "\<not> SCHED_QUANTUM_MS \<le> tick_counter k1 + 1" by blast
  then show ?thesis
  proof cases
    case 1
    then have "scheduler_timer_handler k = Some k1"
      by (simp add: scheduler_timer_handler_def pit_tick_increment_def flip: k1_def)
    then show ?thesis using inv a by (auto simp: k1_def)
  next
    case 2
    then have "scheduler_timer_handler k = schedule (k1\<lparr>tick_counter := 0\<rparr>)"
      by (simp add: scheduler_timer_handler_def pit_tick_increment_def scheduler_tick_def Let_def flip: k1_def)
    moreover have "tick_count (k1\<lparr>tick_counter := 0\<rparr>) = tick_count k + 1" by (simp add: k1_def)
    ultimately show ?thesis
      using schedule_sleeper[OF inv1[of 0], of a] a v1[of 0] by metis
  next
    case 3
    then have "scheduler_timer_handler k = Some (k1\<lparr>tick_counter := tick_counter k1 + 1\<rparr>)"
      by (simp add: scheduler_timer_handler_def pit_tick_increment_def scheduler_tick_def Let_def flip: k1_def)
    then show ?thesis using inv1 v1 a by (fastforce simp: k1_def)
  qed
qed

text \<open>
  C21. A thread put to sleep is never woken by the timer. From a state that satisfies the scheduler
  invariant, a sleeping thread other than the current and the idle thread is still sleeping after
  any number of timer interrupts, whatever its wake-up time, since \<open>pick_next\<close> looks for
  expired sleepers in the run queues only and \<open>scheduler_block\<close> has taken the thread off them.
\<close>

theorem sleeper_never_woken:
  assumes "sched_inv k qs c i" "thr k a = Some t" "tstate t = THREAD_SLEEPING" "a \<noteq> c" "a \<noteq> i"
  shows "\<exists>k' t'. timer_n n k = Some k' \<and> tick_count k' = tick_count k + of_nat n \<and>
           thr k' a = Some t' \<and> tstate t' = THREAD_SLEEPING"
proof -
  have "\<exists>k' qs' c'. timer_n n k = Some k' \<and> sched_inv k' qs' c' i \<and> view k' a = view k a \<and> a \<noteq> c' \<and>
      tick_count k' = tick_count k + of_nat n"
    if "sched_inv k qs c i" "view k a = Some (THREAD_SLEEPING, queue_index t, tproc t)" "a \<noteq> c" for k qs c
    using that
  proof (induction n arbitrary: k qs c)
    case 0
    then show ?case by auto
  next
    case (Suc n)
    from timer_sleeper[OF Suc.prems assms(5)] obtain k1 qs1 c1 where
      k1: "scheduler_timer_handler k = Some k1" "sched_inv k1 qs1 c1 i" "view k1 a = view k a" "a \<noteq> c1"
        "tick_count k1 = tick_count k + 1" by blast
    from Suc.IH[OF k1(2) _ k1(4)] k1 Suc.prems(2) show ?case by (auto simp: algebra_simps)
  qed
  moreover have "view k a = Some (THREAD_SLEEPING, queue_index t, tproc t)" using assms(2,3) by (simp add: view_def)
  ultimately obtain k' where "timer_n n k = Some k'" "view k' a = Some (THREAD_SLEEPING, queue_index t, tproc t)"
    "tick_count k' = tick_count k + of_nat n" using assms(1,4) by metis
  then show ?thesis by (auto simp: view_Some)
qed

section \<open>A concrete state\<close>

text \<open>
  Five threads of one process: \<open>0x1000\<close> runs, \<open>0x2000\<close> is the idle thread, \<open>0x3000\<close> sleeps, and
  \<open>0x4000\<close> and \<open>0x5000\<close> wait in the queue of normal priority.
\<close>

definition demo_thread :: "thread_state \<Rightarrow> u8 \<Rightarrow> u64 option \<Rightarrow> thread" where
  "demo_thread s p nx = \<lparr>tid = 0, tstate = s, priority = p, kstack_phys = 0, kstack_virt = 0, kstack_rsp = 0,
     ustack_virt_top = 0, sleep_until_ms = 0, next_in_proc = None, next_in_queue = nx, tproc = Some 0x9000\<rparr>"

definition demo_process :: process where
  "demo_process = \<lparr>pid = 1, ppid = 0, pstate = PROC_ALIVE, uid = 0, gid = 0, euid = 0, egid = 0, pcr3 = 0x1000,
     threads = None, thread_count = 5, pfd_table = None, cwd = Some ''/'', exit_code = 0, heap_base = 0,
     heap_end = 0, stack_top_virt = 0, stack_limit_virt = 0, vmas = None, pnext = None\<rparr>"

definition demo_regs :: regs where
  "demo_regs = \<lparr>rsp = 0xffff800000005000, rip = 0, rbx = 0, rbp = 0, r12 = 0, r13 = 0, r14 = 0, r15 = 0,
     rdi = 0, rsi = 0, rdx = 0, rax = 0, if_flag = False\<rparr>"

definition demo_kheap :: heap where
  "demo_kheap = \<lparr>heap_start = None, heap_virt_base = 0, heap_virt_end = 0, heap_total_size = 0,
     hdrs = (\<lambda>_. None), bytes = (\<lambda>_. 0), vm = demo_vmm\<rparr>"

definition demo_kernel :: kernel where
  "demo_kernel = \<lparr>kheap = demo_kheap,
     thr = [0x1000 \<mapsto> demo_thread THREAD_RUNNING 4 None, 0x2000 \<mapsto> demo_thread THREAD_READY 0 None,
            0x3000 \<mapsto> demo_thread THREAD_SLEEPING 4 None,
            0x4000 \<mapsto> demo_thread THREAD_READY 4 (Some 0x5000), 0x5000 \<mapsto> demo_thread THREAD_READY 4 None],
     prc = [0x9000 \<mapsto> demo_process], vmat = Map.empty, fdts = Map.empty,
     ready_head = [None, None, None, None, Some 0x4000, None, None, None],
     ready_tail = [None, None, None, None, Some 0x5000, None, None, None],
     tick_counter = 0, sched_active = True, sched_lock = False, idle_process = None, idle_thread = Some 0x2000,
     current_process = Some 0x9000, current_thread = Some 0x1000, proc_table_head = Some 0x9000,
     next_pid = 2, next_tid = 5, tick_count = 0, tss_rsp0 = 0, kernel_rsp_scratch = 0, cpu = demo_regs\<rparr>"

definition demo_queues :: "nat \<Rightarrow> u64 list" where
  "demo_queues = (\<lambda>_. [])(4 := [0x4000, 0x5000])"

lemma demo_index [simp]: "queue_index (demo_thread s 4 nx) = 4" "queue_index (demo_thread s 0 nx) = 0"
  by (simp_all add: queue_index_def demo_thread_def SCHED_NUM_PRIORITIES_def)

lemma demo_thread_fields [simp]:
  "tstate (demo_thread s p nx) = s" "next_in_queue (demo_thread s p nx) = nx" "tproc (demo_thread s p nx) = Some 0x9000"
  by (simp_all add: demo_thread_def)

lemma demo_sched_inv: "sched_inv demo_kernel demo_queues 0x1000 0x2000"
proof -
  have "queue_wf demo_kernel p (demo_queues p)" if "p < 8" for p
  proof -
    have "p \<in> {0, 1, 2, 3, 4, 5, 6, 7}" using that by auto
    then show ?thesis by (auto simp: queue_wf_def demo_kernel_def demo_queues_def nxq_def)
  qed
  then have "sched_wf demo_kernel demo_queues" by (simp add: sched_wf_def demo_kernel_def)
  moreover have "queued_ready demo_kernel demo_queues"
    by (auto simp: queued_ready_def demo_queues_def view_def demo_kernel_def)
  moreover have "procs_ok demo_kernel" by (auto simp: procs_ok_def demo_kernel_def split: if_splits)
  ultimately show ?thesis by (simp add: sched_inv_def demo_kernel_def view_def)
qed


theorem schedule_round_robin_witness:
  "\<exists>k'. schedule_n 2 demo_kernel = Some k' \<and> current_thread k' = Some 0x5000"
proof -
  have "abs_pick 8 demo_queues = Some 4" by (simp add: demo_queues_def eval_nat_numeral)
  moreover have "\<forall>pc pr. view demo_kernel 0x1000 = Some (THREAD_RUNNING, pc, pr) \<longrightarrow> pc \<le> 4"
    by (simp add: view_def demo_kernel_def)
  ultimately have "\<exists>k'. schedule_n (Suc 1) demo_kernel = Some k' \<and> current_thread k' = Some (demo_queues 4 ! 1)"
    by (intro schedule_round_robin[OF demo_sched_inv]) (simp_all add: demo_queues_def)
  then show ?thesis by (simp add: demo_queues_def numeral_2_eq_2)
qed

theorem sleeper_never_woken_witness:
  "\<exists>k' t'. timer_n 1000 demo_kernel = Some k' \<and> tick_count k' = 1000 \<and>
     thr k' 0x3000 = Some t' \<and> tstate t' = THREAD_SLEEPING"
proof -
  have "thr demo_kernel 0x3000 = Some (demo_thread THREAD_SLEEPING 4 None)" "tick_count demo_kernel = 0"
    by (simp_all add: demo_kernel_def)
  with sleeper_never_woken[OF demo_sched_inv this(1), of 1000] show ?thesis by simp
qed

end
