(* ===== verification/Process.thy ===== *)
theory Process
  imports Sched
begin

text \<open>
  Threads, processes and memory areas (\<open>kernel/src/sched/thread.c\<close>, \<open>process.c\<close>, \<open>vma.c\<close>), the parts
  of the scheduler that create and end them, and the page-fault handler of \<open>mm/vmm.c\<close>. Control
  blocks come from the kernel heap: an allocation yields an address from \<open>kmalloc\<close>, and the typed maps
  of the state hold the block that the code keeps there. \<open>kpanic\<close> does not return.
\<close>

section \<open>Memory services\<close>

definition k_kmalloc :: "u64 \<Rightarrow> kernel \<Rightarrow> (u64 option \<times> kernel) option" where
  "k_kmalloc n k = do { (p, h) \<leftarrow> kmalloc n (kheap k); Some (p, k\<lparr>kheap := h\<rparr>) }"

definition k_kfree :: "u64 option \<Rightarrow> kernel \<Rightarrow> kernel option" where
  "k_kfree p k = do { h \<leftarrow> kfree p (kheap k); Some (k\<lparr>kheap := h\<rparr>) }"

definition k_vm :: "(vmm \<Rightarrow> vmm option) \<Rightarrow> kernel \<Rightarrow> kernel option" where
  "k_vm f k = do { v \<leftarrow> f (vm (kheap k)); Some (k\<lparr>kheap := (kheap k)\<lparr>vm := v\<rparr>\<rparr>) }"

definition k_alloc_page :: "kernel \<Rightarrow> (u64 \<times> kernel) option" where
  "k_alloc_page k = do {
     (a, v) \<leftarrow> vmm_alloc_page (vm (kheap k));
     Some (a, k\<lparr>kheap := (kheap k)\<lparr>vm := v\<rparr>\<rparr>) }"

definition SIZEOF_THREAD :: u64 where "SIZEOF_THREAD = 80"
definition SIZEOF_PROCESS :: u64 where "SIZEOF_PROCESS = 128"
definition SIZEOF_VMA :: u64 where "SIZEOF_VMA = 32"
definition SIZEOF_FD_TABLE :: u64 where "SIZEOF_FD_TABLE = 520"
definition THREAD_KERNEL_STACK_SIZE :: u64 where "THREAD_KERNEL_STACK_SIZE = 4096"

section \<open>Threads\<close>

definition alloc_tid :: "kernel \<Rightarrow> u32 \<times> kernel" where
  "alloc_tid k = (next_tid k, k\<lparr>next_tid := next_tid k + 1\<rparr>)"

text \<open>\<open>*--sp = v\<close>\<close>

definition push_at :: "u64 \<Rightarrow> u64 \<times> kernel \<Rightarrow> u64 \<times> kernel" where
  "push_at v sk = (fst sk - 8, stack_wr (fst sk - 8) v (snd sk))"

text \<open>The stack of a new thread; \<open>stub\<close> is the address of \<open>thread_entry_stub\<close>.\<close>

definition build_stack :: "u64 \<Rightarrow> u64 \<Rightarrow> u64 \<Rightarrow> u64 \<Rightarrow> u64 \<times> kernel \<Rightarrow> u64 \<times> kernel" where
  "build_stack stub entry_rip arg1 arg2 sk =
     (push_at 0 \<circ> push_at 0 \<circ> push_at 0 \<circ> push_at 0 \<circ> push_at 0 \<circ> push_at 0 \<circ>
      push_at stub \<circ> push_at entry_rip \<circ> push_at arg1 \<circ> push_at arg2) sk"

definition thread_create ::
  "u64 \<Rightarrow> u64 option \<Rightarrow> u64 \<Rightarrow> u64 \<Rightarrow> u64 \<Rightarrow> kernel \<Rightarrow> (u64 option \<times> kernel) option" where
  "thread_create stub proc entry_rip arg1 arg2 k =
     (if proc = None then Some (None, k)
      else do {
        (tp, k1) \<leftarrow> k_kmalloc SIZEOF_THREAD k;
        case tp of
          None \<Rightarrow> Some (None, k1)
        | Some t \<Rightarrow> do {
            let (id, k2) = alloc_tid k1;
            (phys, k3) \<leftarrow> k_alloc_page k2;
            if phys = 0 then do { k4 \<leftarrow> k_kfree (Some t) k3; Some (None, k4) }
            else do {
              let hhdm = vmm_get_hhdm_offset (vm (kheap k3));
              let stack_page_virt = phys + hhdm;
              let top1 = stack_page_virt + THREAD_KERNEL_STACK_SIZE;
              k4 \<leftarrow> k_vm (\<lambda>v. Some (v\<lparr>pm := hhdm_zero (pm v) stack_page_virt THREAD_KERNEL_STACK_SIZE\<rparr>)) k3;
              let (sp, k5) = build_stack stub entry_rip arg1 arg2 (top1, k4);
              p \<leftarrow> prc_rd proc k5;
              let tb = \<lparr>tid = id, tstate = THREAD_READY, priority = SCHED_PRIORITY_NORMAL,
                        kstack_phys = phys, kstack_virt = top1, kstack_rsp = sp, ustack_virt_top = 0,
                        sleep_until_ms = 0, next_in_proc = threads p, next_in_queue = None, tproc = proc\<rparr>;
              let k6 = k5\<lparr>thr := (thr k5)(t \<mapsto> tb)\<rparr>;
              k7 \<leftarrow> prc_upd proc (\<lambda>p. p\<lparr>threads := Some t, thread_count := thread_count p + 1\<rparr>) k6;
              Some (Some t, k7) } } })"

definition thread_destroy :: "u64 option \<Rightarrow> kernel \<Rightarrow> kernel option" where
  "thread_destroy tp k = (case tp of
      None \<Rightarrow> Some k
    | Some t \<Rightarrow> do {
        x \<leftarrow> thr k t;
        k1 \<leftarrow> (if kstack_phys x \<noteq> 0 then k_vm (on_pmm (pmm_free_page (kstack_phys x))) k else Some k);
        k2 \<leftarrow> k_kfree (Some t) k1;
        Some (k2\<lparr>thr := (thr k2)(t := None)\<rparr>) })"

definition thread_sleep_ms :: "u64 \<Rightarrow> kernel \<Rightarrow> kernel option" where
  "thread_sleep_ms ms k =
     (if current_thread k = None then Some k
      else do {
        k1 \<leftarrow> thr_upd (current_thread k) (\<lambda>t. t\<lparr>sleep_until_ms := pit_get_ticks k + ms\<rparr>) k;
        scheduler_block THREAD_SLEEPING k1 })"

text \<open>What a new thread does first: \<open>thread_entry_stub\<close> up to the call of the entry function.\<close>

definition thread_entry_stub :: "kernel \<Rightarrow> kernel" where
  "thread_entry_stub k =
     (let k1 = k\<lparr>sched_lock := False, cpu := (cpu k)\<lparr>if_flag := True\<rparr>\<rparr>;
          k2 = pop (\<lambda>v r. r\<lparr>rdi := v\<rparr>) k1;
          k3 = pop (\<lambda>v r. r\<lparr>rsi := v\<rparr>) k2;
          k4 = pop (\<lambda>v r. r\<lparr>rdx := v\<rparr>) k3;
          c = cpu k4
      in k4\<lparr>cpu := c\<lparr>rax := rdi c, rdi := rsi c, rsi := rdx c, rip := rdi c\<rparr>\<rparr>)"

section \<open>Memory areas\<close>

definition process_add_vma :: "u64 option \<Rightarrow> u64 \<Rightarrow> u64 \<Rightarrow> u32 \<Rightarrow> kernel \<Rightarrow> kernel option" where
  "process_add_vma proc start stop flags k =
     (if proc = None then Some k
      else do {
        (vp, k1) \<leftarrow> k_kmalloc SIZEOF_VMA k;
        case vp of
          None \<Rightarrow> Some k1
        | Some v \<Rightarrow> do {
            p \<leftarrow> prc_rd proc k1;
            let k2 = k1\<lparr>vmat := (vmat k1)(v \<mapsto> \<lparr>virt_start = start, virt_end = stop, vma_flags = flags,
                                                   vma_next = vmas p\<rparr>)\<rparr>;
            prc_upd proc (\<lambda>p. p\<lparr>vmas := Some v\<rparr>) k2 } })"

partial_function (option) find_vma_loop :: "u64 \<Rightarrow> u64 option \<Rightarrow> kernel \<Rightarrow> u64 option option" where
  "find_vma_loop addr cur k =
     (case cur of
        None \<Rightarrow> Some None
      | Some c \<Rightarrow> do {
          v \<leftarrow> vmat k c;
          if virt_start v \<le> addr \<and> addr < virt_end v then Some (Some c)
          else find_vma_loop addr (vma_next v) k })"

definition process_find_vma :: "u64 option \<Rightarrow> u64 \<Rightarrow> kernel \<Rightarrow> u64 option option" where
  "process_find_vma proc addr k =
     (if proc = None then Some None
      else do { p \<leftarrow> prc_rd proc k; find_vma_loop addr (vmas p) k })"

section \<open>Processes\<close>

definition process_alloc_address_space :: "kernel \<Rightarrow> (u64 \<times> kernel) option" where
  "process_alloc_address_space k = do {
     let hhdm = vmm_get_hhdm_offset (vm (kheap k));
     (new_pml4_phys, k1) \<leftarrow> k_alloc_page k;
     if new_pml4_phys = 0 then Some (0, k1)
     else do {
       let new_pml4 = new_pml4_phys + hhdm;
       k2 \<leftarrow> k_vm (\<lambda>v. Some (v\<lparr>pm := hhdm_zero (pm v) new_pml4 4096\<rparr>)) k1;
       let cur_pml4 = (cr3 (vm (kheap k2)) AND ADDR_MASK) + hhdm;
       k3 \<leftarrow> k_vm (for_range (\<lambda>i v. do {
                e \<leftarrow> tbl_rd (Some cur_pml4) (of_nat i) v;
                tbl_wr (Some new_pml4) (of_nat i) e v }) 256 256) k2;
       Some (new_pml4_phys, k3) } }"

definition process_init :: "kernel \<Rightarrow> kernel" where
  "process_init k = k\<lparr>proc_table_head := None, next_pid := 0, current_process := None, current_thread := None\<rparr>"

definition process_get_next_pid :: "kernel \<Rightarrow> pid_t \<times> kernel" where
  "process_get_next_pid k = (next_pid k, k\<lparr>next_pid := next_pid k + 1\<rparr>)"

definition process_create :: "pid_t \<Rightarrow> kernel \<Rightarrow> (u64 option \<times> kernel) option" where
  "process_create parent k = do {
     (pp, k1) \<leftarrow> k_kmalloc SIZEOF_PROCESS k;
     case pp of
       None \<Rightarrow> Some (None, k1)
     | Some p \<Rightarrow> do {
         let (id, k2) = process_get_next_pid k1;
         (c, k3) \<leftarrow> process_alloc_address_space k2;
         if c = 0 then do { k4 \<leftarrow> k_kfree (Some p) k3; Some (None, k4) }
         else do {
           let pb = \<lparr>pid = id, ppid = parent, pstate = PROC_ALIVE, uid = 0, gid = 0, euid = 0, egid = 0,
                     pcr3 = c, threads = None, thread_count = 0, pfd_table = None, cwd = Some ''/'',
                     exit_code = 0, heap_base = 0, heap_end = 0, stack_top_virt = 0, stack_limit_virt = 0,
                     vmas = None, pnext = proc_table_head k3\<rparr>;
           Some (Some p, k3\<lparr>prc := (prc k3)(p \<mapsto> pb), proc_table_head := Some p\<rparr>) } } }"

partial_function (option) process_get_loop :: "pid_t \<Rightarrow> u64 option \<Rightarrow> kernel \<Rightarrow> u64 option option" where
  "process_get_loop pid0 cur k =
     (case cur of
        None \<Rightarrow> Some None
      | Some a \<Rightarrow> do {
          p \<leftarrow> prc k a;
          if pid p = pid0 then Some (Some a) else process_get_loop pid0 (pnext p) k })"

definition process_get :: "pid_t \<Rightarrow> kernel \<Rightarrow> u64 option option" where
  "process_get pid0 k = process_get_loop pid0 (proc_table_head k) k"

text \<open>The loops of \<open>process_destroy\<close> over the threads, the memory areas and the process table.\<close>

partial_function (option) destroy_threads :: "u64 option \<Rightarrow> kernel \<Rightarrow> kernel option" where
  "destroy_threads t k =
     (case t of
        None \<Rightarrow> Some k
      | Some _ \<Rightarrow> do {
          x \<leftarrow> thr_rd t k;
          k1 \<leftarrow> thread_destroy t k;
          destroy_threads (next_in_proc x) k1 })"

partial_function (option) destroy_vmas :: "u64 option \<Rightarrow> kernel \<Rightarrow> kernel option" where
  "destroy_vmas v k =
     (case v of
        None \<Rightarrow> Some k
      | Some a \<Rightarrow> do {
          x \<leftarrow> vmat k a;
          k1 \<leftarrow> k_kfree v k;
          destroy_vmas (vma_next x) (k1\<lparr>vmat := (vmat k1)(a := None)\<rparr>) })"

partial_function (option) unlink_proc :: "u64 option \<Rightarrow> u64 option \<Rightarrow> kernel \<Rightarrow> kernel option" where
  "unlink_proc proc cur k =
     (case cur of
        None \<Rightarrow> Some k
      | Some _ \<Rightarrow> do {
          p \<leftarrow> prc_rd cur k;
          if pnext p = None then Some k
          else if pnext p = proc then do {
            x \<leftarrow> prc_rd proc k;
            prc_upd cur (\<lambda>p. p\<lparr>pnext := pnext x\<rparr>) k }
          else unlink_proc proc (pnext p) k })"

definition process_destroy :: "u64 option \<Rightarrow> kernel \<Rightarrow> kernel option" where
  "process_destroy proc k =
     (case proc of
        None \<Rightarrow> Some k
      | Some a \<Rightarrow> do {
          p \<leftarrow> prc_rd proc k;
          k1 \<leftarrow> destroy_threads (threads p) k;
          k2 \<leftarrow> prc_upd proc (\<lambda>p. p\<lparr>threads := None, thread_count := 0\<rparr>) k1;
          k3 \<leftarrow> destroy_vmas (vmas p) k2;
          k4 \<leftarrow> prc_upd proc (\<lambda>p. p\<lparr>vmas := None\<rparr>) k3;
          k5 \<leftarrow> (if pcr3 p \<noteq> 0 then do {
                   k' \<leftarrow> k_vm (vmm_destroy_address_space (pcr3 p)) k4;
                   prc_upd proc (\<lambda>p. p\<lparr>pcr3 := 0\<rparr>) k' }
                 else Some k4);
          k6 \<leftarrow> (case pfd_table p of None \<Rightarrow> Some k5 | Some f \<Rightarrow> do {
                   k' \<leftarrow> k_kfree (Some f) k5;
                   prc_upd proc (\<lambda>p. p\<lparr>pfd_table := None\<rparr>) (k'\<lparr>fdts := (fdts k')(f := None)\<rparr>) });
          k7 \<leftarrow> (if proc_table_head k6 = proc then do {
                   x \<leftarrow> prc_rd proc k6;
                   Some (k6\<lparr>proc_table_head := pnext x\<rparr>) }
                 else unlink_proc proc (proc_table_head k6) k6);
          k8 \<leftarrow> k_kfree proc k7;
          Some (k8\<lparr>prc := (prc k8)(a := None)\<rparr>) })"

partial_function (option) kill_threads :: "u64 option \<Rightarrow> kernel \<Rightarrow> kernel option" where
  "kill_threads t k =
     (case t of
        None \<Rightarrow> Some k
      | Some _ \<Rightarrow> do {
          x \<leftarrow> thr_rd t k;
          k1 \<leftarrow> (if tstate x \<noteq> THREAD_DEAD then do {
                   k' \<leftarrow> scheduler_dequeue t k;
                   thr_upd t (\<lambda>x. x\<lparr>tstate := THREAD_DEAD\<rparr>) k' }
                 else Some k);
          x1 \<leftarrow> thr_rd t k1;
          kill_threads (next_in_proc x1) k1 })"

definition process_exit :: "u64 option \<Rightarrow> u32 \<Rightarrow> kernel \<Rightarrow> (int \<times> kernel) option" where
  "process_exit proc code k =
     (if proc = None then Some (-1, k)
      else do {
        k1 \<leftarrow> prc_upd proc (\<lambda>p. p\<lparr>exit_code := code, pstate := PROC_ZOMBIE\<rparr>) k;
        p \<leftarrow> prc_rd proc k1;
        k2 \<leftarrow> kill_threads (threads p) k1;
        k3 \<leftarrow> (if proc = current_process k2 then schedule k2 else Some k2);
        Some (0, k3) })"

definition process_exit_current :: "u32 \<Rightarrow> kernel \<Rightarrow> kernel option" where
  "process_exit_current code k = map_option snd (process_exit (current_process k) code k)"

definition scheduler_exit_current :: "u32 \<Rightarrow> kernel \<Rightarrow> kernel option" where
  "scheduler_exit_current code k = map_option snd (process_exit (current_process k) code k)"

definition process_get_uid :: "pid_t \<Rightarrow> kernel \<Rightarrow> u32 option" where
  "process_get_uid pid0 k = do {
     p \<leftarrow> process_get pid0 k;
     case p of None \<Rightarrow> Some (-1) | Some _ \<Rightarrow> map_option uid (prc_rd p k) }"

definition process_get_gid :: "pid_t \<Rightarrow> kernel \<Rightarrow> u32 option" where
  "process_get_gid pid0 k = do {
     p \<leftarrow> process_get pid0 k;
     case p of None \<Rightarrow> Some (-1) | Some _ \<Rightarrow> map_option gid (prc_rd p k) }"

text \<open>The result, and the value stored through \<open>status\<close> when one is.\<close>

partial_function (option) waitpid_loop ::
  "pid_t \<Rightarrow> pid_t \<Rightarrow> bool \<Rightarrow> u64 option \<Rightarrow> kernel \<Rightarrow> (pid_t \<times> u32 option \<times> kernel) option" where
  "waitpid_loop parent_pid target_pid has_children cur k =
     (case cur of
        None \<Rightarrow> Some (if has_children then 0 else -1, None, k)
      | Some _ \<Rightarrow> do {
          p \<leftarrow> prc_rd cur k;
          if ppid p = parent_pid \<and> (target_pid = -1 \<or> pid p = target_pid) then
            (if pstate p = PROC_ZOMBIE then do {
               k1 \<leftarrow> process_destroy cur k;
               Some (pid p, Some (push_bit 8 (exit_code p AND 0xFF)), k1) }
             else waitpid_loop parent_pid target_pid True (pnext p) k)
          else waitpid_loop parent_pid target_pid has_children (pnext p) k })"

definition process_waitpid :: "pid_t \<Rightarrow> pid_t \<Rightarrow> kernel \<Rightarrow> (pid_t \<times> u32 option \<times> kernel) option" where
  "process_waitpid parent_pid target_pid k = waitpid_loop parent_pid target_pid False (proc_table_head k) k"

section \<open>Starting the scheduler\<close>

text \<open>
  \<open>stub\<close>, \<open>idle_fn\<close> and \<open>shell_fn\<close> are the addresses of \<open>thread_entry_stub\<close>, \<open>idle_thread_fn\<close> and
  \<open>shell_run\<close>. The registration of the timer interrupt has no part in this state.
\<close>

definition scheduler_init :: "u64 \<Rightarrow> u64 \<Rightarrow> u64 \<Rightarrow> kernel \<Rightarrow> (int \<times> kernel) option" where
  "scheduler_init stub idle_fn shell_fn k = do {
     let k1 = process_init (k\<lparr>ready_head := replicate SCHED_NUM_PRIORITIES None,
                              ready_tail := replicate SCHED_NUM_PRIORITIES None\<rparr>);
     (ip, k2) \<leftarrow> process_create (-1) k1;
     let k3 = k2\<lparr>idle_process := ip\<rparr>;
     if ip = None then Some (-1, k3)
     else do {
       (it, k4) \<leftarrow> thread_create stub ip idle_fn 0 0 k3;
       let k5 = k4\<lparr>idle_thread := it\<rparr>;
       if it = None then Some (-1, k5)
       else do {
         k6 \<leftarrow> thr_upd it (\<lambda>t. t\<lparr>priority := SCHED_PRIORITY_IDLE, tstate := THREAD_READY\<rparr>) k5;
         (sp, k7) \<leftarrow> process_create 0 k6;
         k9 \<leftarrow> (if sp = None then Some k7
                else do {
                  (st, k8) \<leftarrow> thread_create stub sp shell_fn 0 0 k7;
                  if st = None then Some k8
                  else do {
                    k' \<leftarrow> thr_upd st (\<lambda>t. t\<lparr>priority := SCHED_PRIORITY_NORMAL\<rparr>) k8;
                    scheduler_enqueue st k' } });
         Some (0, k9) } } }"

definition scheduler_start :: "kernel \<Rightarrow> kernel option" where
  "scheduler_start k = do {
     (first0, k1) \<leftarrow> pick_next k;
     let first = (if first0 = None then idle_thread k1 else first0);
     k2 \<leftarrow> thr_upd first (\<lambda>t. t\<lparr>tstate := THREAD_RUNNING\<rparr>) k1;
     t \<leftarrow> thr_rd first k2;
     let k3 = k2\<lparr>current_thread := first, current_process := tproc t,
                 tss_rsp0 := kstack_virt t, kernel_rsp_scratch := kstack_virt t\<rparr>;
     p \<leftarrow> prc_rd (tproc t) k3;
     let k4 = (load_cr3 (pcr3 p) k3)\<lparr>sched_active := True\<rparr>;
     let k5 = pop_context (k4\<lparr>cpu := (cpu k4)\<lparr>rsp := kstack_rsp t\<rparr>\<rparr>);
     Some (k5\<lparr>cpu := (cpu k5)\<lparr>if_flag := True\<rparr>\<rparr>) }"

section \<open>Page faults\<close>

definition is_cow_page :: "u64 \<Rightarrow> vmm \<Rightarrow> bool option" where
  "is_cow_page fault_addr v = do {
     (pt, v1) \<leftarrow> vmm_walk fault_addr False v;
     if pt = None then Some False
     else do {
       entry \<leftarrow> tbl_rd pt (PT_INDEX fault_addr) v1;
       Some (entry AND PAGE_PRESENT \<noteq> 0 \<and> entry AND PAGE_USER \<noteq> 0 \<and> entry AND PAGE_WRITABLE = 0) } }"

definition map_user_page :: "u64 \<Rightarrow> u64 \<Rightarrow> u64 \<Rightarrow> vmm \<Rightarrow> vmm option" where
  "map_user_page proc_cr3 virt flags v = do {
     let saved_cr3 = cr3 v;
     let v1 = (if saved_cr3 \<noteq> proc_cr3 then write_cr3 proc_cr3 v else v);
     (phys, v2) \<leftarrow> vmm_alloc_page v1;
     v3 \<leftarrow> (if phys \<noteq> 0 then vmm_map_page virt phys flags v2 else Some v2);
     Some (if saved_cr3 \<noteq> proc_cr3 then write_cr3 saved_cr3 v3 else v3) }"

definition copy_page :: "u64 \<Rightarrow> u64 \<Rightarrow> vmm \<Rightarrow> vmm option" where
  "copy_page dst src v = for_range (\<lambda>i v. do {
     e \<leftarrow> tbl_rd (Some (vmm_phys_to_virt v src)) (of_nat i) v;
     tbl_wr (Some (vmm_phys_to_virt v dst)) (of_nat i) e v }) 0 512 v"

definition cow_handle_fault :: "u64 \<Rightarrow> u64 \<Rightarrow> vmm \<Rightarrow> vmm option" where
  "cow_handle_fault proc_cr3 fault_addr v = do {
     phys \<leftarrow> vmm_get_phys (fault_addr AND NOT 0xFFF) v;
     if phys = 0 then Some v
     else do {
       refcount \<leftarrow> pmm_page_refcount phys (pm v);
       let saved_cr3 = cr3 v;
       let v1 = (if saved_cr3 \<noteq> proc_cr3 then write_cr3 proc_cr3 v else v);
       v2 \<leftarrow> (if refcount = 1 then do {
                (pdpt, _) \<leftarrow> vmm_get_next_level (Some (get_current_pml4 v1)) (PML4_INDEX fault_addr) False v1;
                (pd, _) \<leftarrow> vmm_get_next_level pdpt (PDPT_INDEX fault_addr) False v1;
                (pt, _) \<leftarrow> vmm_get_next_level pd (PD_INDEX fault_addr) False v1;
                if pt = None then Some v1
                else do {
                  e \<leftarrow> tbl_rd pt (PT_INDEX fault_addr) v1;
                  v' \<leftarrow> tbl_wr pt (PT_INDEX fault_addr) (e OR PAGE_WRITABLE) v1;
                  Some (invlpg fault_addr v') } }
              else do {
                (new_phys, v') \<leftarrow> vmm_alloc_page v1;
                if new_phys = 0 then Some v'
                else do {
                  v'' \<leftarrow> copy_page new_phys phys v';
                  v3 \<leftarrow> vmm_map_page (fault_addr AND NOT 0xFFF) new_phys (PAGE_PRESENT OR PAGE_USER OR PAGE_WRITABLE) v'';
                  on_pmm (pmm_page_unref phys) v3 } });
       Some (if saved_cr3 \<noteq> proc_cr3 then write_cr3 saved_cr3 v2 else v2) } }"

definition PROC_USER_STACK_MAX :: u64 where "PROC_USER_STACK_MAX = 8 * 1024 * 1024"

text \<open>\<open>fault_addr\<close> is the content of CR2.\<close>

definition page_fault_handler :: "u64 \<Rightarrow> u32 \<Rightarrow> kernel \<Rightarrow> kernel option" where
  "page_fault_handler fault_addr error k =
     (let write = bit error 1; user = bit error 2;
          page = fault_addr AND NOT 0xFFF;
          rwu = PAGE_PRESENT OR PAGE_WRITABLE OR PAGE_USER in
      if \<not> user then None
      else do {
        let proc = current_process k;
        p \<leftarrow> prc_rd proc k;
        cow \<leftarrow> (if write then is_cow_page fault_addr (vm (kheap k)) else Some False);
        if cow then k_vm (cow_handle_fault (pcr3 p) fault_addr) k
        else do {
          let in_stack = (fault_addr \<le> stack_top_virt p \<and> stack_top_virt p - PROC_USER_STACK_MAX \<le> fault_addr);
          lazy \<leftarrow> (if in_stack \<and> \<not> fault_addr < stack_limit_virt p
                  then map_option (\<lambda>a. a = 0) (vmm_get_phys page (vm (kheap k))) else Some False);
          if in_stack \<and> fault_addr < stack_limit_virt p then do {
            k1 \<leftarrow> k_vm (map_user_page (pcr3 p) page rwu) k;
            prc_upd proc (\<lambda>p. p\<lparr>stack_limit_virt := page\<rparr>) k1 }
          else if lazy then k_vm (map_user_page (pcr3 p) page rwu) k
          else do {
            vma \<leftarrow> process_find_vma proc fault_addr k;
            case vma of
              Some a \<Rightarrow> do {
                x \<leftarrow> vmat k a;
                let flags = (if ucast (vma_flags x) AND PAGE_WRITABLE \<noteq> 0 then rwu else PAGE_PRESENT OR PAGE_USER);
                k_vm (map_user_page (pcr3 p) page flags) k }
            | None \<Rightarrow>
                if heap_base p \<le> fault_addr \<and> fault_addr < heap_end p then k_vm (map_user_page (pcr3 p) page rwu) k
                else do {
                  (_, k1) \<leftarrow> process_exit proc 139 k;
                  schedule k1 } } } })"

section \<open>A new thread starts at its entry point\<close>

lemma stack_wr_fields [simp]:
  "cpu (stack_wr a v k) = cpu k" "thr (stack_wr a v k) = thr k" "prc (stack_wr a v k) = prc k"
  "voff (vm (kheap (stack_wr a v k))) = voff (vm (kheap k))"
  by (simp_all add: stack_wr_def Let_def)

lemma stack_rd_wr: "stack_rd b (stack_wr a v k) = (if a = b then v else stack_rd b k)"
  by (auto simp: stack_rd_def stack_wr_def Let_def)

lemma stack_rd_cong [simp]:
  "stack_rd b (k\<lparr>cpu := c\<rparr>) = stack_rd b k" "stack_rd b (k\<lparr>thr := t\<rparr>) = stack_rd b k"
  "stack_rd b (k\<lparr>prc := p\<rparr>) = stack_rd b k" "stack_rd b (k\<lparr>sched_lock := l\<rparr>) = stack_rd b k"
  by (simp_all add: stack_rd_def)

text \<open>The slots of a prepared stack, from its lowest address.\<close>

lemma build_stack_slots:
  assumes "build_stack stub e a1 a2 (t, k) = (sp, k')"
  shows "sp = t - 80" "thr k' = thr k" "prc k' = prc k" "cpu k' = cpu k"
    "stack_rd sp k' = 0" "stack_rd (sp + 8) k' = 0" "stack_rd (sp + 16) k' = 0" "stack_rd (sp + 24) k' = 0"
    "stack_rd (sp + 32) k' = 0" "stack_rd (sp + 40) k' = 0" "stack_rd (sp + 48) k' = stub"
    "stack_rd (sp + 56) k' = e" "stack_rd (sp + 64) k' = a1" "stack_rd (sp + 72) k' = a2"
proof -
  have sp: "t = sp + 80" using assms by (auto simp: build_stack_def push_at_def)
  have k': "k' = stack_wr sp 0 (stack_wr (sp + 8) 0 (stack_wr (sp + 16) 0 (stack_wr (sp + 24) 0
      (stack_wr (sp + 32) 0 (stack_wr (sp + 40) 0 (stack_wr (sp + 48) stub (stack_wr (sp + 56) e
      (stack_wr (sp + 64) a1 (stack_wr (sp + 72) a2 k)))))))))"
    using assms unfolding sp build_stack_def push_at_def by (auto simp: diff_diff_eq add.commute[of sp])
  show "sp = t - 80" "thr k' = thr k" "prc k' = prc k" "cpu k' = cpu k"
    "stack_rd sp k' = 0" "stack_rd (sp + 8) k' = 0" "stack_rd (sp + 16) k' = 0" "stack_rd (sp + 24) k' = 0"
    "stack_rd (sp + 32) k' = 0" "stack_rd (sp + 40) k' = 0" "stack_rd (sp + 48) k' = stub"
    "stack_rd (sp + 56) k' = e" "stack_rd (sp + 64) k' = a1" "stack_rd (sp + 72) k' = a2"
    unfolding k' by (simp_all add: sp stack_rd_wr)
qed

lemma cpu_pop: "cpu (pop f k) = f (stack_rd (rsp (cpu k)) k) ((cpu k)\<lparr>rsp := rsp (cpu k) + 8\<rparr>)"
  by (simp add: pop_def Let_def)

lemma stack_rd_pop [simp]: "stack_rd b (pop f k) = stack_rd b k"
  by (simp add: pop_def Let_def)

lemma sched_lock_pop [simp]: "sched_lock (pop f k) = sched_lock k"
  by (simp add: pop_def Let_def)

lemma pop_context_effect:
  "rsp (cpu (pop_context k)) = rsp (cpu k) + 56" "rip (cpu (pop_context k)) = stack_rd (rsp (cpu k) + 48) k"
  "stack_rd b (pop_context k) = stack_rd b k"
  unfolding pop_context_def Let_def by (simp_all add: cpu_pop add.assoc)

text \<open>Switching to such a stack and running the entry stub.\<close>

definition run_new_thread :: "u64 \<Rightarrow> kernel \<Rightarrow> kernel \<times> kernel" where
  "run_new_thread sp k =
     (let k1 = pop_context (k\<lparr>cpu := (cpu k)\<lparr>rsp := sp\<rparr>\<rparr>) in (k1, thread_entry_stub k1))"

lemma thread_entry_stub_effect:
  "rip (cpu (thread_entry_stub k)) = stack_rd (rsp (cpu k)) k"
  "rdi (cpu (thread_entry_stub k)) = stack_rd (rsp (cpu k) + 8) k"
  "rsi (cpu (thread_entry_stub k)) = stack_rd (rsp (cpu k) + 16) k"
  "rsp (cpu (thread_entry_stub k)) = rsp (cpu k) + 24"
  "if_flag (cpu (thread_entry_stub k))" "\<not> sched_lock (thread_entry_stub k)"
  unfolding thread_entry_stub_def Let_def by (simp_all add: cpu_pop add.assoc)

lemma run_new_thread_spec:
  assumes "stack_rd (sp + 48) k = stub" "stack_rd (sp + 56) k = e" "stack_rd (sp + 64) k = a1"
    "stack_rd (sp + 72) k = a2" "run_new_thread sp k = (k1, k2)"
  shows "rip (cpu k1) = stub" "rip (cpu k2) = e" "rdi (cpu k2) = a1" "rsi (cpu k2) = a2"
    "rsp (cpu k2) = sp + 80" "if_flag (cpu k2)" "\<not> sched_lock k2"
proof -
  define k0 where "k0 = pop_context (k\<lparr>cpu := (cpu k)\<lparr>rsp := sp\<rparr>\<rparr>)"
  have k: "k1 = k0" "k2 = thread_entry_stub k0" using assms(5) by (auto simp: run_new_thread_def k0_def Let_def)
  have r: "rsp (cpu k0) = sp + 56" "rip (cpu k0) = stub" "stack_rd b k0 = stack_rd b k" for b
    unfolding k0_def pop_context_effect using assms(1) by simp_all
  show "rip (cpu k1) = stub" "rip (cpu k2) = e" "rdi (cpu k2) = a1" "rsi (cpu k2) = a2"
    "rsp (cpu k2) = sp + 80" "if_flag (cpu k2)" "\<not> sched_lock k2"
    unfolding k thread_entry_stub_effect r using assms by (simp_all add: add.assoc thread_entry_stub_effect)
qed

abbreviation frames_left :: "kernel \<Rightarrow> nat set" where
  "frames_left k \<equiv> free_frames (pm (vm (kheap k)))"

text \<open>
  C22. Creating a thread. On a well-formed kernel heap \<open>thread_create\<close> returns. Either it returns NULL
  and no free frame is left, or it returns a block of the heap that was not in use, whose thread
  is ready, has normal priority and heads the thread list of its process; and when the context
  switch loads the saved stack pointer of the thread, it continues in \<open>thread_entry_stub\<close>, which
  calls the entry point with the two arguments, on an empty stack, with interrupts enabled and
  the scheduler unlocked.
\<close>

theorem thread_create_correct:
  assumes wf: "heap_wf (kheap k) bs" and room: "unat (heap_virt_end (kheap k)) + 20590 < 2 ^ 64"
    and x: "prc k p = Some x"
  shows "\<exists>r k'. thread_create stub (Some p) entry_rip arg1 arg2 k = Some (r, k') \<and>
    (case r of
       None \<Rightarrow> frames_left k' = {}
     | Some t \<Rightarrow> (\<forall>s. (t - 24, s) \<notin> allocated bs) \<and>
         (\<exists>tb. thr k' t = Some tb \<and> tstate tb = THREAD_READY \<and> priority tb = SCHED_PRIORITY_NORMAL \<and>
           tproc tb = Some p \<and> next_in_proc tb = threads x \<and>
           prc k' = (prc k)(p \<mapsto> x\<lparr>threads := Some t, thread_count := thread_count x + 1\<rparr>) \<and>
           (case run_new_thread (kstack_rsp tb) k' of (k1, k2) \<Rightarrow>
              rip (cpu k1) = stub \<and> rip (cpu k2) = entry_rip \<and> rdi (cpu k2) = arg1 \<and> rsi (cpu k2) = arg2 \<and>
              rsp (cpu k2) = kstack_virt tb \<and> if_flag (cpu k2) \<and> \<not> sched_lock k2)))"
proof -
  have "unat (heap_virt_end (kheap k)) + unat SIZEOF_THREAD + 20510 < 2 ^ 64"
    using room by (simp add: SIZEOF_THREAD_def)
  from kmalloc_spec[OF wf _ this] obtain r h1 bs1 where h1: "kmalloc SIZEOF_THREAD (kheap k) = Some (r, h1)"
    "heap_wf h1 bs1" "case r of None \<Rightarrow> allocated bs1 = allocated bs \<and> vfree (vm h1) = {}
     | Some q \<Rightarrow> \<exists>a s. q = a + 24 \<and> unat SIZEOF_THREAD \<le> unat s \<and> allocated bs1 = insert (a, s) (allocated bs) \<and>
         (\<forall>s'. (a, s') \<notin> allocated bs)" by (auto simp: SIZEOF_THREAD_def)
  have km: "k_kmalloc SIZEOF_THREAD k = Some (r, k\<lparr>kheap := h1\<rparr>)" using h1(1) by (simp add: k_kmalloc_def)
  show ?thesis
  proof (cases r)
    case None
    then show ?thesis using km h1(3) by (simp add: thread_create_def)
  next
    case (Some t)
    then obtain a s where a: "t = a + 24" "(a, s) \<in> allocated bs1" "\<forall>s'. (a, s') \<notin> allocated bs"
      using h1(3) by auto
    have vw: "vm_wf (vm h1)" using h1(2) by (simp add: heap_wf_def)
    obtain phys v where v: "vmm_alloc_page (vm h1) = Some (phys, v)" "phys = 0 \<longleftrightarrow> vfree (vm h1) = {}" "phys = 0 \<longrightarrow> v = vm h1"
      using vmm_alloc_page_spec[OF vw] by blast
    define k2 where "k2 = k\<lparr>kheap := h1, next_tid := next_tid k + 1\<rparr>"
    have k2: "alloc_tid (k\<lparr>kheap := h1\<rparr>) = (next_tid k, k2)" by (simp add: alloc_tid_def k2_def)
    define k3 where "k3 = k2\<lparr>kheap := h1\<lparr>vm := v\<rparr>\<rparr>"
    have k3: "k_alloc_page k2 = Some (phys, k3)" using v(1) by (simp add: k_alloc_page_def k2_def k3_def)
    show ?thesis
    proof (cases "phys = 0")
      case True
      then have "kheap k3 = h1" using v by (simp add: k3_def)
      then obtain h' y where h': "kfree (Some t) (kheap k3) = Some h'" "h' = h1\<lparr>hdrs := y\<rparr>"
        using kfree_spec[OF h1(2) a(2)] a(1) by auto
      have "thread_create stub (Some p) entry_rip arg1 arg2 k = Some (None, k3\<lparr>kheap := h'\<rparr>)"
        using km Some k2 k3 True h'(1) by (simp add: thread_create_def k_kfree_def)
      then show ?thesis using h'(2) v(2) True by simp
    next
      case False
      define top1 where "top1 = phys + vmm_get_hhdm_offset (vm (kheap k3)) + THREAD_KERNEL_STACK_SIZE"
      obtain k4 where k4: "k_vm (\<lambda>v. Some (v\<lparr>pm := hhdm_zero (pm v) (phys + vmm_get_hhdm_offset (vm (kheap k3)))
          THREAD_KERNEL_STACK_SIZE\<rparr>)) k3 = Some k4" "thr k4 = thr k" "prc k4 = prc k"
        by (simp add: k_vm_def k3_def k2_def)
      obtain sp k5 where k5: "build_stack stub entry_rip arg1 arg2 (top1, k4) = (sp, k5)" by fastforce
      note b = build_stack_slots[OF k5]
      define tb where "tb = \<lparr>tid = next_tid k, tstate = THREAD_READY, priority = SCHED_PRIORITY_NORMAL,
        kstack_phys = phys, kstack_virt = top1, kstack_rsp = sp, ustack_virt_top = 0,
        sleep_until_ms = 0, next_in_proc = threads x, next_in_queue = None, tproc = Some p\<rparr>"
      define k7 where "k7 = k5\<lparr>thr := (thr k5)(t \<mapsto> tb),
        prc := (prc k)(p \<mapsto> x\<lparr>threads := Some t, thread_count := thread_count x + 1\<rparr>)\<rparr>"
      have "prc k5 = prc k" using b(3) k4(3) by simp
      then have run: "thread_create stub (Some p) entry_rip arg1 arg2 k = Some (Some t, k7)"
        using km Some k2 k3 False k4(1) k5 x
        by (simp add: thread_create_def prc_rd_def prc_upd_def k7_def tb_def top1_def Let_def)
      have st: "stack_rd y k7 = stack_rd y k5" for y by (simp add: k7_def)
      obtain j1 j2 where j: "run_new_thread sp k7 = (j1, j2)" by fastforce
      note rn = run_new_thread_spec[OF _ _ _ _ j, unfolded st, OF b(11-14)]
      have "rsp (cpu j2) = top1" using rn(5) b(1) by simp
      then show ?thesis using run rn j a(1,3) by (auto simp: k7_def tb_def)
    qed
  qed
qed

definition demo_kernel_heap :: kernel where
  "demo_kernel_heap = demo_kernel\<lparr>kheap := demo_heap\<rparr>"

theorem thread_create_witness:
  "\<exists>r k'. thread_create 0xFFFFFFFF80001000 (Some 0x9000) 0xFFFFFFFF80002000 7 8 demo_kernel_heap = Some (r, k') \<and>
     (r = None \<longrightarrow> frames_left k' = {})"
proof -
  have wf: "heap_wf (kheap demo_kernel_heap) [(HEAP_VIRT_START, 976, False), (HEAP_VIRT_START + 1000, 3072, True)]"
    using demo_heap_wf by (simp add: demo_kernel_heap_def)
  have room: "unat (heap_virt_end (kheap demo_kernel_heap)) + 20590 < 2 ^ 64"
    by (simp add: demo_kernel_heap_def demo_heap_def HEAP_VIRT_START_def)
  have "prc demo_kernel_heap 0x9000 = Some demo_process"
    by (simp add: demo_kernel_heap_def demo_kernel_def)
  from thread_create_correct[OF wf room this, of "0xFFFFFFFF80001000" "0xFFFFFFFF80002000" 7 8] show ?thesis
    by (fastforce split: option.splits)
qed

section \<open>Ending a process\<close>

definition nproc :: "kernel \<Rightarrow> u64 \<Rightarrow> u64 option" where
  "nproc k a = Option.bind (thr k a) next_in_proc"

lemma nproc_cores: "nproc k a = Option.bind (cores k a) next_in_proc"
  by (cases "thr k a") (simp_all add: nproc_def cores_def core_def)

definition killed :: "u64 set \<Rightarrow> (u64 \<rightharpoonup> thread_state \<times> nat \<times> u64 option) \<Rightarrow> u64 \<rightharpoonup> thread_state \<times> nat \<times> u64 option" where
  "killed T v = (\<lambda>a. if a \<in> T then map_option (\<lambda>(s, i, p). (THREAD_DEAD, i, p)) (v a) else v a)"

lemma kill_one:
  assumes wf: "sched_wf k qs" and rdy: "queued_ready k qs" and t: "thr k x = Some t"
  shows "\<exists>k1 qs1. (if tstate t \<noteq> THREAD_DEAD then do {
                   k' \<leftarrow> scheduler_dequeue (Some x) k;
                   thr_upd (Some x) (\<lambda>x. x\<lparr>tstate := THREAD_DEAD\<rparr>) k' }
                 else Some k) = Some k1 \<and>
     sched_wf k1 qs1 \<and> queued_ready k1 qs1 \<and> queues_only k k1 \<and> view k1 = killed {x} (view k) \<and>
     (\<forall>r < 8. set (qs1 r) = set (qs r) - {x}) \<and> nproc k1 = nproc k \<and> thr k1 x \<noteq> None"
proof (cases "tstate t = THREAD_DEAD")
  case True
  then have "view k x = Some (THREAD_DEAD, queue_index t, tproc t)" using t by (simp add: view_def)
  then have "killed {x} (view k) = view k" "\<And>r. r < 8 \<Longrightarrow> x \<notin> set (qs r)"
    using rdy unfolding queued_ready_def killed_def by (auto, force)
  then show ?thesis using True wf rdy t by (intro exI[of _ k] exI[of _ qs]) auto
next
  case False
  let ?p = "queue_index t"
  obtain k1 where k1: "scheduler_dequeue (Some x) k = Some k1" "sched_wf k1 (qs(?p := remove1 x (qs ?p)))"
    "queues_only k k1" "cores k1 = cores k" using dequeue_spec[OF wf t] by blast
  have v1: "view k1 = view k" using k1(4) by (simp add: view_cores)
  have "map_option core (thr k1 x) = Some (core t)" using fun_cong[OF k1(4), of x] t by (simp add: cores_def)
  then obtain u where u: "thr k1 x = Some u" "core u = core t" by auto
  define k2 where "k2 = k1\<lparr>thr := (thr k1)(x \<mapsto> u\<lparr>tstate := THREAD_DEAD\<rparr>)\<rparr>"
  have "thr_upd (Some x) (\<lambda>x. x\<lparr>tstate := THREAD_DEAD\<rparr>) k1 = Some k2" using u by (simp add: thr_upd_def k2_def)
  moreover have "sched_wf k2 (qs(?p := remove1 x (qs ?p)))"
    unfolding k2_def by (rule thr_upd_state_wf[OF k1(2) u(1)])
  moreover have v2: "view k2 = killed {x} (view k)"
    unfolding v1[symmetric] using u(1) by (auto simp: view_def killed_def k2_def)
  moreover have "queues_only k k2"
  proof (rule queues_only_trans[OF k1(3)])
    show "queues_only k1 k2" unfolding queues_only_def k2_def
      by (rule exI[of _ "thr k2"], rule exI[of _ "ready_head k1"], rule exI[of _ "ready_tail k1"]) (simp add: k2_def)
  qed
  moreover have sets: "set ((qs(?p := remove1 x (qs ?p))) r) = set (qs r) - {x}" if "r < 8" for r
  proof -
    have "distinct (qs ?p)" using wf by (simp add: sched_wf_def queue_wf_def)
    moreover have "x \<notin> set (qs r)" if "r \<noteq> ?p" using sched_wf_index[OF wf \<open>r < 8\<close> _ t] that by blast
    ultimately show ?thesis by auto
  qed
  moreover have "queued_ready k2 (qs(?p := remove1 x (qs ?p)))"
    unfolding queued_ready_def v2
  proof (intro allI impI ballI)
    fix r y assume r: "r < 8" and "y \<in> set ((qs(?p := remove1 x (qs ?p))) r)"
    then have "y \<in> set (qs r)" "y \<noteq> x" using sets[OF r] by auto
    then show "\<exists>pr. killed {x} (view k) y = Some (THREAD_READY, r, pr)"
      using rdy r by (auto simp: queued_ready_def killed_def)
  qed
  moreover have "nproc k2 = nproc k"
  proof (rule ext)
    fix a
    have "nproc k1 a = nproc k a" using k1(4) by (simp add: nproc_cores)
    then show "nproc k2 a = nproc k a" using u(1) by (auto simp: nproc_def k2_def)
  qed
  ultimately show ?thesis using False k1(1)
    by (intro exI[of _ k2] exI[of _ "qs(?p := remove1 x (qs ?p))"]) (auto simp: k2_def)
qed

lemma view_dom: "view k a \<noteq> None \<longleftrightarrow> thr k a \<noteq> None"
  by (simp add: view_def)

lemma kill_threads_spec:
  assumes "sched_wf k qs" "queued_ready k qs" "lseg (nproc k) t ts None" "\<forall>x \<in> set ts. thr k x \<noteq> None"
  shows "\<exists>k' qs'. kill_threads t k = Some k' \<and> sched_wf k' qs' \<and> queued_ready k' qs' \<and> queues_only k k' \<and>
     view k' = killed (set ts) (view k) \<and> (\<forall>r < 8. set (qs' r) = set (qs r) - set ts)"
  using assms
proof (induction ts arbitrary: k qs t)
  case Nil
  have "killed {} (view k) = view k" by (simp add: killed_def)
  with Nil show ?case by (intro exI[of _ k] exI[of _ qs]) (simp add: kill_threads.simps)
next
  case (Cons x ts)
  then obtain u where u: "t = Some x" "thr k x = Some u" by auto
  obtain k1 qs1 where k1: "(if tstate u \<noteq> THREAD_DEAD then do {
                   k' \<leftarrow> scheduler_dequeue (Some x) k;
                   thr_upd (Some x) (\<lambda>x. x\<lparr>tstate := THREAD_DEAD\<rparr>) k' }
                 else Some k) = Some k1"
     "sched_wf k1 qs1" "queued_ready k1 qs1" "queues_only k k1" "view k1 = killed {x} (view k)"
     "\<forall>r < 8. set (qs1 r) = set (qs r) - {x}" "nproc k1 = nproc k" "thr k1 x \<noteq> None"
    using kill_one[OF Cons.prems(1,2) u(2)] by blast
  then obtain u1 where u1: "thr k1 x = Some u1" by auto
  have "kill_threads t k = kill_threads (next_in_proc u1) k1"
    by (subst kill_threads.simps) (use u k1(1) u1 in \<open>auto simp: thr_rd_def bind_eq_Some_conv split: if_splits\<close>)
  moreover have "lseg (nproc k1) (next_in_proc u1) ts None"
  proof -
    have "nproc k x = next_in_proc u1" using fun_cong[OF k1(7), of x] u1 by (simp add: nproc_def)
    then show ?thesis using Cons.prems(3) k1(7) by simp
  qed
  moreover have "\<forall>y \<in> set ts. thr k1 y \<noteq> None"
  proof
    fix y assume "y \<in> set ts"
    then have "view k y \<noteq> None" unfolding view_dom using Cons.prems(4) by simp
    then have "view k1 y \<noteq> None" using k1(5) by (auto simp: killed_def)
    then show "thr k1 y \<noteq> None" unfolding view_dom .
  qed
  ultimately obtain k' qs' where k': "kill_threads t k = Some k'" "sched_wf k' qs'" "queued_ready k' qs'" "queues_only k1 k'"
     "view k' = killed (set ts) (view k1)" "\<forall>r < 8. set (qs' r) = set (qs1 r) - set ts"
    using Cons.IH[OF k1(2,3)] by metis
  have "killed (set ts) (killed {x} (view k)) = killed (set (x # ts)) (view k)"
    by (rule ext) (auto simp: killed_def map_option.compositionality o_def split_def)
  then have "view k' = killed (set (x # ts)) (view k)" using k'(5) k1(5) by simp
  moreover have "\<forall>r < 8. set (qs' r) = set (qs r) - set (x # ts)" using k'(6) k1(6) by auto
  ultimately show ?case using k'(1-4) k1(4) queues_only_trans by blast
qed


definition demo_exit :: kernel where
  "demo_exit = demo_kernel\<lparr>prc := [0x9000 \<mapsto> demo_process\<lparr>threads := Some 0x4000\<rparr>]\<rparr>"


section \<open>Copy on write\<close>

lemma next_levels:
  assumes cl: "vclean s (table_path a)" and f: "vtbl s (table_path a) = Some f"
  shows "\<exists>g h. vmm_get_next_level (Some (get_current_pml4 s)) (PML4_INDEX a) False s = Some (Some (tptr s g), s) \<and>
     vmm_get_next_level (Some (tptr s g)) (PDPT_INDEX a) False s = Some (Some (tptr s h), s) \<and>
     vmm_get_next_level (Some (tptr s h)) (PD_INDEX a) False s = Some (Some (tptr s f), s)"
proof -
  let ?a = "[PML4_INDEX a]" and ?b = "[PDPT_INDEX a, PML4_INDEX a]"
  have c: "vclean s ?a" "vclean s ?b" "vclean s (PD_INDEX a # ?b)" using cl by (simp_all add: table_path_def)
  have f3: "vtbl s (PD_INDEX a # ?b) = Some f" using f by (simp add: table_path_def)
  then obtain h where h: "vtbl s ?b = Some h" by (simp only: tbl.simps(2)[of _ _ "PD_INDEX a"]) (auto split: option.splits)
  then obtain g where g: "vtbl s ?a = Some g" by (simp only: tbl.simps(2)[of _ _ "PDPT_INDEX a"]) (auto split: option.splits)
  have "vmm_get_next_level (Some (get_current_pml4 s)) (PML4_INDEX a) False s = Some (map_option (tptr s) (vtbl s ?a), s)"
    unfolding get_current_pml4_tptr using c(1) by (intro next_level_existing) simp_all
  moreover have "vmm_get_next_level (Some (tptr s g)) (PDPT_INDEX a) False s = Some (map_option (tptr s) (vtbl s ?b), s)"
    by (rule next_level_existing[OF g c(2)]) simp
  moreover have "vmm_get_next_level (Some (tptr s h)) (PD_INDEX a) False s =
      Some (map_option (tptr s) (vtbl s (PD_INDEX a # ?b)), s)"
    by (rule next_level_existing[OF h c(3)]) simp
  ultimately show ?thesis unfolding f3 h g by auto
qed

lemma page_align_index:
  "PML4_INDEX (a AND NOT 0xFFF) = PML4_INDEX a" "PDPT_INDEX (a AND NOT 0xFFF) = PDPT_INDEX a"
  "PD_INDEX (a AND NOT 0xFFF) = PD_INDEX a" "PT_INDEX (a AND NOT 0xFFF) = PT_INDEX a"
proof -
  have m: "(0xFFF :: u64) = mask 12" by (simp add: mask_eq_exp_minus_1)
  have d: "drop_bit n (a AND NOT 0xFFF) = drop_bit n a" if "12 \<le> n" for n
    unfolding m by (rule bit_word_eqI) (use that in \<open>auto simp: bit_simps dest: bit_imp_le_length\<close>)
  show "PML4_INDEX (a AND NOT 0xFFF) = PML4_INDEX a" "PDPT_INDEX (a AND NOT 0xFFF) = PDPT_INDEX a"
    "PD_INDEX (a AND NOT 0xFFF) = PD_INDEX a" "PT_INDEX (a AND NOT 0xFFF) = PT_INDEX a"
    unfolding PML4_INDEX_def PDPT_INDEX_def PD_INDEX_def PT_INDEX_def
    by (subst d; simp)+
qed

lemma page_align_path: "table_path (a AND NOT 0xFFF) = table_path a" "entry_path (a AND NOT 0xFFF) = entry_path a"
  by (simp_all only: table_path_def entry_path_def page_align_index)

lemma page_align_offset: "(a AND NOT 0xFFF) AND 0xFFF = (0 :: u64)"
  by (rule bit_word_eqI) (auto simp: bit_simps)

text \<open>
  C24. A write to a present user page that is not writable, whose frame has a single owner, is
  answered by setting the writable bit of that page, whatever area the page belongs to; no other
  page changes and the page tables stay well formed. The handler has no other notion of a
  copy-on-write page, so a page mapped read-only on purpose becomes writable by the first write
  to it.
\<close>

theorem cow_sole_owner:
  assumes wf: "vm_wf v" and cl: "vclean v (table_path a)" and e: "vlookup v (entry_path a) = Some e"
    and ro: "e AND PAGE_USER \<noteq> 0" "e AND PAGE_WRITABLE = 0"
    and f: "e AND ADDR_MASK \<noteq> 0" and one: "pmm_page_refcount (e AND ADDR_MASK) (pm v) = Some 1"
  shows "is_cow_page a v = Some True \<and>
    (\<exists>v'. cow_handle_fault (cr3 v) a v = Some v' \<and> vm_wf v' \<and> flushes v' = Invlpg a # flushes v \<and>
       (\<forall>q. page_path q \<longrightarrow> vlookup v' q = (if q = entry_path a then Some (e OR PAGE_WRITABLE) else vlookup v q)))"
proof -
  obtain t where t: "vtbl v (table_path a) = Some t" "leaf (mem v (entry_addr t (PT_INDEX a))) = Some e"
    using e by (auto simp: lookup_def entry_path_def bind_eq_Some_conv)
  then have me: "mem v (entry_addr t (PT_INDEX a)) = e" and pe: "present e" by (auto simp: leaf_def split: if_splits)
  have cow: "is_cow_page a v = Some True"
    using walk_lookup[OF cl] t(1) me pe ro by (simp add: is_cow_page_def present_def)
  have gp: "vmm_get_phys (a AND NOT 0xFFF) v = Some (e AND ADDR_MASK)"
    using get_phys_lookup[of v "a AND NOT 0xFFF"] cl e
    by (simp only: page_align_path phys_of_def page_align_offset option.case or.right_neutral)
  define v' where "v' = v\<lparr>pm := (pm v)\<lparr>ram := (mem v)(entry_addr t (PT_INDEX a) := e OR PAGE_WRITABLE)\<rparr>\<rparr>"
  have wr: "tbl_wr (Some (tptr v t)) (PT_INDEX a) (e OR PAGE_WRITABLE) v = Some v'"
    by (simp add: tbl_wr_tptr v'_def)
  have run: "cow_handle_fault (cr3 v) a v = Some (invlpg a v')"
    using next_levels[OF cl t(1)] gp f one wr me
    by (auto simp: cow_handle_fault_def Let_def)
  note lw = leaf_write[OF wf t(1), where e = "e OR PAGE_WRITABLE", folded v'_def]
  have pr: "leaf (e OR PAGE_WRITABLE) = Some (e OR PAGE_WRITABLE)"
  proof -
    have "(e OR PAGE_WRITABLE) AND PAGE_PRESENT = e AND PAGE_PRESENT"
      by (simp add: PAGE_WRITABLE_def PAGE_PRESENT_def bit.conj_disj_distrib2)
    then show ?thesis using pe by (simp add: leaf_def present_def)
  qed
  have "vm_wf (invlpg a v')" "\<And>q. vlookup (invlpg a v') q = vlookup v' q" "flushes (invlpg a v') = Invlpg a # flushes v"
    using lw(1) by (simp_all add: invlpg_def v'_def)
  then show ?thesis using cow run lw(6) pr by auto
qed

theorem cow_sole_owner_witness:
  "\<exists>v v'. vmm_map_page 0x400000 0x2000 (PAGE_PRESENT OR PAGE_USER) demo_vmm = Some v \<and>
     is_cow_page 0x400000 v = Some True \<and> cow_handle_fault (cr3 v) 0x400000 v = Some v' \<and>
     vlookup v' (entry_path 0x400000) = Some 0x2007"
proof -
  let ?a = "0x400000 :: u64"
  from walk_create[OF demo_vmm_wf demo_vmm_tbl(3), of ?a] obtain t s1 where
    w: "vmm_walk ?a True demo_vmm = Some (t, s1)" "vm_ext demo_vmm s1"
      "t = map_option (tptr s1) (vtbl s1 (table_path ?a))" "t = None \<longrightarrow> vfree s1 = {}"
      "card (vfree demo_vmm) \<le> card (vfree s1) + (if t = None then 2 else 3)" by (elim exE conjE)
  have "card (vfree demo_vmm) = 5" by (simp add: demo_vmm_def demo_free)
  then have "t \<noteq> None" using w(4,5) by (auto split: if_splits)
  then obtain f where f: "vtbl s1 (table_path ?a) = Some f" "t = Some (tptr s1 f)" using w(3) by auto
  define v0 where "v0 = s1\<lparr>pm := (pm s1)\<lparr>ram := (mem s1)(entry_addr f (PT_INDEX ?a) := 0x2005)\<rparr>\<rparr>"
  note lw = leaf_write[OF vm_ext_regs(1)[OF w(2)] f(1), where e = "0x2005", folded v0_def]
  have map: "vmm_map_page ?a 0x2000 (PAGE_PRESENT OR PAGE_USER) demo_vmm = Some (invlpg ?a v0)"
    using w(1) f(2) tbl_wr_tptr[of s1 f "PT_INDEX ?a" "0x2005"]
    by (simp add: vmm_map_page_def PAGE_PRESENT_def PAGE_USER_def ADDR_MASK_def v0_def)
  let ?v = "invlpg ?a v0"
  have wf: "vm_wf ?v" and lk: "vlookup ?v q = vlookup v0 q" and cl0: "vclean ?v q = vclean v0 q" for q
    using lw(1) by (simp_all add: invlpg_def)
  have cl: "vclean ?v (table_path ?a)"
    unfolding cl0 using lw(5)[OF valid_table_path(1)] vm_ext_clean[OF w(2) valid_table_path(1) demo_vmm_tbl(3)] by simp
  have e: "vlookup ?v (entry_path ?a) = Some 0x2005"
    unfolding lk using lw(6)[OF page_path_entry_path, of ?a] by (simp add: leaf_def present_def PAGE_PRESENT_def)
  have "page_refcount (pm s1) 2 = page_refcount (pm demo_vmm) 2"
    using vm_ext_refcount[OF w(2), of 2] by (simp add: demo_vmm_def demo_free)
  then have "pmm_page_refcount ((0x2005 :: u64) AND ADDR_MASK) (pm ?v) = Some 1"
    by (simp add: pmm_page_refcount_def ADDR_MASK_def PMM_PAGE_SIZE_def MAX_PAGES_def refcount_rd_def
        invlpg_def v0_def demo_vmm_def demo_pmm_def)
  with cow_sole_owner[OF wf cl e] map show ?thesis
    by (auto simp: PAGE_USER_def PAGE_WRITABLE_def ADDR_MASK_def)
qed

end
