(* ===== verification/Vfs.thy ===== *)
theory Vfs
  imports Prelude
begin

text \<open>
  The virtual file system of \<open>kernel/src/fs/vfs.c\<close>. Nodes live at addresses. A node names the table of
  operations of its file system by address; the tables are the argument \<open>tbl\<close> of the operations below,
  which call through them and pass the state on. Paths and names are character lists without the
  terminator.
\<close>

section \<open>Nodes and operation tables\<close>

definition FS_FILE :: u32 where "FS_FILE = 1"
definition FS_DIRECTORY :: u32 where "FS_DIRECTORY = 2"
definition FS_CHARDEVICE :: u32 where "FS_CHARDEVICE = 4"
definition FS_BLOCKDEVICE :: u32 where "FS_BLOCKDEVICE = 8"
definition FS_PIPE :: u32 where "FS_PIPE = 16"
definition FS_SYMLINK :: u32 where "FS_SYMLINK = 32"
definition FS_MOUNTPOINT :: u32 where "FS_MOUNTPOINT = 64"
definition FS_PERM_R :: u32 where "FS_PERM_R = 256"
definition FS_PERM_W :: u32 where "FS_PERM_W = 128"
definition FS_PERM_X :: u32 where "FS_PERM_X = 64"

record dirent =
  d_name :: string
  d_ino :: u32
  d_type :: u32

record vfs_node =
  nname :: string
  nmask :: u32
  nuid :: u32
  ngid :: u32
  nflags :: u32
  ninode :: u32
  nlength :: u64
  nimpl :: "u64 option"
  nops :: "u64 option"
  nptr :: "u64 option"
  ndevice :: "u64 option"

definition zero_node :: vfs_node where
  "zero_node = \<lparr>nname = '''', nmask = 0, nuid = 0, ngid = 0, nflags = 0, ninode = 0, nlength = 0,
     nimpl = None, nops = None, nptr = None, ndevice = None\<rparr>"

record vfs =
  nodes :: "u64 \<Rightarrow> vfs_node option"
  vfs_root :: "u64 option"

text \<open>
  A read returns the number it reports and the bytes it stored in the buffer; a write gets the \<open>size\<close>
  bytes of its buffer. A null function pointer is \<open>None\<close>.
\<close>

record 's vfs_ops =
  ops_read :: "(u64 \<Rightarrow> u64 \<Rightarrow> u64 \<Rightarrow> 's \<Rightarrow> (u64 \<times> u8 list \<times> 's) option) option"
  ops_write :: "(u64 \<Rightarrow> u64 \<Rightarrow> u8 list \<Rightarrow> 's \<Rightarrow> (u64 \<times> 's) option) option"
  ops_open :: "(u64 \<Rightarrow> 's \<Rightarrow> 's option) option"
  ops_close :: "(u64 \<Rightarrow> 's \<Rightarrow> 's option) option"
  ops_readdir :: "(u64 \<Rightarrow> u32 \<Rightarrow> 's \<Rightarrow> (dirent option \<times> 's) option) option"
  ops_finddir :: "(u64 \<Rightarrow> string \<Rightarrow> 's \<Rightarrow> (u64 option \<times> 's) option) option"
  ops_mkdir :: "(u64 \<Rightarrow> string \<Rightarrow> 's \<Rightarrow> (u64 option \<times> 's) option) option"
  ops_create :: "(u64 \<Rightarrow> string \<Rightarrow> 's \<Rightarrow> (u64 option \<times> 's) option) option"

type_synonym 's tables = "u64 \<Rightarrow> 's vfs_ops"

text \<open>\<open>node->ops && node->ops->f\<close>: the function, if there is one.\<close>

definition node_op :: "'s tables \<Rightarrow> ('s vfs_ops \<Rightarrow> 'f option) \<Rightarrow> vfs_node \<Rightarrow> 'f option" where
  "node_op tbl sel n = (case nops n of None \<Rightarrow> None | Some t \<Rightarrow> sel (tbl t))"

section \<open>Operations on a node\<close>

definition vfs_read :: "'a vfs_scheme tables \<Rightarrow> u64 option \<Rightarrow> u64 \<Rightarrow> u64 \<Rightarrow> 'a vfs_scheme \<Rightarrow>
    (u64 \<times> u8 list \<times> 'a vfs_scheme) option" where
  "vfs_read tbl node offset size1 s = (case node of
      None \<Rightarrow> Some (0, [], s)
    | Some p \<Rightarrow> do {
        n \<leftarrow> nodes s p;
        (case node_op tbl ops_read n of None \<Rightarrow> Some (0, [], s) | Some f \<Rightarrow> f p offset size1 s) })"

definition vfs_write :: "'a vfs_scheme tables \<Rightarrow> u64 option \<Rightarrow> u64 \<Rightarrow> u8 list \<Rightarrow> 'a vfs_scheme \<Rightarrow>
    (u64 \<times> 'a vfs_scheme) option" where
  "vfs_write tbl node offset buf s = (case node of
      None \<Rightarrow> Some (0, s)
    | Some p \<Rightarrow> do {
        n \<leftarrow> nodes s p;
        (case node_op tbl ops_write n of None \<Rightarrow> Some (0, s) | Some f \<Rightarrow> f p offset buf s) })"

definition vfs_open :: "'a vfs_scheme tables \<Rightarrow> u64 option \<Rightarrow> 'a vfs_scheme \<Rightarrow> 'a vfs_scheme option" where
  "vfs_open tbl node s = (case node of
      None \<Rightarrow> Some s
    | Some p \<Rightarrow> do { n \<leftarrow> nodes s p; (case node_op tbl ops_open n of None \<Rightarrow> Some s | Some f \<Rightarrow> f p s) })"

definition vfs_close :: "'a vfs_scheme tables \<Rightarrow> u64 option \<Rightarrow> 'a vfs_scheme \<Rightarrow> 'a vfs_scheme option" where
  "vfs_close tbl node s = (case node of
      None \<Rightarrow> Some s
    | Some p \<Rightarrow> do { n \<leftarrow> nodes s p; (case node_op tbl ops_close n of None \<Rightarrow> Some s | Some f \<Rightarrow> f p s) })"

definition vfs_readdir :: "'a vfs_scheme tables \<Rightarrow> u64 option \<Rightarrow> u32 \<Rightarrow> 'a vfs_scheme \<Rightarrow>
    (dirent option \<times> 'a vfs_scheme) option" where
  "vfs_readdir tbl node index s = do {
     p \<leftarrow> node;
     n \<leftarrow> nodes s p;
     if nflags n AND FS_DIRECTORY = FS_DIRECTORY then
       (case node_op tbl ops_readdir n of None \<Rightarrow> Some (None, s) | Some f \<Rightarrow> f p index s)
     else Some (None, s) }"

text \<open>The target of a mount point, else the node itself.\<close>

definition across_mount :: "u64 \<Rightarrow> vfs_node \<Rightarrow> u64" where
  "across_mount p n = (if nflags n AND FS_MOUNTPOINT \<noteq> 0 then case nptr n of Some q \<Rightarrow> q | None \<Rightarrow> p else p)"

definition vfs_finddir :: "'a vfs_scheme tables \<Rightarrow> u64 option \<Rightarrow> string \<Rightarrow> 'a vfs_scheme \<Rightarrow>
    (u64 option \<times> 'a vfs_scheme) option" where
  "vfs_finddir tbl node name s = (case node of
      None \<Rightarrow> Some (None, s)
    | Some p0 \<Rightarrow> do {
        n0 \<leftarrow> nodes s p0;
        let p = across_mount p0 n0;
        n \<leftarrow> nodes s p;
        if nflags n AND FS_DIRECTORY \<noteq> 0 then
          (case node_op tbl ops_finddir n of
             None \<Rightarrow> Some (None, s)
           | Some f \<Rightarrow> do {
               (child, s1) \<leftarrow> f p name s;
               (case child of
                  None \<Rightarrow> Some (None, s1)
                | Some c \<Rightarrow> do { cn \<leftarrow> nodes s1 c; Some (Some (across_mount c cn), s1) }) })
        else Some (None, s) })"

section \<open>Paths\<close>

abbreviation slash :: char where "slash \<equiv> CHR ''/''"

lemma path_rest_shorter:
  assumes "dropWhile (\<lambda>c. c = slash) path \<noteq> []"
  shows "length (dropWhile (\<lambda>c. c \<noteq> slash) (dropWhile (\<lambda>c. c = slash) path)) < length path"
proof -
  let ?p = "dropWhile (\<lambda>c. c = slash) path"
  have "hd ?p \<noteq> slash" using hd_dropWhile[OF assms] by simp
  then have "dropWhile (\<lambda>c. c \<noteq> slash) ?p = dropWhile (\<lambda>c. c \<noteq> slash) (tl ?p)" using assms by (cases ?p) auto
  then have "length (dropWhile (\<lambda>c. c \<noteq> slash) ?p) \<le> length (tl ?p)" by (metis length_dropWhile_le)
  moreover have "length ?p \<le> length path" by (rule length_dropWhile_le)
  ultimately show ?thesis using assms by (cases ?p) auto
qed

function vfs_resolve_recursive :: "'a vfs_scheme tables \<Rightarrow> u64 option \<Rightarrow> string \<Rightarrow> 'a vfs_scheme \<Rightarrow>
    (u64 option \<times> 'a vfs_scheme) option" where
  "vfs_resolve_recursive tbl current path s =
     (let path1 = dropWhile (\<lambda>c. c = slash) path in
      if path1 = [] then Some (current, s)
      else case vfs_finddir tbl current (take 127 (takeWhile (\<lambda>c. c \<noteq> slash) path1)) s of
             None \<Rightarrow> None
           | Some (None, s1) \<Rightarrow> Some (None, s1)
           | Some (Some q, s1) \<Rightarrow> vfs_resolve_recursive tbl (Some q) (dropWhile (\<lambda>c. c \<noteq> slash) path1) s1)"
  by pat_completeness auto
termination
  by (relation "measure (\<lambda>(tbl, current, path, s). length path)") (simp_all add: path_rest_shorter)

declare vfs_resolve_recursive.simps [simp del]

text \<open>The loop of \<open>vfs_resolve_path\<close> over mounts on the root; mounts in a circle never end it.\<close>

partial_function (option) root_target :: "u64 option \<Rightarrow> 'a vfs_scheme \<Rightarrow> u64 option option" where
  "root_target node s = (case node of
      None \<Rightarrow> Some None
    | Some p \<Rightarrow> (case nodes s p of
        None \<Rightarrow> None
      | Some n \<Rightarrow> if nflags n AND FS_MOUNTPOINT \<noteq> 0 \<and> nptr n \<noteq> None then root_target (nptr n) s else Some (Some p)))"

declare root_target.simps [code]

definition vfs_resolve_path :: "'a vfs_scheme tables \<Rightarrow> string option \<Rightarrow> 'a vfs_scheme \<Rightarrow>
    (u64 option \<times> 'a vfs_scheme) option" where
  "vfs_resolve_path tbl path s = (case path of
      None \<Rightarrow> Some (None, s)
    | Some p \<Rightarrow>
        if p = [] \<or> hd p \<noteq> slash then Some (None, s)
        else do { node \<leftarrow> root_target (vfs_root s) s; vfs_resolve_recursive tbl node (tl p) s })"

text \<open>
  The parent and the name of a path that has a slash: \<open>strrchr\<close> and the copies into \<open>parent_path\<close> and
  \<open>dir_name\<close>, of 128 bytes each.
\<close>

definition split_path :: "string \<Rightarrow> (string \<times> string) option" where
  "split_path path = (
     let name = rev (takeWhile (\<lambda>c. c \<noteq> slash) (rev path));
         parent_len = length path - length name - 1;
         parent = (if parent_len = 0 then ''/'' else take parent_len path)
     in if 127 < parent_len \<or> 127 < length name then None else Some (parent, name))"

definition vfs_mkdir :: "'a vfs_scheme tables \<Rightarrow> string option \<Rightarrow> 'a vfs_scheme \<Rightarrow> (int \<times> 'a vfs_scheme) option" where
  "vfs_mkdir tbl path s = (case path of
      None \<Rightarrow> Some (- 1, s)
    | Some p \<Rightarrow>
        if p = [] \<or> hd p \<noteq> slash then Some (- 1, s)
        else do {
          (parent_path, dir_name) \<leftarrow> split_path p;
          (parent, s1) \<leftarrow> vfs_resolve_path tbl (Some parent_path) s;
          (case parent of
             None \<Rightarrow> Some (- 1, s1)
           | Some q \<Rightarrow> do {
               n \<leftarrow> nodes s1 q;
               (case node_op tbl ops_mkdir n of
                  None \<Rightarrow> Some (- 1, s1)
                | Some f \<Rightarrow> do { (r, s2) \<leftarrow> f q dir_name s1; Some (if r = None then - 1 else 0, s2) }) }) })"

definition vfs_create :: "'a vfs_scheme tables \<Rightarrow> string option \<Rightarrow> 'a vfs_scheme \<Rightarrow> (u64 option \<times> 'a vfs_scheme) option" where
  "vfs_create tbl path s = (case path of
      None \<Rightarrow> Some (None, s)
    | Some p \<Rightarrow>
        if p = [] \<or> hd p \<noteq> slash then Some (None, s)
        else do {
          (parent_path, file_name) \<leftarrow> split_path p;
          (parent, s1) \<leftarrow> vfs_resolve_path tbl (Some parent_path) s;
          (case parent of
             None \<Rightarrow> Some (None, s1)
           | Some q \<Rightarrow> do {
               n \<leftarrow> nodes s1 q;
               (case node_op tbl ops_create n of None \<Rightarrow> Some (None, s1) | Some f \<Rightarrow> f q file_name s1) }) })"

definition vfs_mount :: "'a vfs_scheme tables \<Rightarrow> string option \<Rightarrow> u64 option \<Rightarrow> 'a vfs_scheme \<Rightarrow> (int \<times> 'a vfs_scheme) option" where
  "vfs_mount tbl path local_root s = do {
     (node, s1) \<leftarrow> vfs_resolve_path tbl path s;
     (case node of
        None \<Rightarrow> Some (- 1, s1)
      | Some p \<Rightarrow> do {
          n \<leftarrow> nodes s1 p;
          Some (0, s1\<lparr>nodes := (nodes s1)(p \<mapsto> n\<lparr>nptr := local_root, nflags := nflags n OR FS_MOUNTPOINT\<rparr>)\<rparr>) }) }"

section \<open>Resolution follows the components of the path\<close>

text \<open>The parts of a path between slashes, empty parts left out, each cut to what the buffer holds.\<close>

fun split_slash :: "string \<Rightarrow> string list" where
  "split_slash [] = [[]]"
| "split_slash (c # cs) = (if c = slash then [] # split_slash cs
     else case split_slash cs of x # xs \<Rightarrow> (c # x) # xs | [] \<Rightarrow> [[c]])"

definition path_components :: "string \<Rightarrow> string list" where
  "path_components path = map (take 127) (filter (\<lambda>x. x \<noteq> []) (split_slash path))"

text \<open>One \<open>vfs_finddir\<close> per component, until one finds nothing.\<close>

fun walk :: "'a vfs_scheme tables \<Rightarrow> u64 option \<Rightarrow> string list \<Rightarrow> 'a vfs_scheme \<Rightarrow> (u64 option \<times> 'a vfs_scheme) option" where
  "walk tbl current [] s = Some (current, s)"
| "walk tbl current (c # cs) s = (case vfs_finddir tbl current c s of
      None \<Rightarrow> None
    | Some (None, s1) \<Rightarrow> Some (None, s1)
    | Some (Some q, s1) \<Rightarrow> walk tbl (Some q) cs s1)"

lemma split_slash_not_Nil [simp]: "split_slash cs \<noteq> []"
  by (induction cs) (auto split: list.splits)

lemma split_slash_app:
  "slash \<notin> set xs \<Longrightarrow> split_slash (xs @ ys) = (xs @ hd (split_slash ys)) # tl (split_slash ys)"
proof (induction xs)
  case Nil
  then show ?case by simp
next
  case (Cons x xs)
  then show ?case by (auto split: list.splits)
qed

lemma components_slashes: "path_components (dropWhile (\<lambda>c. c = slash) path) = path_components path"
  by (induction path) (auto simp: path_components_def)

lemma components_Nil: "path_components [] = []"
  by (simp add: path_components_def)

lemma split_slash_hd: "xs = [] \<or> hd xs = slash \<Longrightarrow> hd (split_slash xs) = []"
  by (cases xs) auto

lemma components_app:
  assumes x: "x \<noteq> []" "slash \<notin> set x" and y: "hd (split_slash y) = []"
  shows "path_components (x @ y) = take 127 x # path_components y"
proof -
  obtain ys where ys: "split_slash y = [] # ys" using y by (cases "split_slash y") auto
  then show ?thesis using x(1) split_slash_app[OF x(2), of y] by (simp add: path_components_def)
qed

lemma components_Cons:
  assumes "path \<noteq> []" "hd path \<noteq> slash"
  shows "path_components path =
     take 127 (takeWhile (\<lambda>c. c \<noteq> slash) path) # path_components (dropWhile (\<lambda>c. c \<noteq> slash) path)"
proof -
  let ?x = "takeWhile (\<lambda>c. c \<noteq> slash) path" and ?y = "dropWhile (\<lambda>c. c \<noteq> slash) path"
  have "?x \<noteq> []" using assms by (cases path) simp_all
  moreover have "slash \<notin> set ?x" by (blast dest: set_takeWhileD)
  moreover have "hd (split_slash ?y) = []"
    by (rule split_slash_hd) (use hd_dropWhile[of "\<lambda>c. c \<noteq> slash" path] in blast)
  ultimately have "path_components (?x @ ?y) = take 127 ?x # path_components ?y" by (rule components_app)
  then show ?thesis unfolding takeWhile_dropWhile_id .
qed

lemma resolve_walk: "vfs_resolve_recursive tbl current path s = walk tbl current (path_components path) s"
proof (induction "length path" arbitrary: current path s rule: less_induct)
  case less
  let ?p = "dropWhile (\<lambda>c. c = slash) path"
  show ?case
  proof (cases "?p = []")
    case True
    then have "path_components path = []" using components_slashes[of path] components_Nil by metis
    then show ?thesis unfolding vfs_resolve_recursive.simps[of tbl current path s] Let_def True by simp
  next
    case False
    let ?c = "take 127 (takeWhile (\<lambda>c. c \<noteq> slash) ?p)" and ?r = "dropWhile (\<lambda>c. c \<noteq> slash) ?p"
    have "hd ?p \<noteq> slash" using hd_dropWhile[OF False] by simp
    then have comps: "path_components path = ?c # path_components ?r"
      using components_slashes[of path] components_Cons[OF False] by simp
    have IH: "vfs_resolve_recursive tbl q ?r s1 = walk tbl q (path_components ?r) s1" for q s1
      by (rule less.hyps[OF path_rest_shorter[OF False]])
    show ?thesis
      unfolding vfs_resolve_recursive.simps[of tbl current path s] comps walk.simps Let_def IH using False by (simp only: if_False)
  qed
qed

text \<open>
  C29. Path resolution. An absolute path is resolved by one directory lookup per nonempty component, from
  the root or what is mounted on it, and stops at the first component that is not found; repeated and
  trailing slashes do not matter and components are cut to 127 characters. Any other path gives NULL.
\<close>

theorem vfs_resolve_path_correct:
  "vfs_resolve_path tbl (Some (slash # path)) s =
     Option.bind (root_target (vfs_root s) s) (\<lambda>node. walk tbl node (path_components path) s) \<and>
   (p = [] \<or> hd p \<noteq> slash \<longrightarrow> vfs_resolve_path tbl (Some p) s = Some (None, s))"
  by (simp add: vfs_resolve_path_def resolve_walk)

text \<open>A root with a directory \<open>a\<close> on which the node 3 is mounted.\<close>

definition demo_vfs :: vfs where
  "demo_vfs = \<lparr>nodes = [1 \<mapsto> zero_node\<lparr>nflags := FS_DIRECTORY, nops := Some 9\<rparr>,
      2 \<mapsto> zero_node\<lparr>nflags := FS_DIRECTORY OR FS_MOUNTPOINT, nptr := Some 3\<rparr>,
      3 \<mapsto> zero_node\<lparr>nflags := FS_DIRECTORY, nops := Some 9\<rparr>, 4 \<mapsto> zero_node], vfs_root = Some 1\<rparr>"

definition demo_tables :: "vfs tables" where
  "demo_tables t = \<lparr>ops_read = None, ops_write = None, ops_open = None, ops_close = None, ops_readdir = None,
     ops_finddir = Some (\<lambda>p name s. Some (if p = 1 \<and> name = ''a'' then Some 2 else if p = 3 \<and> name = ''b'' then Some 4 else None, s)),
     ops_mkdir = None, ops_create = None\<rparr>"

theorem vfs_resolve_path_witness:
  "vfs_resolve_path demo_tables (Some ''//a/b/'') demo_vfs = Some (Some 4, demo_vfs) \<and>
   vfs_resolve_path demo_tables (Some ''a'') demo_vfs = Some (None, demo_vfs)"
proof -
  have "path_components ''/a/b/'' = [''a'', ''b'']" by (simp add: path_components_def)
  moreover have "root_target (vfs_root demo_vfs) demo_vfs = Some (Some 1)"
    by (subst root_target.simps) (simp add: demo_vfs_def FS_DIRECTORY_def FS_MOUNTPOINT_def)
  moreover have "walk demo_tables (Some 1) [''a'', ''b''] demo_vfs = Some (Some 4, demo_vfs)"
    by (simp add: vfs_finddir_def demo_vfs_def demo_tables_def node_op_def across_mount_def zero_node_def
        FS_DIRECTORY_def FS_MOUNTPOINT_def)
  ultimately show ?thesis
    using vfs_resolve_path_correct[of demo_tables "''/a/b/''" demo_vfs "''a''"] by simp
qed

end
