(* ===== verification/KAlloc.thy ===== *)
theory KAlloc
  imports Heap
begin

text \<open>
  The contract of the kernel heap that its clients rely on: the set of live pointers, an allocation that
  returns NULL or a fresh one, and a release that takes one away. \<open>room\<close> says that the heap region may
  still grow by that many bytes before its address space ends; an allocation of \<open>n\<close> bytes uses at most
  \<open>n + 20510\<close> of it.
\<close>

locale allocator =
  fixes live :: "'h \<Rightarrow> u64 set \<Rightarrow> bool" and alloc :: "u64 \<Rightarrow> 'h \<Rightarrow> (u64 option \<times> 'h) option"
    and release :: "u64 option \<Rightarrow> 'h \<Rightarrow> 'h option" and room :: "'h \<Rightarrow> nat \<Rightarrow> bool"
  assumes alloc_ok: "live h A \<Longrightarrow> n \<noteq> 0 \<Longrightarrow> room h (unat n + 20510 + m) \<Longrightarrow>
      \<exists>r h'. alloc n h = Some (r, h') \<and> room h' m \<and>
        (case r of None \<Rightarrow> live h' A | Some p \<Rightarrow> p \<notin> A \<and> live h' (insert p A))"
    and release_ok: "live h A \<Longrightarrow> p \<in> A \<Longrightarrow> room h m \<Longrightarrow>
      \<exists>h'. release (Some p) h = Some h' \<and> room h' m \<and> live h' (A - {p})"
begin

text \<open>Two allocations in a row: an object and its private part.\<close>

lemma alloc_pair:
  assumes "live h A" "n1 \<noteq> 0" "n2 \<noteq> 0" "room h (unat n1 + 20510 + (unat n2 + 20510 + m))"
    and "alloc n1 h = Some (Some p, h1)" "alloc n2 h1 = Some (Some q, h2)"
  shows "p \<notin> A \<and> q \<notin> A \<and> p \<noteq> q \<and> live h2 ({p, q} \<union> A) \<and> room h2 m"
proof -
  have 1: "p \<notin> A" "live h1 (insert p A)" "room h1 (unat n2 + 20510 + m)"
    using alloc_ok[OF assms(1,2,4)] assms(5) by auto
  have "q \<notin> insert p A" "live h2 (insert q (insert p A))" "room h2 m"
    using alloc_ok[OF 1(2) assms(3) 1(3)] assms(6) by auto
  then show ?thesis using 1(1) by (auto simp: insert_commute)
qed

end

definition payload :: "u64 \<times> u64 \<Rightarrow> u64" where
  "payload b = fst b + 24"

lemma image_remove:
  assumes "\<And>y. y \<in> B \<Longrightarrow> f y = f x \<Longrightarrow> y = x"
  shows "f ` (B - {x}) = f ` B - {f x}"
proof (intro subset_antisym subsetI)
  fix z assume "z \<in> f ` (B - {x})"
  then obtain y where "z = f y" "y \<in> B" "y \<noteq> x" by auto
  then show "z \<in> f ` B - {f x}" using assms[of y] by auto
next
  fix z assume "z \<in> f ` B - {f x}"
  then show "z \<in> f ` (B - {x})" by auto
qed

definition heap_live :: "heap \<Rightarrow> u64 set \<Rightarrow> bool" where
  "heap_live h A \<longleftrightarrow> (\<exists>bs. heap_wf h bs \<and> A = payload ` allocated bs)"

definition region_room :: "heap \<Rightarrow> nat \<Rightarrow> bool" where
  "region_room h m \<longleftrightarrow> unat (heap_virt_end h) + m < 2 ^ 64"

lemma allocated_unique:
  assumes "heap_wf h bs" "(a, s) \<in> allocated bs" "(a, t) \<in> allocated bs"
  shows "s = t"
proof (rule ccontr)
  assume "s \<noteq> t"
  with chain_disjoint[of _ bs _ a s False a t False] assms show False by (auto simp: heap_wf_def allocated_def)
qed

lemma kmalloc_live:
  assumes "heap_live h A" "n \<noteq> 0" "region_room h (unat n + 20510 + m)"
  shows "\<exists>r h'. kmalloc n h = Some (r, h') \<and> region_room h' m \<and>
    (case r of None \<Rightarrow> heap_live h' A | Some p \<Rightarrow> p \<notin> A \<and> heap_live h' (insert p A))"
proof -
  obtain bs where bs: "heap_wf h bs" "A = payload ` allocated bs" using assms(1) by (auto simp: heap_live_def)
  have "unat (heap_virt_end h) + unat n + 20510 < 2 ^ 64" using assms(3) by (simp add: region_room_def)
  from kmalloc_spec_end[OF bs(1) assms(2) this] obtain r h' bs' where
    k: "kmalloc n h = Some (r, h')" "heap_wf h' bs'"
      "case r of None \<Rightarrow> allocated bs' = allocated bs \<and> vfree (vm h') = {}
       | Some p \<Rightarrow> \<exists>a s. p = a + 24 \<and> unat n \<le> unat s \<and> allocated bs' = insert (a, s) (allocated bs) \<and>
           (\<forall>s'. (a, s') \<notin> allocated bs)"
      "unat (heap_virt_end h') \<le> unat (heap_virt_end h) + unat n + 20510" by blast
  have "region_room h' m" using k(4) assms(3) by (simp add: region_room_def)
  moreover have "case r of None \<Rightarrow> heap_live h' A | Some p \<Rightarrow> p \<notin> A \<and> heap_live h' (insert p A)"
  proof (cases r)
    case None
    then show ?thesis using k(2,3) bs(2) by (auto simp: heap_live_def)
  next
    case (Some p)
    then obtain a s where a: "p = payload (a, s)" "allocated bs' = insert (a, s) (allocated bs)" "\<forall>s'. (a, s') \<notin> allocated bs"
      using k(3) by (auto simp: payload_def)
    have "p \<notin> A" unfolding bs(2) a(1) using a(3) by (auto simp: payload_def)
    moreover have "insert p A = payload ` allocated bs'" unfolding a(1,2) bs(2) by simp
    ultimately show ?thesis using Some k(2) by (auto simp: heap_live_def)
  qed
  ultimately show ?thesis using k(1) by blast
qed

lemma kfree_live:
  assumes "heap_live h A" "p \<in> A" "region_room h m"
  shows "\<exists>h'. kfree (Some p) h = Some h' \<and> region_room h' m \<and> heap_live h' (A - {p})"
proof -
  obtain bs where bs: "heap_wf h bs" "A = payload ` allocated bs" using assms(1) by (auto simp: heap_live_def)
  obtain a s where a: "p = payload (a, s)" "(a, s) \<in> allocated bs" using assms(2) bs(2) by auto
  from kfree_spec[OF bs(1) a(2)] obtain h' bs' x where
    h': "kfree (Some (a + 24)) h = Some h'" "heap_wf h' bs'" "allocated bs' = allocated bs - {(a, s)}" "h' = h\<lparr>hdrs := x\<rparr>"
    by blast
  have only: "y = (a, s)" if "y \<in> allocated bs" "payload y = payload (a, s)" for y
    using that allocated_unique[OF bs(1) a(2)] by (cases y) (simp add: payload_def)
  have "A - {p} = payload ` allocated bs'"
    unfolding h'(3) bs(2) a(1) by (rule image_remove[symmetric]) (rule only)
  then have "heap_live h' (A - {p})" using h'(2) by (auto simp: heap_live_def)
  moreover have "region_room h' m" using assms(3) h'(4) by (simp add: region_room_def)
  ultimately show ?thesis using h'(1) a(1) by (auto simp: payload_def)
qed

interpretation kheap_alloc: allocator heap_live kmalloc kfree region_room
  by unfold_locales (use kmalloc_live kfree_live in blast)+

lemma demo_heap_live: "heap_live demo_heap {HEAP_VIRT_START + 24}" "region_room demo_heap 1000000"
proof -
  have "HEAP_VIRT_START + 24 \<in> {HEAP_VIRT_START + 24}" by simp
  show "heap_live demo_heap {HEAP_VIRT_START + 24}" unfolding heap_live_def using demo_heap_wf by (intro exI conjI) (auto simp: payload_def)
  show "region_room demo_heap 1000000" by (simp add: region_room_def demo_heap_def HEAP_VIRT_START_def)
qed

text \<open>The free block of that heap serves a request of 512 bytes.\<close>

lemma demo_heap_take: "\<exists>h. kmalloc_take 512 (HEAP_VIRT_START + 1000) demo_heap = Some h"
  by (simp add: kmalloc_take_def hdr_rd_def hdr_wr_def demo_heap_def in_heap_def HEADER_SIZE_def MIN_BLOCK_def
      HEAP_VIRT_START_def Let_def)

lemma demo_heap_hdrs:
  "hdr_rd HEAP_VIRT_START demo_heap = Some \<lparr>bsize = 976, bfree = False, bnext = Some (HEAP_VIRT_START + 1000)\<rparr>"
  "hdr_rd (HEAP_VIRT_START + 1000) demo_heap = Some \<lparr>bsize = 3072, bfree = True, bnext = None\<rparr>"
  by (simp_all add: hdr_rd_def demo_heap_def in_heap_def HEAP_VIRT_START_def)

lemma demo_heap_kmalloc: "\<exists>p h. kmalloc 512 demo_heap = Some (Some p, h)"
proof -
  obtain h where "kmalloc_take 512 (HEAP_VIRT_START + 1000) demo_heap = Some h" using demo_heap_take by blast
  then have "\<exists>p h. kmalloc_search 512 (Some HEAP_VIRT_START) demo_heap = Some (Some p, h)"
    by (simp add: kmalloc_search.simps[of 512 "Some HEAP_VIRT_START"]
        kmalloc_search.simps[of 512 "Some (HEAP_VIRT_START + 1000)"] demo_heap_hdrs)
  moreover have "align16 512 = 512" by (simp add: align16_def)
  moreover have "heap_start demo_heap = Some HEAP_VIRT_START" by (simp add: demo_heap_def)
  ultimately show ?thesis by (auto simp: kmalloc.simps[of 512])
qed

end
