(* ===== verification/Ramfs.thy ===== *)
theory Ramfs
  imports Vfs KAlloc
begin

text \<open>
  The in-memory file system of \<open>kernel/src/fs/ramfs.c\<close>. A node's private part holds the file contents, a
  heap block with its bytes, and the children of a directory. Nodes and private parts come from the
  kernel heap, whose state is part of the state here; a NULL that the code does not test for is a fault.
\<close>

section \<open>State\<close>

definition RAMFS_MAX_CHILDREN :: nat where "RAMFS_MAX_CHILDREN = 64"

record ramfs_internal =
  rdata :: "(u64 \<times> u8 list) option"
  capacity :: u64
  children :: "u64 option list"
  child_count :: nat

definition zero_internal :: ramfs_internal where
  "zero_internal = \<lparr>rdata = None, capacity = 0, children = replicate RAMFS_MAX_CHILDREN None, child_count = 0\<rparr>"

record ramfs = vfs +
  privs :: "u64 \<Rightarrow> ramfs_internal option"
  rheap :: heap

definition SIZEOF_VFS_NODE :: u64 where "SIZEOF_VFS_NODE = 192"
definition SIZEOF_RAMFS_INTERNAL :: u64 where "SIZEOF_RAMFS_INTERNAL = 536"

text \<open>The address of the table \<open>ramfs_ops\<close>.\<close>

definition RAMFS_OPS :: u64 where "RAMFS_OPS = 1"

section \<open>Files\<close>

text \<open>\<open>memcpy\<close> out of and into a block.\<close>

definition blk_read :: "u64 \<Rightarrow> nat \<Rightarrow> u8 list \<Rightarrow> u8 list option" where
  "blk_read off n d = (if unat off + n \<le> length d then Some (take n (drop (unat off) d)) else None)"

definition blk_write :: "u64 \<Rightarrow> u8 list \<Rightarrow> u8 list \<Rightarrow> u8 list option" where
  "blk_write off buf d =
     (if unat off + length buf \<le> length d then Some (take (unat off) d @ buf @ drop (unat off + length buf) d) else None)"

definition ramfs_read :: "u64 \<Rightarrow> u64 \<Rightarrow> u64 \<Rightarrow> 'a ramfs_scheme \<Rightarrow> (u64 \<times> u8 list \<times> 'a ramfs_scheme) option" where
  "ramfs_read p offset size0 s = do {
     n \<leftarrow> nodes s p;
     if nflags n AND FS_FILE \<noteq> FS_FILE then Some (0, [], s)
     else (case nimpl n of
        None \<Rightarrow> Some (0, [], s)
      | Some q \<Rightarrow> do {
          r \<leftarrow> privs s q;
          (case rdata r of
             None \<Rightarrow> Some (0, [], s)
           | Some (a, d) \<Rightarrow>
               if nlength n \<le> offset then Some (0, [], s)
               else do {
                 let readable = nlength n - offset;
                 let size1 = (if readable < size0 then readable else size0);
                 out \<leftarrow> blk_read offset (unat size1) d;
                 Some (size1, out, s) }) }) }"

text \<open>The reallocation of \<open>ramfs_write\<close>; \<open>False\<close> when memory ran out.\<close>

definition ramfs_reserve :: "u64 \<Rightarrow> u64 \<Rightarrow> ramfs_internal \<Rightarrow> heap \<Rightarrow> (bool \<times> ramfs_internal \<times> heap) option" where
  "ramfs_reserve required flen r h =
     (if capacity r < required then do {
        let new_cap = (required + 4096) AND NOT 4095;
        (p, h1) \<leftarrow> kmalloc new_cap h;
        (case p of
           None \<Rightarrow> Some (False, r, h1)
         | Some np \<Rightarrow> do {
             let new_data = replicate (unat new_cap) 0;
             (case rdata r of
                None \<Rightarrow> Some (True, r\<lparr>rdata := Some (np, new_data), capacity := new_cap\<rparr>, h1)
              | Some (a, d) \<Rightarrow> do {
                  old \<leftarrow> blk_read 0 (unat flen) d;
                  new1 \<leftarrow> blk_write 0 old new_data;
                  h2 \<leftarrow> kfree (Some a) h1;
                  Some (True, r\<lparr>rdata := Some (np, new1), capacity := new_cap\<rparr>, h2) }) }) }
      else Some (True, r, h))"

definition ramfs_write :: "u64 \<Rightarrow> u64 \<Rightarrow> u8 list \<Rightarrow> 'a ramfs_scheme \<Rightarrow> (u64 \<times> 'a ramfs_scheme) option" where
  "ramfs_write p offset buf s = do {
     n \<leftarrow> nodes s p;
     if nflags n AND FS_FILE \<noteq> FS_FILE then Some (0, s)
     else (case nimpl n of
        None \<Rightarrow> Some (0, s)
      | Some q \<Rightarrow> do {
          r \<leftarrow> privs s q;
          let size1 = of_nat (length buf);
          let required = offset + size1;
          (ok, r1, h1) \<leftarrow> ramfs_reserve required (nlength n) r (rheap s);
          let s1 = s\<lparr>rheap := h1\<rparr>;
          if \<not> ok then Some (0, s1)
          else do {
            r2 \<leftarrow> (case rdata r1 of
                     None \<Rightarrow> if buf = [] then Some r1 else None
                   | Some (a, d) \<Rightarrow> do { d1 \<leftarrow> blk_write offset buf d; Some (r1\<lparr>rdata := Some (a, d1)\<rparr>) });
            let n1 = (if nlength n < required then n\<lparr>nlength := required\<rparr> else n);
            Some (size1, s1\<lparr>nodes := (nodes s1)(p \<mapsto> n1), privs := (privs s1)(q \<mapsto> r2)\<rparr>) } }) }"

section \<open>Directories\<close>

definition ramfs_readdir :: "u64 \<Rightarrow> u32 \<Rightarrow> 'a ramfs_scheme \<Rightarrow> (dirent option \<times> 'a ramfs_scheme) option" where
  "ramfs_readdir p index s = do {
     n \<leftarrow> nodes s p;
     if nflags n AND FS_DIRECTORY \<noteq> FS_DIRECTORY then Some (None, s)
     else (case nimpl n of
        None \<Rightarrow> Some (None, s)
      | Some q \<Rightarrow> do {
          r \<leftarrow> privs s q;
          if child_count r \<le> unat index then Some (None, s)
          else do {
            c \<leftarrow> rd (children r) (unat index);
            (case c of
               None \<Rightarrow> Some (None, s)
             | Some cp \<Rightarrow> do {
                 cn \<leftarrow> nodes s cp;
                 Some (Some \<lparr>d_name = nname cn, d_ino = ninode cn, d_type = nflags cn\<rparr>, s) }) } }) }"

text \<open>The search loop over \<open>n\<close> children from \<open>i\<close> on.\<close>

primrec find_child :: "string \<Rightarrow> u64 option list \<Rightarrow> nat \<Rightarrow> nat \<Rightarrow> 'a ramfs_scheme \<Rightarrow> u64 option option" where
  "find_child name cs i 0 s = Some None"
| "find_child name cs i (Suc n) s = do {
     c \<leftarrow> rd cs i;
     cp \<leftarrow> c;
     cn \<leftarrow> nodes s cp;
     if nname cn = name then Some (Some cp) else find_child name cs (Suc i) n s }"

definition ramfs_finddir :: "u64 \<Rightarrow> string \<Rightarrow> 'a ramfs_scheme \<Rightarrow> (u64 option \<times> 'a ramfs_scheme) option" where
  "ramfs_finddir p name s = do {
     n \<leftarrow> nodes s p;
     if nflags n AND FS_DIRECTORY = 0 then Some (None, s)
     else (case nimpl n of
        None \<Rightarrow> Some (None, s)
      | Some q \<Rightarrow> do {
          r \<leftarrow> privs s q;
          c \<leftarrow> find_child name (children r) 0 (child_count r) s;
          Some (c, s) }) }"

text \<open>
  The common text of the two constructors: a node with the given flags, its private part, and the entry
  in the parent. The name buffer has 128 bytes.
\<close>

definition ramfs_new_child :: "u32 \<Rightarrow> u64 \<Rightarrow> string \<Rightarrow> 'a ramfs_scheme \<Rightarrow> (u64 option \<times> 'a ramfs_scheme) option" where
  "ramfs_new_child flags parent name s = do {
     pn \<leftarrow> nodes s parent;
     pq \<leftarrow> nimpl pn;
     pr \<leftarrow> privs s pq;
     if RAMFS_MAX_CHILDREN \<le> child_count pr then Some (None, s)
     else do {
       (np, h1) \<leftarrow> kmalloc SIZEOF_VFS_NODE (rheap s);
       node \<leftarrow> np;
       if 127 < length name then None
       else do {
         (nq, h2) \<leftarrow> kmalloc SIZEOF_RAMFS_INTERNAL h1;
         node_priv \<leftarrow> nq;
         let n = zero_node\<lparr>nname := name, nflags := flags, nmask := nmask pn, nops := Some RAMFS_OPS,
                   nimpl := Some node_priv\<rparr>;
         let s1 = s\<lparr>rheap := h2, nodes := (nodes s)(node \<mapsto> n), privs := (privs s)(node_priv \<mapsto> zero_internal)\<rparr>;
         cs \<leftarrow> wr (children pr) (child_count pr) (Some node);
         Some (Some node, s1\<lparr>privs := (privs s1)(pq \<mapsto> pr\<lparr>children := cs, child_count := child_count pr + 1\<rparr>)\<rparr>) } } }"

definition ramfs_create_dir :: "u64 \<Rightarrow> string \<Rightarrow> 'a ramfs_scheme \<Rightarrow> (u64 option \<times> 'a ramfs_scheme) option" where
  "ramfs_create_dir parent name s = ramfs_new_child FS_DIRECTORY parent name s"

definition ramfs_create_file :: "u64 \<Rightarrow> string \<Rightarrow> 'a ramfs_scheme \<Rightarrow> (u64 option \<times> 'a ramfs_scheme) option" where
  "ramfs_create_file parent name s = ramfs_new_child FS_FILE parent name s"

definition ramfs_ops :: "'a ramfs_scheme vfs_ops" where
  "ramfs_ops = \<lparr>ops_read = Some ramfs_read, ops_write = Some ramfs_write, ops_open = None, ops_close = None,
     ops_readdir = Some ramfs_readdir, ops_finddir = Some ramfs_finddir, ops_mkdir = Some ramfs_create_dir,
     ops_create = Some ramfs_create_file\<rparr>"

definition ramfs_init :: "'a ramfs_scheme \<Rightarrow> (u64 \<times> 'a ramfs_scheme) option" where
  "ramfs_init s = do {
     (rp, h1) \<leftarrow> kmalloc SIZEOF_VFS_NODE (rheap s);
     root \<leftarrow> rp;
     (rq, h2) \<leftarrow> kmalloc SIZEOF_RAMFS_INTERNAL h1;
     priv \<leftarrow> rq;
     let n = zero_node\<lparr>nname := ''/'', nflags := FS_DIRECTORY, nmask := FS_PERM_R OR FS_PERM_W OR FS_PERM_X,
               nops := Some RAMFS_OPS, nimpl := Some priv\<rparr>;
     let s1 = s\<lparr>rheap := h2, nodes := (nodes s)(root \<mapsto> n), privs := (privs s)(priv \<mapsto> zero_internal)\<rparr>;
     (d1, s2) \<leftarrow> ramfs_create_dir root ''dev'' s1;
     (d2, s3) \<leftarrow> ramfs_create_dir root ''tmp'' s2;
     (d3, s4) \<leftarrow> ramfs_create_dir root ''mnt'' s3;
     Some (root, s4) }"

section \<open>A file is its contents\<close>

text \<open>
  \<open>is_file A s p q f\<close>: the node \<open>p\<close> with private part \<open>q\<close> is a file with contents \<open>f\<close>. Its block is a live
  one of the heap, and the bytes of the block past the end of the file are zero.
\<close>

definition file_data :: "u64 set \<Rightarrow> u64 \<Rightarrow> ramfs_internal \<Rightarrow> u8 list \<Rightarrow> bool" where
  "file_data A flen r f \<longleftrightarrow> length f = unat flen \<and>
     (case rdata r of
        None \<Rightarrow> capacity r = 0 \<and> f = []
      | Some (a, d) \<Rightarrow> a \<in> A \<and> length d = unat (capacity r) \<and> length f \<le> length d \<and>
          take (length f) d = f \<and> drop (length f) d = replicate (length d - length f) 0)"

definition is_file :: "u64 set \<Rightarrow> 'a ramfs_scheme \<Rightarrow> u64 \<Rightarrow> u64 \<Rightarrow> u8 list \<Rightarrow> bool" where
  "is_file A s p q f \<longleftrightarrow> (\<exists>n r. nodes s p = Some n \<and> nflags n AND FS_FILE = FS_FILE \<and> nimpl n = Some q \<and>
     privs s q = Some r \<and> file_data A (nlength n) r f)"

text \<open>The abstract write: zeros fill a gap after the old end.\<close>

definition abs_write :: "nat \<Rightarrow> u8 list \<Rightarrow> u8 list \<Rightarrow> u8 list" where
  "abs_write off buf f = take off (f @ replicate (off - length f) 0) @ buf @ drop (off + length buf) f"

lemma abs_write_length: "length (abs_write off buf f) = max (length f) (off + length buf)"
  by (auto simp: abs_write_def)

text \<open>An overwrite of a zero-padded list, element by element.\<close>

definition put_nth :: "nat \<Rightarrow> u8 list \<Rightarrow> u8 list \<Rightarrow> nat \<Rightarrow> u8" where
  "put_nth off buf f i = (if off \<le> i \<and> i < off + length buf then buf ! (i - off) else if i < length f then f ! i else 0)"

lemma abs_write_nth:
  assumes "i < max (length f) (off + length buf)"
  shows "abs_write off buf f ! i = put_nth off buf f i"
proof -
  let ?x = "take off (f @ replicate (off - length f) 0)"
  have x: "length ?x = off" by simp
  consider "i < off" | "off \<le> i" "i < off + length buf" | "off + length buf \<le> i" by linarith
  then show ?thesis
  proof cases
    case 1
    then have "abs_write off buf f ! i = ?x ! i" unfolding abs_write_def by (simp only: nth_append x if_True)
    also have "\<dots> = (if i < length f then f ! i else 0)" using 1 by (simp add: nth_append)
    finally show ?thesis using 1 by (simp add: put_nth_def)
  next
    case 2
    then have "i - off < length buf" by arith
    then have "abs_write off buf f ! i = buf ! (i - off)"
      unfolding abs_write_def nth_append[of ?x] x using 2 by (simp add: nth_append)
    then show ?thesis using 2 by (simp add: put_nth_def)
  next
    case 3
    then have "\<not> i - off < length buf" "\<not> i < off" by arith+
    then have "abs_write off buf f ! i = drop (off + length buf) f ! (i - off - length buf)"
      unfolding abs_write_def nth_append[of ?x] x by (simp add: nth_append)
    also have "\<dots> = f ! i" using 3 assms by simp
    moreover have "i < length f" using 3 assms by simp
    ultimately show ?thesis using 3 by (simp add: put_nth_def)
  qed
qed

lemma overwrite_nth:
  assumes "off + length buf \<le> length d" "i < length d"
  shows "(take off d @ buf @ drop (off + length buf) d) ! i =
     (if off \<le> i \<and> i < off + length buf then buf ! (i - off) else d ! i)"
proof -
  consider "i < off" | "off \<le> i" "i < off + length buf" | "off + length buf \<le> i" by linarith
  then show ?thesis
  proof cases
    case 1
    then show ?thesis using assms by (simp add: nth_append)
  next
    case 2
    then have "i - off < length buf" by arith
    then show ?thesis using 2 assms by (simp add: nth_append)
  next
    case 3
    then have "\<not> i - off < length buf" by arith
    then show ?thesis using 3 assms by (simp add: nth_append)
  qed
qed

lemma pad_write:
  assumes "off + length buf \<le> length f + k"
  shows "take off (f @ replicate k 0) @ buf @ drop (off + length buf) (f @ replicate k 0) =
     abs_write off buf f @ replicate (length f + k - max (length f) (off + length buf)) 0"
    (is "?l = ?r")
proof (rule nth_equalityI)
  let ?m = "max (length f) (off + length buf)"
  have l: "length ?l = length f + k" using assms by simp
  have r: "length ?r = length f + k" using assms by (simp add: abs_write_length)
  show "length ?l = length ?r" unfolding l r ..
  fix i assume "i < length ?l"
  then have i: "i < length f + k" unfolding l .
  have "?l ! i = put_nth off buf f i"
    using overwrite_nth[of off buf "f @ replicate k 0" i] assms i by (simp add: put_nth_def nth_append)
  moreover have "?r ! i = put_nth off buf f i"
  proof (cases "i < ?m")
    case True
    then show ?thesis using abs_write_nth[OF True] by (simp add: nth_append abs_write_length)
  next
    case False
    then have "length f \<le> i" "off + length buf \<le> i" by auto
    then show ?thesis using i False by (simp add: nth_append abs_write_length put_nth_def)
  qed
  ultimately show "?l ! i = ?r ! i" by simp
qed

lemma file_read:
  assumes "is_file A s p q f"
  shows "ramfs_read p off n s =
     Some (of_nat (length (take (unat n) (drop (unat off) f))), take (unat n) (drop (unat off) f), s)"
proof -
  obtain nd r where nd: "nodes s p = Some nd" "nflags nd AND FS_FILE = FS_FILE" "nimpl nd = Some q"
    "privs s q = Some r" "file_data A (nlength nd) r f" using assms by (auto simp: is_file_def)
  have flen: "length f = unat (nlength nd)" using nd(5) by (simp add: file_data_def)
  show ?thesis
  proof (cases "rdata r")
    case None
    then have "f = []" using nd(5) by (simp add: file_data_def)
    then show ?thesis using nd None by (simp add: ramfs_read_def)
  next
    case (Some ad)
    then obtain a d where ad: "rdata r = Some (a, d)" by (cases ad) auto
    have d: "length f \<le> length d" and tk: "take (length f) d = f"
      using nd(5) ad by (auto simp: file_data_def)
    show ?thesis
    proof (cases "nlength nd \<le> off")
      case True
      then have "length f \<le> unat off" using flen by (simp add: word_le_nat_alt)
      then show ?thesis using nd ad True by (simp add: ramfs_read_def)
    next
      case False
      then have o: "unat off < length f" using flen by (simp add: word_le_nat_alt)
      define m where "m = (if nlength nd - off < n then nlength nd - off else n)"
      have "unat (nlength nd - off) = length f - unat off"
        using False flen by (subst unat_sub) (auto simp: not_le)
      then have m: "unat m = min (unat n) (length f - unat off)"
        by (auto simp: m_def word_less_nat_alt min_def)
      have "take (unat m) (drop (unat off) d) = take (unat m) (drop (unat off) f)"
      proof -
        have "take (unat m) (drop (unat off) (take (length f) d)) = take (unat m) (drop (unat off) d)"
          using m by (simp add: drop_take min_def)
        then show ?thesis using tk by simp
      qed
      also have "\<dots> = take (unat n) (drop (unat off) f)" using m by (simp add: min_def)
      finally have out: "take (unat m) (drop (unat off) d) = take (unat n) (drop (unat off) f)" .
      have "blk_read off (unat m) d = Some (take (unat n) (drop (unat off) f))"
        using m o d out by (simp add: blk_read_def)
      moreover have "ramfs_read p off n s = Option.bind (blk_read off (unat m) d) (\<lambda>out. Some (m, out, s))"
        unfolding ramfs_read_def m_def using nd(1-4) ad False by (simp add: Let_def)
      moreover have "length (take (unat n) (drop (unat off) f)) = unat m" using m by simp
      ultimately show ?thesis by simp
    qed
  qed
qed

lemma round_cap:
  fixes x :: u64
  assumes "unat x + 4096 < 2 ^ 64"
  shows "unat x < unat ((x + 4096) AND NOT 4095)" "unat ((x + 4096) AND NOT 4095) \<le> unat x + 4096"
proof -
  have m: "(4095 :: u64) = mask 12" by (simp add: mask_eq_exp_minus_1)
  have "(x + 4096) AND NOT 4095 = push_bit 12 (drop_bit 12 (x + 4096))"
    unfolding m by (rule bit_word_eqI) (auto simp: bit_simps)
  then have e: "(x + 4096) AND NOT 4095 = (x + 4096) div 4096 * 4096"
    by (simp add: push_bit_eq_mult drop_bit_eq_div)
  have d: "unat ((x + 4096) div 4096) = (unat x + 4096) div 4096"
    using unat_add_u64[of x 4096] assms by (simp add: unat_div_distrib)
  have "unat ((x + 4096) div 4096 * 4096) = (unat x + 4096) div 4096 * 4096"
    using assms d by (simp add: unat_word_ariths(2))
  then show "unat x < unat ((x + 4096) AND NOT 4095)" "unat ((x + 4096) AND NOT 4095) \<le> unat x + 4096"
    unfolding e by linarith+
qed

definition own_block :: "ramfs_internal \<Rightarrow> u64 set" where
  "own_block r = (case rdata r of None \<Rightarrow> {} | Some (a, d) \<Rightarrow> {a})"

lemma reserve_ok:
  assumes fd: "file_data A flen r f" and live: "heap_live h A" and room: "region_room h (unat req + 4096 + 20510 + m)"
  shows "\<exists>ok r1 h1 A1. ramfs_reserve req flen r h = Some (ok, r1, h1) \<and> heap_live h1 A1 \<and> A - own_block r \<subseteq> A1 \<and>
     file_data A1 flen r1 f \<and> (ok \<longrightarrow> unat req \<le> unat (capacity r1)) \<and> (\<not> ok \<longrightarrow> r1 = r)"
proof (cases "capacity r < req")
  case False
  then have "ramfs_reserve req flen r h = Some (True, r, h)" by (simp add: ramfs_reserve_def)
  moreover have "unat req \<le> unat (capacity r)" using False by (simp add: not_less word_le_nat_alt)
  ultimately show ?thesis using fd live by blast
next
  case True
  let ?cap = "(req + 4096) AND NOT 4095"
  have "unat req + 4096 < 2 ^ 64" using room by (simp add: region_room_def)
  note cap = round_cap[OF this]
  have nz: "?cap \<noteq> 0" using cap(1) by (metis not_less_zero unat_0)
  have "region_room h (unat ?cap + 20510 + m)" using room cap(2) by (simp add: region_room_def)
  from kheap_alloc.alloc_ok[OF live nz this] obtain p h1 where p: "kmalloc ?cap h = Some (p, h1)" "region_room h1 m"
    "case p of None \<Rightarrow> heap_live h1 A | Some p \<Rightarrow> p \<notin> A \<and> heap_live h1 (insert p A)" by blast
  show ?thesis
  proof (cases p)
    case None
    then have "ramfs_reserve req flen r h = Some (False, r, h1)" using True p(1) by (simp add: ramfs_reserve_def Let_def)
    then show ?thesis using None p(3) fd by auto
  next
    case (Some np)
    have lf: "length f < unat ?cap"
    proof -
      have "length f \<le> unat (capacity r)" using fd by (auto simp: file_data_def split: option.splits)
      then show ?thesis using True cap(1) by (simp add: word_less_nat_alt)
    qed
    show ?thesis
    proof (cases "rdata r")
      case none: None
      let ?r = "r\<lparr>rdata := Some (np, replicate (unat ?cap) 0), capacity := ?cap\<rparr>"
      have "ramfs_reserve req flen r h = Some (True, ?r, h1)"
        using True p(1) Some none by (simp add: ramfs_reserve_def Let_def)
      moreover have "file_data (insert np A) flen ?r f" using fd none by (auto simp: file_data_def)
      ultimately show ?thesis using p(3) Some cap(1) by (auto simp: own_block_def none)
    next
      case (Some ad)
      then obtain a d where ad: "rdata r = Some (a, d)" by (cases ad) auto
      have a: "a \<in> A" and d: "length f \<le> length d" "take (length f) d = f" "length f = unat flen"
        using fd ad by (auto simp: file_data_def)
      have live1: "heap_live h1 (insert np A)" "np \<notin> A" using p(3) \<open>p = Some np\<close> by auto
      obtain h2 where h2: "kfree (Some a) h1 = Some h2" "heap_live h2 (insert np A - {a})"
        using kheap_alloc.release_ok[OF live1(1) _ p(2), of a] a by auto
      let ?d = "f @ replicate (unat ?cap - length f) 0"
      let ?r = "r\<lparr>rdata := Some (np, ?d), capacity := ?cap\<rparr>"
      have "blk_read 0 (unat flen) d = Some f" using d by (simp add: blk_read_def)
      moreover have "blk_write 0 f (replicate (unat ?cap) 0) = Some ?d" using lf by (simp add: blk_write_def)
      ultimately have "ramfs_reserve req flen r h = Some (True, ?r, h2)"
        using True p(1) \<open>p = Some np\<close> ad h2(1) by (simp add: ramfs_reserve_def Let_def)
      moreover have "file_data (insert np A - {a}) flen ?r f"
        using d(3) lf live1(2) a by (auto simp: file_data_def)
      moreover have "unat req \<le> unat (capacity ?r)" using cap(1) by simp
      ultimately show ?thesis using h2(2) by (intro exI[of _ True] exI[of _ ?r] exI[of _ h2] exI[of _ "insert np A - {a}"])
          (auto simp: own_block_def ad)
    qed
  qed
qed

lemma overwrite_data:
  assumes fd: "file_data A flen r f" "rdata r = Some (a, d)" and b: "unat off + length buf \<le> unat (capacity r)"
    and l: "unat flen1 = max (length f) (unat off + length buf)"
  shows "\<exists>d1. blk_write off buf d = Some d1 \<and> file_data A flen1 (r\<lparr>rdata := Some (a, d1)\<rparr>) (abs_write (unat off) buf f)"
proof -
  let ?k = "length d - length f" and ?w = "abs_write (unat off) buf f"
  have d: "length f \<le> length d" "take (length f) d = f" "drop (length f) d = replicate ?k 0" "a \<in> A"
    "length d = unat (capacity r)" using fd by (auto simp: file_data_def)
  have dd: "f @ replicate ?k 0 = d" using append_take_drop_id[of "length f" d] d(2,3) by simp
  let ?d1 = "take (unat off) d @ buf @ drop (unat off + length buf) d"
  have d1: "?d1 = ?w @ replicate (length d - max (length f) (unat off + length buf)) 0"
    using pad_write[of "unat off" buf f ?k] b d(1,5) unfolding dd by simp
  have "length ?w \<le> length d" using b d(1,5) by (simp add: abs_write_length)
  moreover have "length ?d1 = length d" using b d(5) by simp
  moreover have "take (length ?w) ?d1 = ?w" "drop (length ?w) ?d1 = replicate (length d - length ?w) 0"
    unfolding d1 by (simp_all add: abs_write_length)
  moreover have "length ?w = unat flen1" using l by (simp add: abs_write_length)
  ultimately have "file_data A flen1 (r\<lparr>rdata := Some (a, ?d1)\<rparr>) ?w" using d(4,5) by (simp add: file_data_def)
  moreover have "blk_write off buf d = Some ?d1" using b d(5) by (simp add: blk_write_def)
  ultimately show ?thesis by blast
qed

lemma flen_max:
  fixes len0 req :: u64
  assumes "unat req = k"
  shows "unat (if len0 < req then req else len0) = max (unat len0) k"
  using assms by (auto simp: word_less_nat_alt max_def)


definition demo_ramfs :: ramfs where
  "demo_ramfs = \<lparr>nodes = [5 \<mapsto> zero_node\<lparr>nflags := FS_FILE, nimpl := Some 6\<rparr>], vfs_root = None,
     privs = [6 \<mapsto> zero_internal], rheap = demo_heap\<rparr>"


section \<open>Directories\<close>

text \<open>
  \<open>is_dir s p q cs\<close>: the node \<open>p\<close> with private part \<open>q\<close> is a directory with the children \<open>cs\<close>, which are
  nodes. Nodes and private parts are live blocks of the heap.
\<close>

definition is_dir :: "'a ramfs_scheme \<Rightarrow> u64 \<Rightarrow> u64 \<Rightarrow> u64 list \<Rightarrow> bool" where
  "is_dir s p q cs \<longleftrightarrow> (\<exists>n r. nodes s p = Some n \<and> nflags n AND FS_DIRECTORY = FS_DIRECTORY \<and> nimpl n = Some q \<and>
     privs s q = Some r \<and> child_count r = length cs \<and> length (children r) = RAMFS_MAX_CHILDREN \<and>
     take (length cs) (children r) = map Some cs \<and> length cs \<le> RAMFS_MAX_CHILDREN \<and> (\<forall>c \<in> set cs. nodes s c \<noteq> None))"

definition rs_owned :: "u64 set \<Rightarrow> 'a ramfs_scheme \<Rightarrow> bool" where
  "rs_owned A s \<longleftrightarrow> heap_live (rheap s) A \<and> dom (nodes s) \<subseteq> A \<and> dom (privs s) \<subseteq> A"

definition node_name :: "'a ramfs_scheme \<Rightarrow> u64 \<Rightarrow> string option" where
  "node_name s c = map_option nname (nodes s c)"

lemma find_child_find:
  assumes "i + length ds \<le> length cs" "\<forall>k < length ds. cs ! (i + k) = Some (ds ! k)" "\<forall>c \<in> set ds. nodes s c \<noteq> None"
  shows "find_child name cs i (length ds) s = Some (find (\<lambda>c. node_name s c = Some name) ds)"
  using assms
proof (induction ds arbitrary: i)
  case Nil
  then show ?case by simp
next
  case (Cons d ds)
  have "cs ! i = Some d" using Cons.prems(2)[rule_format, of 0] by simp
  moreover have "find_child name cs (Suc i) (length ds) s = Some (find (\<lambda>c. node_name s c = Some name) ds)"
  proof (rule Cons.IH)
    show "\<forall>k < length ds. cs ! (Suc i + k) = Some (ds ! k)"
      using Cons.prems(2) by (metis Suc_less_eq add_Suc add_Suc_right length_Cons nth_Cons_Suc)
  qed (use Cons.prems in auto)
  moreover obtain n where "nodes s d = Some n" using Cons.prems(3) by auto
  ultimately show ?case using Cons.prems(1) by (simp add: node_name_def)
qed

lemma finddir_find:
  assumes "is_dir s p q cs"
  shows "ramfs_finddir p name s = Some (find (\<lambda>c. node_name s c = Some name) cs, s)"
proof -
  obtain n r where d: "nodes s p = Some n" "nflags n AND FS_DIRECTORY = FS_DIRECTORY" "nimpl n = Some q"
    "privs s q = Some r" "child_count r = length cs" "length (children r) = RAMFS_MAX_CHILDREN"
    "take (length cs) (children r) = map Some cs" "length cs \<le> RAMFS_MAX_CHILDREN" "\<forall>c \<in> set cs. nodes s c \<noteq> None"
    using assms unfolding is_dir_def by blast
  have "children r ! k = Some (cs ! k)" if "k < length cs" for k
    using that arg_cong[OF d(7), of "\<lambda>l. l ! k"] by simp
  then have "find_child name (children r) 0 (child_count r) s = Some (find (\<lambda>c. node_name s c = Some name) cs)"
    unfolding d(5) by (intro find_child_find) (use d in auto)
  moreover have "nflags n AND FS_DIRECTORY \<noteq> 0" using d(2) by (simp add: FS_DIRECTORY_def)
  ultimately show ?thesis using d(1-4) by (simp add: ramfs_finddir_def)
qed

lemma readdir_nth:
  assumes "is_dir s p q cs"
  shows "ramfs_readdir p i s = Some (if unat i < length cs then
     map_option (\<lambda>n. \<lparr>d_name = nname n, d_ino = ninode n, d_type = nflags n\<rparr>) (nodes s (cs ! unat i)) else None, s)"
proof -
  obtain n r where d: "nodes s p = Some n" "nflags n AND FS_DIRECTORY = FS_DIRECTORY" "nimpl n = Some q"
    "privs s q = Some r" "child_count r = length cs" "length (children r) = RAMFS_MAX_CHILDREN"
    "take (length cs) (children r) = map Some cs" "length cs \<le> RAMFS_MAX_CHILDREN" "\<forall>c \<in> set cs. nodes s c \<noteq> None"
    using assms unfolding is_dir_def by blast
  show ?thesis
  proof (cases "unat i < length cs")
    case True
    then have "children r ! unat i = Some (cs ! unat i)" using arg_cong[OF d(7), of "\<lambda>l. l ! unat i"] by simp
    moreover obtain cn where "nodes s (cs ! unat i) = Some cn" using d(9) True nth_mem by blast
    ultimately show ?thesis using d True by (simp add: ramfs_readdir_def)
  next
    case False
    then show ?thesis using d by (simp add: ramfs_readdir_def)
  qed
qed

lemma find_append: "find P (xs @ ys) = (case find P xs of None \<Rightarrow> find P ys | Some x \<Rightarrow> Some x)"
  by (induction xs) auto

text \<open>One of the two allocations of a new child fails.\<close>

definition no_memory :: "'a ramfs_scheme \<Rightarrow> bool" where
  "no_memory s \<longleftrightarrow> (case kmalloc SIZEOF_VFS_NODE (rheap s) of
      Some (None, h1) \<Rightarrow> True
    | Some (Some n, h1) \<Rightarrow> (case kmalloc SIZEOF_RAMFS_INTERNAL h1 of Some (None, h2) \<Rightarrow> True | _ \<Rightarrow> False)
    | None \<Rightarrow> False)"

lemma new_child_ok:
  assumes dir: "is_dir s p q cs" and own: "rs_owned A s" and room: "region_room (rheap s) 42000"
    and name: "length name \<le> 127" and cs: "length cs < RAMFS_MAX_CHILDREN" and mem: "\<not> no_memory s"
  shows "\<exists>c c' s'. ramfs_new_child flags p name s = Some (Some c, s') \<and> c \<notin> A \<and> c' \<notin> A \<and>
     rs_owned ({c, c'} \<union> A) s' \<and> is_dir s' p q (cs @ [c]) \<and>
     (\<forall>x \<in> A. nodes s' x = nodes s x) \<and> (\<forall>x \<in> A - {q}. privs s' x = privs s x) \<and>
     (\<exists>m. nodes s' c = Some (zero_node\<lparr>nname := name, nflags := flags, nmask := m, nops := Some RAMFS_OPS, nimpl := Some c'\<rparr>)) \<and>
     privs s' c' = Some zero_internal"
proof -
  obtain n r where d: "nodes s p = Some n" "nflags n AND FS_DIRECTORY = FS_DIRECTORY" "nimpl n = Some q"
    "privs s q = Some r" "child_count r = length cs" "length (children r) = RAMFS_MAX_CHILDREN"
    "take (length cs) (children r) = map Some cs" "\<forall>c \<in> set cs. nodes s c \<noteq> None"
    using dir unfolding is_dir_def by blast
  have live: "heap_live (rheap s) A" and dom: "p \<in> A" "q \<in> A" "set cs \<subseteq> A" "dom (nodes s) \<subseteq> A" "dom (privs s) \<subseteq> A"
    using own d by (auto simp: rs_owned_def)
  have nz: "SIZEOF_VFS_NODE \<noteq> 0" "SIZEOF_RAMFS_INTERNAL \<noteq> 0" by (simp_all add: SIZEOF_VFS_NODE_def SIZEOF_RAMFS_INTERNAL_def)
  have rm: "region_room (rheap s) (unat SIZEOF_VFS_NODE + 20510 + (unat SIZEOF_RAMFS_INTERNAL + 20510 + 0))"
    using room by (simp add: region_room_def SIZEOF_VFS_NODE_def SIZEOF_RAMFS_INTERNAL_def)
  from kheap_alloc.alloc_ok[OF live nz(1) rm] obtain r1 h1 where a1: "kmalloc SIZEOF_VFS_NODE (rheap s) = Some (r1, h1)"
    "region_room h1 (unat SIZEOF_RAMFS_INTERNAL + 20510 + 0)"
    "case r1 of None \<Rightarrow> heap_live h1 A | Some p \<Rightarrow> p \<notin> A \<and> heap_live h1 (insert p A)" by blast
  obtain c where c: "r1 = Some c" "heap_live h1 (insert c A)" using mem a1 by (cases r1) (auto simp: no_memory_def)
  from kheap_alloc.alloc_ok[OF c(2) nz(2) a1(2)] obtain r2 h2 where a2: "kmalloc SIZEOF_RAMFS_INTERNAL h1 = Some (r2, h2)" by blast
  obtain c' where c': "r2 = Some c'" using mem a1(1) a2 c(1) by (cases r2) (auto simp: no_memory_def)
  have two: "c \<notin> A" "c' \<notin> A" "heap_live h2 ({c, c'} \<union> A)"
    using kheap_alloc.alloc_pair[OF live nz rm] a1(1) a2 c(1) c' by auto
  let ?n = "zero_node\<lparr>nname := name, nflags := flags, nmask := nmask n, nops := Some RAMFS_OPS, nimpl := Some c'\<rparr>"
  let ?r = "r\<lparr>children := (children r)[length cs := Some c], child_count := length cs + 1\<rparr>"
  let ?s = "s\<lparr>rheap := h2, nodes := (nodes s)(c \<mapsto> ?n), privs := (privs s)(c' \<mapsto> zero_internal, q \<mapsto> ?r)\<rparr>"
  have new: "ramfs_new_child flags p name s = Some (Some c, ?s)"
    using d cs name a1(1) a2 c(1) c' by (simp add: ramfs_new_child_def Let_def)
  have "take (length (cs @ [c])) (children ?r) = map Some (cs @ [c])"
    using d(6,7) cs by (simp add: take_Suc_conv_app_nth)
  then have "is_dir ?s p q (cs @ [c])" using d cs two(1) dom(1) unfolding is_dir_def
    by (intro exI[of _ n] exI[of _ ?r]) auto
  moreover have "rs_owned ({c, c'} \<union> A) ?s" using two(3) dom by (auto simp: rs_owned_def)
  moreover have "\<forall>x \<in> A. nodes ?s x = nodes s x" "\<forall>x \<in> A - {q}. privs ?s x = privs s x" using two by auto
  moreover have "privs ?s c' = Some zero_internal" "nodes ?s c = Some ?n" using two dom by auto
  ultimately show ?thesis using new two(1,2) by blast
qed

text \<open>
  C31. Creating a file in a directory of the RAM file system. A full directory is refused with NULL and no
  change. Otherwise, when the heap can give the two blocks, the result is a fresh node, an empty
  file, the last child of the directory, and every other node is as before; looking its name up
  in the directory afterwards finds the first child with that name, which is the new one exactly
  when no older child had it. When the heap has no memory the code writes through the NULL pointer.
\<close>

theorem ramfs_create_correct:
  assumes dir: "is_dir s p q cs" and own: "rs_owned A s" and room: "region_room (rheap s) 42000"
    and name: "length name \<le> 127"
  shows "if length cs = RAMFS_MAX_CHILDREN then ramfs_create_file p name s = Some (None, s)
    else if no_memory s then ramfs_create_file p name s = None
    else \<exists>c c' s' A'. ramfs_create_file p name s = Some (Some c, s') \<and> c \<notin> A \<and> rs_owned A' s' \<and>
      is_dir s' p q (cs @ [c]) \<and> is_file A' s' c c' [] \<and> (\<forall>x \<in> A. nodes s' x = nodes s x) \<and>
      ramfs_finddir p name s' =
        Some (case find (\<lambda>x. node_name s x = Some name) cs of None \<Rightarrow> Some c | Some x \<Rightarrow> Some x, s')"
proof -
  obtain n r where d: "nodes s p = Some n" "nimpl n = Some q" "privs s q = Some r" "child_count r = length cs"
      "length cs \<le> RAMFS_MAX_CHILDREN" "\<forall>c \<in> set cs. nodes s c \<noteq> None"
    using dir unfolding is_dir_def by blast
  consider "length cs = RAMFS_MAX_CHILDREN" | "length cs < RAMFS_MAX_CHILDREN" "no_memory s"
    | "length cs < RAMFS_MAX_CHILDREN" "\<not> no_memory s" using d(5) by fastforce
  then show ?thesis
  proof cases
    case 1
    then show ?thesis using d by (simp add: ramfs_create_file_def ramfs_new_child_def)
  next
    case 2
    then have "ramfs_create_file p name s = None" using d name
      by (auto simp: ramfs_create_file_def ramfs_new_child_def no_memory_def split: option.splits)
    then show ?thesis using 2 by simp
  next
    case 3
    from new_child_ok[OF dir own room name 3, of FS_FILE] obtain c c' s' m where
      k: "ramfs_new_child FS_FILE p name s = Some (Some c, s')" "c \<notin> A" "rs_owned ({c, c'} \<union> A) s'"
        "is_dir s' p q (cs @ [c])" "\<forall>x \<in> A. nodes s' x = nodes s x"
        "nodes s' c = Some (zero_node\<lparr>nname := name, nflags := FS_FILE, nmask := m, nops := Some RAMFS_OPS, nimpl := Some c'\<rparr>)"
        "privs s' c' = Some zero_internal" by blast
    have "set cs \<subseteq> A" using own d(6) by (auto simp: rs_owned_def)
    then have "find (\<lambda>x. node_name s' x = Some name) cs = find (\<lambda>x. node_name s x = Some name) cs"
      using k(5) by (intro find_cong) (auto simp: node_name_def)
    then have "find (\<lambda>x. node_name s' x = Some name) (cs @ [c]) =
        (case find (\<lambda>x. node_name s x = Some name) cs of None \<Rightarrow> Some c | Some x \<Rightarrow> Some x)"
      using k(6) by (simp add: find_append node_name_def split: option.splits)
    then have fd: "ramfs_finddir p name s' =
        Some (case find (\<lambda>x. node_name s x = Some name) cs of None \<Rightarrow> Some c | Some x \<Rightarrow> Some x, s')"
      using finddir_find[OF k(4), of name] by simp
    have "is_file ({c, c'} \<union> A) s' c c' []"
      using k(6,7) by (simp add: is_file_def file_data_def zero_internal_def zero_node_def)
    then have "\<exists>c c' s' A'. ramfs_create_file p name s = Some (Some c, s') \<and> c \<notin> A \<and> rs_owned A' s' \<and>
      is_dir s' p q (cs @ [c]) \<and> is_file A' s' c c' [] \<and> (\<forall>x \<in> A. nodes s' x = nodes s x) \<and>
      ramfs_finddir p name s' =
        Some (case find (\<lambda>x. node_name s x = Some name) cs of None \<Rightarrow> Some c | Some x \<Rightarrow> Some x, s')"
      using k(1-5) fd unfolding ramfs_create_file_def by blast
    then show ?thesis using 3 by simp
  qed
qed

definition demo_heap2 :: heap where
  "demo_heap2 = demo_heap\<lparr>hdrs :=
     [HEAP_VIRT_START \<mapsto> \<lparr>bsize = 976, bfree = False, bnext = Some (HEAP_VIRT_START + 1000)\<rparr>,
      HEAP_VIRT_START + 1000 \<mapsto> \<lparr>bsize = 976, bfree = False, bnext = Some (HEAP_VIRT_START + 2000)\<rparr>,
      HEAP_VIRT_START + 2000 \<mapsto> \<lparr>bsize = 2072, bfree = True, bnext = None\<rparr>]\<rparr>"

lemma demo_heap2_wf: "heap_wf demo_heap2 [(HEAP_VIRT_START, 976, False), (HEAP_VIRT_START + 1000, 976, False),
    (HEAP_VIRT_START + 2000, 2072, True)]"
  using demo_vmm_wf demo_heap_clean
  by (simp add: heap_wf_def demo_heap2_def demo_heap_def in_heap_def HEAP_VIRT_START_def)

definition demo_dir :: ramfs where
  "demo_dir = \<lparr>nodes = [HEAP_VIRT_START + 24 \<mapsto> zero_node\<lparr>nflags := FS_DIRECTORY, nimpl := Some (HEAP_VIRT_START + 1024)\<rparr>],
     vfs_root = None, privs = [HEAP_VIRT_START + 1024 \<mapsto> zero_internal], rheap = demo_heap2\<rparr>"

theorem ramfs_create_witness:
  "is_dir demo_dir (HEAP_VIRT_START + 24) (HEAP_VIRT_START + 1024) [] \<and>
   (no_memory demo_dir \<and> ramfs_create_file (HEAP_VIRT_START + 24) ''a'' demo_dir = None \<or>
    (\<exists>c s'. ramfs_create_file (HEAP_VIRT_START + 24) ''a'' demo_dir = Some (Some c, s') \<and>
      ramfs_finddir (HEAP_VIRT_START + 24) ''a'' s' = Some (Some c, s')))"
proof -
  have dir: "is_dir demo_dir (HEAP_VIRT_START + 24) (HEAP_VIRT_START + 1024) []"
    by (simp add: is_dir_def demo_dir_def zero_internal_def)
  have "heap_live demo_heap2 {HEAP_VIRT_START + 24, HEAP_VIRT_START + 1024}"
    unfolding heap_live_def by (intro exI conjI, rule demo_heap2_wf) (auto simp: payload_def)
  then have own: "rs_owned {HEAP_VIRT_START + 24, HEAP_VIRT_START + 1024} demo_dir"
    by (simp add: rs_owned_def demo_dir_def)
  have room: "region_room (rheap demo_dir) 42000"
    by (simp add: region_room_def demo_dir_def demo_heap2_def demo_heap_def HEAP_VIRT_START_def)
  from ramfs_create_correct[OF dir own room, of "''a''"] dir show ?thesis
    by (auto simp: RAMFS_MAX_CHILDREN_def split: if_splits)
qed

end
