(* ===== verification/Disk.thy ===== *)
theory Disk
  imports Ramfs
begin

text \<open>
  Disks as the file systems see them: the drive descriptor of \<open>kernel/src/drivers/storage/ata.h\<close>, the
  sector reads of \<open>ata.c\<close> and \<open>ahci.c\<close>, the table of partitions and the dispatcher \<open>disk_read_sectors\<close> of
  \<open>fs/partition.c\<close>. What the hardware answers to a read command is part of the state: the 16-bit words
  that an ATA drive delivers for a sector, and the contents of the bounce buffer after an AHCI command.
\<close>

section \<open>Drives and partitions\<close>

datatype disk_type = DISK_TYPE_ATA | DISK_TYPE_SATA | DISK_TYPE_NVME

record ata_drive =
  drive_type :: disk_type
  present :: bool
  is_master :: bool
  is_lba48 :: bool
  io_base :: u32
  total_sectors :: u64
  drive_name :: string

record disk_partition =
  part_drive :: u64
  partition_index :: u8
  os_type :: u8
  lba_start :: u64
  size_sectors :: u64

definition MAX_PARTITIONS :: nat where "MAX_PARTITIONS = 16"

text \<open>
  \<open>ata_sector s d l\<close> is the answer of the ATA drive \<open>d\<close> for the sector \<open>l\<close>: its 256 words, or \<open>None\<close> when
  the drive stays busy or reports an error; for a read of no sectors the drive is taken to be ready. \<open>ahci_bounce s d l n\<close> is the bounce buffer after the command
  to read \<open>n\<close> sectors, or \<open>None\<close> when the command fails. \<open>partitions\<close> holds the used entries of \<open>g_partitions\<close>.
\<close>

record disk = ramfs +
  drives :: "u64 \<Rightarrow> ata_drive option"
  ata_sector :: "u64 \<Rightarrow> u64 \<Rightarrow> (nat \<Rightarrow> u16) option"
  ahci_bounce :: "u64 \<Rightarrow> u64 \<Rightarrow> u8 \<Rightarrow> (nat \<Rightarrow> u8) option"
  partitions :: "disk_partition list"

section \<open>Reading sectors\<close>

text \<open>A read returns \<open>None\<close> for the C result 0, and otherwise the bytes it stored in the buffer.\<close>

definition word_bytes :: "u16 \<Rightarrow> u8 list" where
  "word_bytes w = [ucast (w AND 0xFF), ucast (drop_bit 8 w AND 0xFF)]"

definition ata_sector_bytes :: "(nat \<Rightarrow> u16) \<Rightarrow> u8 list" where
  "ata_sector_bytes w = concat (map (\<lambda>j. word_bytes (w j)) [0..<256])"

text \<open>The data loop over \<open>n\<close> sectors.\<close>

primrec ata_data :: "(u64 \<Rightarrow> (nat \<Rightarrow> u16) option) \<Rightarrow> u64 \<Rightarrow> nat \<Rightarrow> u8 list option" where
  "ata_data sec l 0 = Some []"
| "ata_data sec l (Suc n) = do {
     w \<leftarrow> sec l;
     rest \<leftarrow> ata_data sec (l + 1) n;
     Some (ata_sector_bytes w @ rest) }"

text \<open>The sector number as the registers of the drive hold it.\<close>

definition ata_lba :: "ata_drive \<Rightarrow> u64 \<Rightarrow> u64" where
  "ata_lba d lba = (if is_lba48 d then lba AND 0xFFFFFFFFFFFF else lba AND 0xFFFFFFF)"

definition ata_read_sectors :: "u64 \<Rightarrow> u64 \<Rightarrow> u8 \<Rightarrow> 'a disk_scheme \<Rightarrow> u8 list option option" where
  "ata_read_sectors drive lba count s = do {
     d \<leftarrow> drives s drive;
     if \<not> present d then Some None
     else Some (ata_data (ata_sector s drive) (ata_lba d lba) (unat count)) }"

definition ahci_read_sectors :: "u64 \<Rightarrow> u64 \<Rightarrow> u8 \<Rightarrow> 'a disk_scheme \<Rightarrow> u8 list option option" where
  "ahci_read_sectors drive lba count s =
     Some (map_option (\<lambda>b. map b [0..<unat count * 512]) (ahci_bounce s drive (lba AND 0xFFFFFFFFFFFF) count))"

definition disk_read_sectors :: "u64 \<Rightarrow> u64 \<Rightarrow> u8 \<Rightarrow> 'a disk_scheme \<Rightarrow> u8 list option option" where
  "disk_read_sectors drive lba count s = do {
     d \<leftarrow> drives s drive;
     if drive_type d = DISK_TYPE_ATA then ata_read_sectors drive lba count s
     else if drive_type d = DISK_TYPE_SATA then ahci_read_sectors drive lba count s
     else Some None }"

text \<open>
  A read into a buffer of \<open>size\<close> bytes, which may be NULL. The result is the part of the buffer
  that the read has filled; later code that looks past it looks at bytes nobody wrote, a fault here.
\<close>

definition read_into :: "bool \<Rightarrow> nat \<Rightarrow> u8 list option \<Rightarrow> u8 list option option" where
  "read_into ok size1 r = (case r of
      None \<Rightarrow> Some None
    | Some b \<Rightarrow> if length b \<le> size1 \<and> (ok \<or> b = []) then Some (Some b) else None)"

section \<open>Little-endian fields\<close>

text \<open>Fields of packed structures laid over a buffer.\<close>

primrec le_field :: "nat \<Rightarrow> u8 list \<Rightarrow> nat \<Rightarrow> ('w :: len) word option" where
  "le_field 0 b i = Some 0"
| "le_field (Suc n) b i = do {
     x \<leftarrow> rd b i;
     w \<leftarrow> le_field n b (Suc i);
     Some (ucast x OR push_bit 8 w) }"

definition le16 :: "u8 list \<Rightarrow> nat \<Rightarrow> u16 option" where "le16 = le_field 2"
definition le32 :: "u8 list \<Rightarrow> nat \<Rightarrow> u32 option" where "le32 = le_field 4"
definition le64 :: "u8 list \<Rightarrow> nat \<Rightarrow> u64 option" where "le64 = le_field 8"

text \<open>A byte buffer as a C string.\<close>

definition c_string :: "u8 list \<Rightarrow> string" where
  "c_string b = map (\<lambda>x. char_of (unat x)) (takeWhile (\<lambda>x. x \<noteq> 0) b)"

lemma le_field_Some: "i + n \<le> length b \<Longrightarrow> \<exists>w. (le_field n b i :: 'w :: len word option) = Some w"
proof (induction n arbitrary: i)
  case 0
  then show ?case by simp
next
  case (Suc n)
  have "Suc i + n \<le> length b" using Suc.prems by simp
  then obtain w where "(le_field n b (Suc i) :: 'w word option) = Some w" using Suc.IH by blast
  then show ?case using Suc.prems by simp
qed

lemma le_field_None: "0 < n \<Longrightarrow> length b < i + n \<Longrightarrow> le_field n b i = None"
proof (induction n arbitrary: i)
  case 0
  then show ?case by simp
next
  case (Suc n)
  then show ?case by (cases "i < length b"; cases n) auto
qed

section \<open>The contract of a block device\<close>

text \<open>A read that succeeds fills exactly its sectors.\<close>

locale block_device =
  fixes sectors :: "u64 \<Rightarrow> u64 \<Rightarrow> u8 \<Rightarrow> 's \<Rightarrow> u8 list option option"
  assumes sectors_length: "sectors d l n s = Some (Some b) \<Longrightarrow> length b = unat n * 512"
begin

lemma read_into_fits:
  assumes "sectors d l n s = Some r" "unat n * 512 \<le> size1"
  shows "read_into True size1 r = Some r"
  using assms sectors_length[of d l n s] by (auto simp: read_into_def split: option.splits)

lemma read_into_overrun:
  assumes "sectors d l n s = Some (Some b)" "size1 < unat n * 512"
  shows "read_into v size1 (Some b) = None"
  using assms sectors_length[of d l n s b] by (auto simp: read_into_def)

end

lemma ata_sector_bytes_length: "length (ata_sector_bytes w) = 512"
proof -
  have "length (concat (map (\<lambda>j. word_bytes (w j)) xs)) = 2 * length xs" for xs
    by (induction xs) (auto simp: word_bytes_def)
  then show ?thesis by (simp add: ata_sector_bytes_def)
qed

lemma ata_data_length: "ata_data sec l n = Some b \<Longrightarrow> length b = n * 512"
  by (induction n arbitrary: l b) (auto simp: ata_sector_bytes_length split: Option.bind_splits)

lemma disk_read_length:
  assumes "disk_read_sectors d l n s = Some (Some b)"
  shows "length b = unat n * 512"
  using assms by (auto simp: disk_read_sectors_def ata_read_sectors_def ahci_read_sectors_def ata_data_length
      split: Option.bind_splits if_splits)

interpretation disk_blocks: block_device disk_read_sectors
  by unfold_locales (rule disk_read_length)

end
