(* ===== verification/Fat32.thy ===== *)
theory Fat32
  imports Disk
begin

text \<open>
  The read-only FAT32 driver of \<open>kernel/src/fs/fat32.c\<close>: the cluster chain, directory scans, file reads and
  the mount. A loop along the cluster chain is a partial function, since a table with a cycle never ends it.
\<close>

section \<open>State\<close>

record fat32_fs =
  fat_part :: nat
  fat_lba :: u32
  data_lba :: u32
  root_cluster :: u32
  sectors_per_cluster :: u32
  bytes_per_cluster :: u32

record fat32_node_data =
  fat_node_fs :: u64
  first_cluster :: u32
  file_size :: u32

record fat32 = disk +
  fat_fss :: "u64 \<Rightarrow> fat32_fs option"
  fat_datas :: "u64 \<Rightarrow> fat32_node_data option"

definition SIZEOF_FAT32_FS :: u64 where "SIZEOF_FAT32_FS = 32"
definition SIZEOF_FAT32_NODE :: u64 where "SIZEOF_FAT32_NODE = 16"

text \<open>The address of the table \<open>fat32_ops\<close>.\<close>

definition FAT32_OPS :: u64 where "FAT32_OPS = 2"

definition FAT_EOC :: u32 where "FAT_EOC = 0x0FFFFFF8"

section \<open>Clusters\<close>

definition fat_disk :: "fat32_fs \<Rightarrow> u32 \<Rightarrow> u8 \<Rightarrow> 'a fat32_scheme \<Rightarrow> u8 list option option" where
  "fat_disk fs lba count s = do {
     part \<leftarrow> rd (partitions s) (fat_part fs);
     disk_read_sectors (part_drive part) (ucast lba) count s }"

definition fat32_get_next_cluster :: "fat32_fs \<Rightarrow> u32 \<Rightarrow> 'a fat32_scheme \<Rightarrow> u32 option" where
  "fat32_get_next_cluster fs cluster s = do {
     let fat_offset = cluster * 4;
     let fat_sector = fat_lba fs + fat_offset div 512;
     let ent_offset = fat_offset mod 512;
     r \<leftarrow> fat_disk fs fat_sector 1 s;
     r1 \<leftarrow> read_into True 512 r;
     (case r1 of
        None \<Rightarrow> Some 0x0FFFFFFF
      | Some sector \<Rightarrow> do { nxt \<leftarrow> le32 sector (unat ent_offset); Some (nxt AND 0x0FFFFFFF) }) }"

text \<open>The read of one cluster into \<open>cluster_buf\<close>, which has \<open>bytes_per_cluster\<close> bytes or is NULL.\<close>

definition read_cluster :: "fat32_fs \<Rightarrow> u64 option \<Rightarrow> u32 \<Rightarrow> 'a fat32_scheme \<Rightarrow> u8 list option option" where
  "read_cluster fs cluster_buf cluster s = do {
     let cluster_lba = data_lba fs + (cluster - 2) * sectors_per_cluster fs;
     r \<leftarrow> fat_disk fs cluster_lba (ucast (sectors_per_cluster fs)) s;
     read_into (cluster_buf \<noteq> None) (unat (bytes_per_cluster fs)) r }"

section \<open>Directories\<close>

text \<open>The 8.3 name of a directory entry, with the dot only before a non-empty extension.\<close>

definition parse_fat32_name :: "u8 list \<Rightarrow> u8 list" where
  "parse_fat32_name src =
     takeWhile (\<lambda>c. c \<noteq> 32) (take 8 src) @
     (if src ! 8 \<noteq> 32 then 46 # takeWhile (\<lambda>c. c \<noteq> 32) (take 3 (drop 8 src)) else [])"

text \<open>Entry \<open>i\<close> of a cluster: its 32 bytes.\<close>

definition fat_entry :: "u8 list \<Rightarrow> nat \<Rightarrow> u8 list option" where
  "fat_entry buf i = (if (i + 1) * 32 \<le> length buf then Some (take 32 (drop (i * 32) buf)) else None)"

definition entry_skipped :: "u8 list \<Rightarrow> bool" where
  "entry_skipped e \<longleftrightarrow> e ! 0 = 0xE5 \<or> e ! 11 = 0x0F \<or> e ! 11 AND 0x08 \<noteq> 0"

definition entry_cluster :: "u8 list \<Rightarrow> u32 option" where
  "entry_cluster e = do {
     lo \<leftarrow> le16 e 26;
     hi \<leftarrow> le16 e 20;
     Some (ucast lo OR push_bit 16 (ucast hi)) }"

definition entry_type :: "u8 list \<Rightarrow> u32" where
  "entry_type e = (if e ! 11 AND 0x10 \<noteq> 0 then FS_DIRECTORY else FS_FILE)"

text \<open>How the loop over the entries of one cluster ends.\<close>

datatype 'r dir_scan = Dir_next u32 | Dir_end | Dir_found 'r

primrec readdir_scan :: "u8 list \<Rightarrow> u32 \<Rightarrow> nat \<Rightarrow> nat \<Rightarrow> u32 \<Rightarrow> dirent dir_scan option" where
  "readdir_scan buf index i 0 valid_count = Some (Dir_next valid_count)"
| "readdir_scan buf index i (Suc n) valid_count = do {
     e \<leftarrow> fat_entry buf i;
     if e ! 0 = 0 then Some Dir_end
     else if entry_skipped e then readdir_scan buf index (Suc i) n valid_count
     else if valid_count = index then do {
       c \<leftarrow> entry_cluster e;
       Some (Dir_found \<lparr>d_name = c_string (parse_fat32_name e), d_ino = c, d_type = entry_type e\<rparr>) }
     else readdir_scan buf index (Suc i) n (valid_count + 1) }"

definition max_entries :: "fat32_fs \<Rightarrow> nat" where
  "max_entries fs = unat (bytes_per_cluster fs) div 32"

partial_function (option) readdir_loop ::
    "fat32_fs \<Rightarrow> u64 option \<Rightarrow> u32 \<Rightarrow> u32 \<Rightarrow> u32 \<Rightarrow> 'a fat32_scheme \<Rightarrow> dirent option option" where
  "readdir_loop fs cluster_buf index cluster valid_count s =
     (if cluster < FAT_EOC then
        Option.bind (read_cluster fs cluster_buf cluster s) (\<lambda>r. case r of
            None \<Rightarrow> Some None
          | Some buf \<Rightarrow> Option.bind (readdir_scan buf index 0 (max_entries fs) valid_count) (\<lambda>x. case x of
                Dir_end \<Rightarrow> Some None
              | Dir_found d \<Rightarrow> Some (Some d)
              | Dir_next v \<Rightarrow> Option.bind (fat32_get_next_cluster fs cluster s)
                  (\<lambda>c. readdir_loop fs cluster_buf index c v s)))
      else Some None)"

definition fat32_readdir :: "u64 \<Rightarrow> u32 \<Rightarrow> 'a fat32_scheme \<Rightarrow> (dirent option \<times> 'a fat32_scheme) option" where
  "fat32_readdir node index s = do {
     n \<leftarrow> nodes s node;
     (case nimpl n of
        None \<Rightarrow> Some (None, s)
      | Some q \<Rightarrow> do {
          n_data \<leftarrow> fat_datas s q;
          fs \<leftarrow> fat_fss s (fat_node_fs n_data);
          (cluster_buf, h1) \<leftarrow> kmalloc (ucast (bytes_per_cluster fs)) (rheap s);
          d_out \<leftarrow> readdir_loop fs cluster_buf index (first_cluster n_data) 0 s;
          h2 \<leftarrow> kfree cluster_buf h1;
          Some (d_out, s\<lparr>rheap := h2\<rparr>) }) }"

primrec finddir_scan :: "u8 list \<Rightarrow> string \<Rightarrow> nat \<Rightarrow> nat \<Rightarrow> u8 list dir_scan option" where
  "finddir_scan buf name i 0 = Some (Dir_next 0)"
| "finddir_scan buf name i (Suc n) = do {
     e \<leftarrow> fat_entry buf i;
     if e ! 0 = 0 then Some Dir_end
     else if entry_skipped e then finddir_scan buf name (Suc i) n
     else if c_string (parse_fat32_name e) = name then Some (Dir_found e)
     else finddir_scan buf name (Suc i) n }"

partial_function (option) finddir_loop ::
    "fat32_fs \<Rightarrow> u64 option \<Rightarrow> string \<Rightarrow> u32 \<Rightarrow> 'a fat32_scheme \<Rightarrow> u8 list option option" where
  "finddir_loop fs cluster_buf name cluster s =
     (if cluster < FAT_EOC then
        Option.bind (read_cluster fs cluster_buf cluster s) (\<lambda>r. case r of
            None \<Rightarrow> Some None
          | Some buf \<Rightarrow> Option.bind (finddir_scan buf name 0 (max_entries fs)) (\<lambda>x. case x of
                Dir_end \<Rightarrow> Some None
              | Dir_found e \<Rightarrow> Some (Some e)
              | Dir_next v \<Rightarrow> Option.bind (fat32_get_next_cluster fs cluster s)
                  (\<lambda>c. finddir_loop fs cluster_buf name c s)))
      else Some None)"

text \<open>The node for an entry that was found.\<close>

definition fat32_child :: "u64 \<Rightarrow> u8 list \<Rightarrow> 'a fat32_scheme \<Rightarrow> (u64 \<times> 'a fat32_scheme) option" where
  "fat32_child fsp e s = do {
     (np, h1) \<leftarrow> kmalloc SIZEOF_VFS_NODE (rheap s);
     child \<leftarrow> np;
     (cp, h2) \<leftarrow> kmalloc SIZEOF_FAT32_NODE h1;
     c_data \<leftarrow> cp;
     flen \<leftarrow> le32 e 28;
     c \<leftarrow> entry_cluster e;
     Some (child, s\<lparr>rheap := h2,
        nodes := (nodes s)(child \<mapsto> zero_node\<lparr>nname := c_string (parse_fat32_name e), nflags := entry_type e,
          nlength := ucast flen, nops := Some FAT32_OPS, nimpl := Some c_data\<rparr>),
        fat_datas := (fat_datas s)(c_data \<mapsto> \<lparr>fat_node_fs = fsp, first_cluster = c, file_size = flen\<rparr>)\<rparr>) }"

definition fat32_finddir :: "u64 \<Rightarrow> string \<Rightarrow> 'a fat32_scheme \<Rightarrow> (u64 option \<times> 'a fat32_scheme) option" where
  "fat32_finddir node name s = do {
     n \<leftarrow> nodes s node;
     (case nimpl n of
        None \<Rightarrow> Some (None, s)
      | Some q \<Rightarrow> do {
          n_data \<leftarrow> fat_datas s q;
          fs \<leftarrow> fat_fss s (fat_node_fs n_data);
          (cluster_buf, h1) \<leftarrow> kmalloc (ucast (bytes_per_cluster fs)) (rheap s);
          let s1 = s\<lparr>rheap := h1\<rparr>;
          r \<leftarrow> finddir_loop fs cluster_buf name (first_cluster n_data) s1;
          (child, s2) \<leftarrow> (case r of
             None \<Rightarrow> Some (None, s1)
           | Some e \<Rightarrow> map_option (\<lambda>(c, t). (Some c, t)) (fat32_child (fat_node_fs n_data) e s1));
          h2 \<leftarrow> kfree cluster_buf (rheap s2);
          Some (child, s2\<lparr>rheap := h2\<rparr>) }) }"

section \<open>Files\<close>

text \<open>The loop that skips \<open>n\<close> clusters; \<open>Some None\<close> when the chain ends before.\<close>

primrec skip_clusters :: "fat32_fs \<Rightarrow> nat \<Rightarrow> u32 \<Rightarrow> 'a fat32_scheme \<Rightarrow> u32 option option" where
  "skip_clusters fs 0 cluster s = Some (Some cluster)"
| "skip_clusters fs (Suc n) cluster s = do {
     c \<leftarrow> fat32_get_next_cluster fs cluster s;
     if FAT_EOC \<le> c then Some None else skip_clusters fs n c s }"

text \<open>The copy loop, with the bytes copied so far.\<close>

partial_function (option) fat32_copy ::
    "fat32_fs \<Rightarrow> u64 option \<Rightarrow> u64 \<Rightarrow> u64 \<Rightarrow> u32 \<Rightarrow> u32 \<Rightarrow> u8 list \<Rightarrow> 'a fat32_scheme \<Rightarrow> (u64 \<times> u8 list) option" where
  "fat32_copy fs cluster_buf size1 bytes_read cluster_offset cluster out s =
     (if bytes_read < size1 then
        Option.bind (read_cluster fs cluster_buf cluster s) (\<lambda>r. case r of
            None \<Rightarrow> Some (bytes_read, out)
          | Some buf \<Rightarrow>
              (let room1 = bytes_per_cluster fs - cluster_offset;
                   to_copy = (if size1 - bytes_read < ucast room1 then ucast (size1 - bytes_read) else room1);
                   read1 = bytes_read + ucast to_copy
               in Option.bind (blk_read (ucast cluster_offset) (unat to_copy) buf) (\<lambda>chunk.
                  if read1 < size1 then
                    Option.bind (fat32_get_next_cluster fs cluster s) (\<lambda>c.
                      if FAT_EOC \<le> c then Some (read1, out @ chunk)
                      else fat32_copy fs cluster_buf size1 read1 0 c (out @ chunk) s)
                  else fat32_copy fs cluster_buf size1 read1 0 cluster (out @ chunk) s)))
      else Some (bytes_read, out))"

declare readdir_loop.simps [code] finddir_loop.simps [code] fat32_copy.simps [code]

definition fat32_read :: "u64 \<Rightarrow> u64 \<Rightarrow> u64 \<Rightarrow> 'a fat32_scheme \<Rightarrow> (u64 \<times> u8 list \<times> 'a fat32_scheme) option" where
  "fat32_read node offset size0 s = do {
     n \<leftarrow> nodes s node;
     if nflags n AND FS_FILE \<noteq> FS_FILE then Some (0, [], s)
     else do {
       q \<leftarrow> nimpl n;
       n_data \<leftarrow> fat_datas s q;
       fs \<leftarrow> fat_fss s (fat_node_fs n_data);
       let flen = ucast (file_size n_data);
       if flen \<le> offset then Some (0, [], s)
       else if bytes_per_cluster fs = 0 then None
       else do {
         let size1 = (if flen < offset + size0 then flen - offset else size0);
         let cluster_to_skip = (ucast (offset div ucast (bytes_per_cluster fs)) :: u32);
         c \<leftarrow> skip_clusters fs (unat cluster_to_skip) (first_cluster n_data) s;
         (case c of
            None \<Rightarrow> Some (0, [], s)
          | Some cluster \<Rightarrow> do {
              let cluster_offset = (ucast (offset mod ucast (bytes_per_cluster fs)) :: u32);
              (cluster_buf, h1) \<leftarrow> kmalloc (ucast (bytes_per_cluster fs)) (rheap s);
              (n1, out) \<leftarrow> fat32_copy fs cluster_buf size1 0 cluster_offset cluster [] s;
              h2 \<leftarrow> kfree cluster_buf h1;
              Some (n1, out, s\<lparr>rheap := h2\<rparr>) }) } } }"

section \<open>Mount\<close>

text \<open>Trailing spaces become terminators.\<close>

definition trim_spaces :: "u8 list \<Rightarrow> u8 list" where
  "trim_spaces str = (let k = length (takeWhile (\<lambda>c. c = 32) (rev str)) in take (length str - k) str @ replicate k 0)"

definition fat32_ops :: "'a fat32_scheme vfs_ops" where
  "fat32_ops = \<lparr>ops_read = Some fat32_read, ops_write = None, ops_open = None, ops_close = None,
     ops_readdir = Some fat32_readdir, ops_finddir = Some fat32_finddir, ops_mkdir = None, ops_create = None\<rparr>"

text \<open>The geometry that the boot record gives.\<close>

definition fat32_geometry :: "nat \<Rightarrow> disk_partition \<Rightarrow> u8 list \<Rightarrow> fat32_fs option" where
  "fat32_geometry pi part pbr = do {
     bytes_per_sector \<leftarrow> le16 pbr 11;
     spc \<leftarrow> rd pbr 13;
     reserved_sectors \<leftarrow> le16 pbr 14;
     fat_count \<leftarrow> rd pbr 16;
     sectors_per_fat_32 \<leftarrow> le32 pbr 36;
     rootc \<leftarrow> le32 pbr 44;
     let fl = ucast (lba_start part + ucast reserved_sectors);
     Some \<lparr>fat_part = pi, fat_lba = fl, data_lba = fl + ucast fat_count * sectors_per_fat_32, root_cluster = rootc,
       sectors_per_cluster = ucast spc, bytes_per_cluster = ucast spc * ucast bytes_per_sector\<rparr> }"

definition fat32_mount :: "nat \<Rightarrow> 'a fat32_scheme \<Rightarrow> (u64 option \<times> 'a fat32_scheme) option" where
  "fat32_mount pi s = do {
     part \<leftarrow> rd (partitions s) pi;
     (sp, h1) \<leftarrow> kmalloc 512 (rheap s);
     r0 \<leftarrow> disk_read_sectors (part_drive part) (lba_start part) 1 s;
     r \<leftarrow> read_into (sp \<noteq> None) 512 r0;
     (case r of
        None \<Rightarrow> do { h2 \<leftarrow> kfree sp h1; Some (None, s\<lparr>rheap := h2\<rparr>) }
      | Some pbr \<Rightarrow> do {
          j \<leftarrow> rd pbr 0;
          if j \<noteq> 0xEB \<and> j \<noteq> 0xE9 then do { h2 \<leftarrow> kfree sp h1; Some (None, s\<lparr>rheap := h2\<rparr>) }
          else do {
            (fp, h2) \<leftarrow> kmalloc SIZEOF_FAT32_FS h1;
            fsp \<leftarrow> fp;
            fs \<leftarrow> fat32_geometry pi part pbr;
            let lbl = trim_spaces (take 11 (takeWhile (\<lambda>c. c \<noteq> 0) (take 11 (drop 71 pbr)) @ replicate 11 0));
            (rp, h3) \<leftarrow> kmalloc SIZEOF_VFS_NODE h2;
            root \<leftarrow> rp;
            (dp, h4) \<leftarrow> kmalloc SIZEOF_FAT32_NODE h3;
            n_data \<leftarrow> dp;
            h5 \<leftarrow> kfree sp h4;
            Some (Some root, s\<lparr>rheap := h5,
              nodes := (nodes s)(root \<mapsto> zero_node\<lparr>nname := c_string lbl, nflags := FS_DIRECTORY,
                nops := Some FAT32_OPS, nimpl := Some n_data\<rparr>),
              fat_fss := (fat_fss s)(fsp \<mapsto> fs),
              fat_datas := (fat_datas s)(n_data \<mapsto> \<lparr>fat_node_fs = fsp, first_cluster = root_cluster fs, file_size = 0\<rparr>)\<rparr>) } }) }"

section \<open>A file is the bytes of its clusters\<close>

text \<open>
  \<open>fat_chain fs s c xs\<close>: from the cluster \<open>c\<close> on the table links exactly the clusters \<open>map fst xs\<close>, and
  reading them gives the bytes \<open>map snd xs\<close>.
\<close>

primrec fat_chain :: "fat32_fs \<Rightarrow> 'a fat32_scheme \<Rightarrow> u32 \<Rightarrow> (u32 \<times> u8 list) list \<Rightarrow> bool" where
  "fat_chain fs s c [] \<longleftrightarrow> FAT_EOC \<le> c"
| "fat_chain fs s c (x # xs) \<longleftrightarrow> c = fst x \<and> c < FAT_EOC \<and>
     fat_disk fs (data_lba fs + (c - 2) * sectors_per_cluster fs) (ucast (sectors_per_cluster fs)) s = Some (Some (snd x)) \<and>
     (\<exists>n. fat32_get_next_cluster fs c s = Some n \<and> fat_chain fs s n xs)"

definition fat_geometry_ok :: "fat32_fs \<Rightarrow> bool" where
  "fat_geometry_ok fs \<longleftrightarrow> 0 < sectors_per_cluster fs \<and> sectors_per_cluster fs < 256 \<and>
     bytes_per_cluster fs = sectors_per_cluster fs * 512"

definition fat_file :: "'a fat32_scheme \<Rightarrow> u64 \<Rightarrow> fat32_fs \<Rightarrow> u8 list \<Rightarrow> bool" where
  "fat_file s p fs f \<longleftrightarrow> (\<exists>n q nd xs. nodes s p = Some n \<and> nflags n AND FS_FILE = FS_FILE \<and> nimpl n = Some q \<and>
     fat_datas s q = Some nd \<and> fat_fss s (fat_node_fs nd) = Some fs \<and> fat_geometry_ok fs \<and>
     fat_chain fs s (first_cluster nd) xs \<and> xs \<noteq> [] \<and> f = take (unat (file_size nd)) (concat (map snd xs)))"

lemma geometry_bytes:
  assumes "fat_geometry_ok fs"
  shows "unat (ucast (sectors_per_cluster fs) :: u8) * 512 = unat (bytes_per_cluster fs)"
    "0 < unat (bytes_per_cluster fs)" "unat (bytes_per_cluster fs) \<le> 130560"
proof -
  let ?n = "unat (sectors_per_cluster fs)"
  have n: "0 < ?n" "?n < 256" using assms by (auto simp: fat_geometry_ok_def word_less_nat_alt)
  have "unat (sectors_per_cluster fs * 512) = ?n * 512"
    using n by (subst unat_mult_lem[THEN iffD1]) auto
  then have b: "unat (bytes_per_cluster fs) = ?n * 512" using assms by (simp add: fat_geometry_ok_def)
  have "unat (ucast (sectors_per_cluster fs) :: u8) = ?n" using n by (simp add: unsigned_ucast_eq take_bit_nat_eq_self)
  then show "unat (ucast (sectors_per_cluster fs) :: u8) * 512 = unat (bytes_per_cluster fs)"
    "0 < unat (bytes_per_cluster fs)" "unat (bytes_per_cluster fs) \<le> 130560" using b n by auto
qed

lemma fat_disk_length:
  assumes "fat_disk fs l n s = Some (Some b)"
  shows "length b = unat n * 512"
  using assms disk_blocks.sectors_length by (auto simp: fat_disk_def split: Option.bind_splits)

lemma chain_cluster:
  assumes "fat_geometry_ok fs" "fat_chain fs s c (x # xs)"
  shows "length (snd x) = unat (bytes_per_cluster fs)" "read_cluster fs (Some b) c s = Some (Some (snd x))"
    "read_cluster fs None c s = None"
proof -
  have d: "fat_disk fs (data_lba fs + (c - 2) * sectors_per_cluster fs) (ucast (sectors_per_cluster fs)) s = Some (Some (snd x))"
    using assms(2) unfolding fat_chain.simps by blast
  show l: "length (snd x) = unat (bytes_per_cluster fs)"
    using fat_disk_length[OF d] geometry_bytes(1)[OF assms(1)] by simp
  show "read_cluster fs (Some b) c s = Some (Some (snd x))"
    using d l by (simp add: read_cluster_def read_into_def)
  have "snd x \<noteq> []" using l geometry_bytes(2)[OF assms(1)] by auto
  then show "read_cluster fs None c s = None" using d by (simp add: read_cluster_def read_into_def)
qed

lemma chain_skip:
  "fat_chain fs s c xs \<Longrightarrow> xs \<noteq> [] \<Longrightarrow>
     (if k < length xs then skip_clusters fs k c s = Some (Some (fst (xs ! k))) \<and> fat_chain fs s (fst (xs ! k)) (drop k xs)
      else skip_clusters fs k c s = Some None)"
proof (induction k arbitrary: c xs)
  case 0
  then show ?case by (cases xs) auto
next
  case (Suc k)
  then obtain x xs' where xs: "xs = x # xs'" by (cases xs) auto
  then obtain n where n: "fat32_get_next_cluster fs c s = Some n" "fat_chain fs s n xs'" using Suc.prems(1) by auto
  show ?case
  proof (cases xs')
    case Nil
    then show ?thesis using n xs by simp
  next
    case (Cons y ys)
    then have "\<not> FAT_EOC \<le> n" using n(2) by auto
    then show ?thesis using Suc.IH[OF n(2)] n(1) xs Cons by (auto split: if_splits)
  qed
qed

lemma unat_ucast_32_64: "unat (ucast (x :: u32) :: u64) = unat x"
  by (simp add: unsigned_ucast_eq take_bit_nat_eq_self order_less_le_trans[OF unsigned_less])

lemma unat_ucast_64_32: "unat (x :: u64) < 2 ^ 32 \<Longrightarrow> unat (ucast x :: u32) = unat x"
  by (simp add: unsigned_ucast_eq take_bit_nat_eq_self)

text \<open>The copy loop delivers the bytes from the offset on, as far as the size or the chain goes.\<close>

lemma copy_chain:
  assumes "fat_geometry_ok fs" "fat_chain fs s c xs" "xs \<noteq> []" "unat co < unat (bytes_per_cluster fs)"
    "r \<le> sz" "unat (sz - r) < 2 ^ 32"
  shows "fat32_copy fs (Some b) sz r co c out s =
     (let w = take (unat (sz - r)) (drop (unat co) (concat (map snd xs))) in Some (r + of_nat (length w), out @ w))"
  using assms
proof (induction xs arbitrary: c co r out)
  case Nil
  then show ?case by simp
next
  case (Cons x xs)
  let ?B = "unat (bytes_per_cluster fs)"
  have rc: "read_cluster fs (Some b) c s = Some (Some (snd x))" and len: "length (snd x) = ?B"
    using chain_cluster[OF Cons.prems(1,2)] by auto
  obtain n where n: "fat32_get_next_cluster fs c s = Some n" "fat_chain fs s n xs" using Cons.prems(2) by auto
  show ?case
  proof (cases "r < sz")
    case False
    then have "r = sz" using Cons.prems(5) by simp
    then show ?thesis by (subst fat32_copy.simps) simp
  next
    case True
    define room1 where "room1 = bytes_per_cluster fs - co"
    define tc where "tc = (if sz - r < ucast room1 then ucast (sz - r) else room1)"
    have ro: "unat room1 = ?B - unat co" unfolding room1_def using Cons.prems(4)
      by (intro unat_sub) (simp add: word_le_nat_alt)
    have tc: "unat tc = min (unat (sz - r)) (?B - unat co)"
      unfolding tc_def using Cons.prems(6) by (auto simp: word_less_nat_alt unat_ucast_32_64 unat_ucast_64_32 ro)
    have szr: "unat (sz - r) = unat sz - unat r" using Cons.prems(5) by (intro unat_sub_u64) (simp add: word_le_nat_alt)
    have r1: "unat (r + ucast tc) = unat r + unat tc"
    proof -
      have "unat r + unat (ucast tc :: u64) \<le> unat sz"
        unfolding unat_ucast_32_64 tc szr using Cons.prems(5) by (simp add: word_le_nat_alt)
      then show ?thesis using unat_add_u64[of r "ucast tc"] unat_u64_less[of sz] by (simp add: unat_ucast_32_64)
    qed
    have chunk: "blk_read (ucast co) (unat tc) (snd x) = Some (take (unat tc) (drop (unat co) (snd x)))"
      using tc len Cons.prems(4) by (simp add: blk_read_def unat_ucast_32_64)
    have step: "fat32_copy fs (Some b) sz r co c out s =
       (let ch = take (unat tc) (drop (unat co) (snd x)); read1 = r + ucast tc in
        if read1 < sz then if FAT_EOC \<le> n then Some (read1, out @ ch) else fat32_copy fs (Some b) sz read1 0 n (out @ ch) s
        else fat32_copy fs (Some b) sz read1 0 c (out @ ch) s)"
      by (subst fat32_copy.simps) (simp only: True if_True rc bind.simps option.case Let_def
          room1_def[symmetric] tc_def[symmetric] chunk n(1))
    show ?thesis
    proof (cases "r + ucast tc < sz")
      case False
      then have all: "unat tc = unat (sz - r)" "r + ucast tc = sz"
        using r1 tc szr Cons.prems(5) by (auto simp: word_less_nat_alt word_le_nat_alt word_unat_eq_iff)
      have w: "take (unat (sz - r)) (drop (unat co) (concat (map snd (x # xs)))) = take (unat tc) (drop (unat co) (snd x))"
        using all(1) tc len by simp
      have l: "length (take (unat tc) (drop (unat co) (snd x))) = unat tc" using tc len by simp
      have stop: "fat32_copy fs (Some b) sz sz 0 c o1 s = Some (sz, o1)" for o1
        by (subst fat32_copy.simps) simp
      have "fat32_copy fs (Some b) sz r co c out s = Some (sz, out @ take (unat tc) (drop (unat co) (snd x)))"
        unfolding step Let_def all(2) stop by (simp only: less_irrefl if_False)
      moreover have "r + of_nat (unat tc) = sz" using all(2) by simp
      ultimately show ?thesis unfolding w Let_def l by (simp only:)
    next
      case True
      then have part: "unat tc = ?B - unat co" "unat (sz - (r + ucast tc)) = unat (sz - r) - unat tc"
        using r1 tc szr by (auto simp: word_less_nat_alt unat_sub word_le_nat_alt)
      have ch: "take (unat tc) (drop (unat co) (snd x)) = drop (unat co) (snd x)" using part(1) len by simp
      have tcl: "unat tc = length (drop (unat co) (snd x))" using part(1) len by simp
      have w: "take (unat (sz - r)) (drop (unat co) (concat (map snd (x # xs)))) =
          drop (unat co) (snd x) @ take (unat (sz - (r + ucast tc))) (concat (map snd xs))"
        using part tc len Cons.prems(4) True by (simp add: min_def split: if_splits)
      show ?thesis
      proof (cases xs)
        case Nil
        then show ?thesis unfolding step w Let_def ch using True n(2) tcl[symmetric] by simp
      next
        case (Cons y ys)
        then have nn: "xs \<noteq> []" "\<not> FAT_EOC \<le> n" using n(2) by auto
        have "unat (0 :: u32) < ?B" using geometry_bytes(2)[OF Cons.prems(1)] by simp
        moreover have "unat (sz - (r + ucast tc)) < 2 ^ 32" using part(2) Cons.prems(6) by simp
        ultimately have ih: "fat32_copy fs (Some b) sz (r + ucast tc) 0 n out' s =
           (let w = take (unat (sz - (r + ucast tc))) (drop (unat (0 :: u32)) (concat (map snd xs)))
            in Some (r + ucast tc + of_nat (length w), out' @ w))" for out'
          using True by (intro Cons.IH[OF Cons.prems(1) n(2) nn(1)]) simp_all
        show ?thesis unfolding step w Let_def ch ih using True nn(2) tcl[symmetric] by (simp add: Let_def)
      qed
    qed
  qed
qed

lemma chain_lengths:
  "fat_geometry_ok fs \<Longrightarrow> fat_chain fs s c xs \<Longrightarrow> d \<in> set (map snd xs) \<Longrightarrow> length d = unat (bytes_per_cluster fs)"
proof (induction xs arbitrary: c)
  case Nil
  then show ?case by simp
next
  case (Cons x xs)
  then show ?case using chain_cluster(1)[OF Cons.prems(1,2)] by (auto simp del: fat_chain.simps simp: fat_chain.simps(2))
qed

lemma concat_drop:
  "(\<And>d. d \<in> set ds \<Longrightarrow> length d = m) \<Longrightarrow> concat (drop k ds) = drop (k * m) (concat ds)"
proof (induction ds arbitrary: k)
  case Nil
  then show ?case by simp
next
  case (Cons d ds)
  then show ?case by (cases k) auto
qed

lemma concat_length:
  "(\<And>d. d \<in> set ds \<Longrightarrow> length d = m) \<Longrightarrow> length (concat ds) = length ds * m"
  by (induction ds) auto

lemma take_window:
  "take (min n (l - off)) (drop off xs) = take n (drop off (take l xs))"
  by (simp add: drop_take min.commute)

lemma unat_div_u64: "unat (a div b :: u64) = unat a div unat b" and unat_mod_u64: "unat (a mod b :: u64) = unat a mod unat b"
  by (simp_all add: unat_div_distrib unat_mod_distrib)

text \<open>What \<open>fat32_read\<close> does with a file, reduced to the copy loop.\<close>

lemma fat32_read_cases:
  assumes "fat_file s p fs f" "unat off + unat n < 2 ^ 64"
  defines "w \<equiv> take (unat n) (drop (unat off) f)"
  shows "w = [] \<and> fat32_read p off n s = Some (0, [], s) \<or>
    (\<exists>sz co c xs. fat_geometry_ok fs \<and> fat_chain fs s c xs \<and> xs \<noteq> [] \<and> unat co < unat (bytes_per_cluster fs) \<and>
       unat sz < 2 ^ 32 \<and> w = take (unat sz) (drop (unat co) (concat (map snd xs))) \<and>
       fat32_read p off n s = do {
         (buf, h1) \<leftarrow> kmalloc (ucast (bytes_per_cluster fs)) (rheap s);
         (n1, out) \<leftarrow> fat32_copy fs buf sz 0 co c [] s;
         h2 \<leftarrow> kfree buf h1;
         Some (n1, out, s\<lparr>rheap := h2\<rparr>) })"
proof -
  obtain nd q d xs where nd: "nodes s p = Some nd" "nflags nd AND FS_FILE = FS_FILE" "nimpl nd = Some q"
    "fat_datas s q = Some d" "fat_fss s (fat_node_fs d) = Some fs" "fat_geometry_ok fs"
    "fat_chain fs s (first_cluster d) xs" "xs \<noteq> []" "f = take (unat (file_size d)) (concat (map snd xs))"
    using assms(1) by (auto simp: fat_file_def)
  let ?B = "unat (bytes_per_cluster fs)" and ?C = "concat (map snd xs)"
  have B0: "bytes_per_cluster fs \<noteq> 0" "0 < ?B" using geometry_bytes(2)[OF nd(6)] by auto
  define fl where "fl = (ucast (file_size d) :: u64)"
  have fl: "unat fl = unat (file_size d)" "unat fl < 2 ^ 32"
    using unsigned_less[of "file_size d"] by (simp_all add: fl_def unat_ucast_32_64)
  have lens: "x \<in> set (map snd xs) \<Longrightarrow> length x = ?B" for x by (rule chain_lengths[OF nd(6,7)])
  show ?thesis
  proof (cases "fl \<le> off")
    case True
    then have "w = []" using fl(1) nd(9) by (auto simp: w_def word_le_nat_alt)
    moreover have "fat32_read p off n s = Some (0, [], s)" using nd True by (simp add: fat32_read_def fl_def)
    ultimately show ?thesis by simp
  next
    case False
    define sz where "sz = (if fl < off + n then fl - off else n)"
    define k where "k = (ucast (off div ucast (bytes_per_cluster fs)) :: u32)"
    define co where "co = (ucast (off mod ucast (bytes_per_cluster fs)) :: u32)"
    have off: "unat off < unat fl" using False by (simp add: word_le_nat_alt)
    have sz: "unat sz = min (unat n) (unat fl - unat off)"
    proof -
      have "unat (off + n) = unat off + unat n" using assms(2) by (rule unat_add_u64)
      then show ?thesis using off by (auto simp: sz_def word_less_nat_alt unat_sub_u64)
    qed
    have "unat off div ?B \<le> unat off" "unat off mod ?B \<le> unat off" by auto
    then have "unat off div ?B < 2 ^ 32" "unat off mod ?B < 2 ^ 32"
      using off fl(2) by (metis order_le_less_trans order_less_trans)+
    then have k: "unat k = unat off div ?B" and co: "unat co = unat off mod ?B"
      unfolding k_def co_def by (simp_all add: unat_ucast_64_32 unat_div_u64 unat_mod_u64 unat_ucast_32_64)
    have rd: "fat32_read p off n s = do {
         r \<leftarrow> skip_clusters fs (unat k) (first_cluster d) s;
         (case r of None \<Rightarrow> Some (0, [], s)
          | Some c \<Rightarrow> do {
         (buf, h1) \<leftarrow> kmalloc (ucast (bytes_per_cluster fs)) (rheap s);
         (n1, out) \<leftarrow> fat32_copy fs buf sz 0 co c [] s;
         h2 \<leftarrow> kfree buf h1;
         Some (n1, out, s\<lparr>rheap := h2\<rparr>) }) }"
      unfolding fat32_read_def using nd(1-5) False B0(1)
      by (simp add: Let_def sz_def k_def co_def fl_def cong: option.case_cong)
    have w: "w = take (unat sz) (drop (unat off) ?C)"
      unfolding w_def nd(9) sz fl(1) by (rule take_window[symmetric])
    show ?thesis
    proof (cases "unat k < length xs")
      case True
      then have sk: "skip_clusters fs (unat k) (first_cluster d) s = Some (Some (fst (xs ! unat k)))"
        "fat_chain fs s (fst (xs ! unat k)) (drop (unat k) xs)" using chain_skip[OF nd(7,8), of "unat k"] by auto
      have "concat (map snd (drop (unat k) xs)) = drop (unat k * ?B) ?C"
        using concat_drop[of "map snd xs" ?B "unat k"] lens by (simp add: drop_map)
      then have "drop (unat co) (concat (map snd (drop (unat k) xs))) = drop (unat off) ?C"
        by (simp add: k co add.commute)
      then have "w = take (unat sz) (drop (unat co) (concat (map snd (drop (unat k) xs))))" using w by simp
      moreover have "unat sz < 2 ^ 32" using sz fl(2) by simp
      moreover have "unat co < ?B" using co B0(2) by simp
      ultimately show ?thesis using sk(2) nd(6) True
        by (intro disjI2 exI[of _ sz] exI[of _ co] exI[of _ "fst (xs ! unat k)"] exI[of _ "drop (unat k) xs"])
          (simp add: rd sk(1))
    next
      case False
      then have "fat32_read p off n s = Some (0, [], s)" using rd chain_skip[OF nd(7,8), of "unat k"] by simp
      moreover have "length ?C \<le> unat off"
      proof -
        have "length ?C = length xs * ?B" using concat_length[of "map snd xs" ?B] lens by simp
        also have "\<dots> \<le> unat off div ?B * ?B" using False k by (intro mult_le_mono1) simp
        also have "\<dots> \<le> unat off" by simp
        finally show ?thesis .
      qed
      ultimately show ?thesis using w by simp
    qed
  qed
qed


text \<open>A disk with a table in sector 1 and a file of 600 bytes in the clusters 2 and 3.\<close>

definition demo_sector :: "u64 \<Rightarrow> (nat \<Rightarrow> u16) option" where
  "demo_sector l =
     (if l = 1 then Some (\<lambda>j. if j = 4 then 3 else if j = 6 then 0xFFFF else if j = 7 then 0x0FFF else 0)
      else if l = 2 then Some (\<lambda>j. 0x0101) else if l = 3 then Some (\<lambda>j. 0x0202) else None)"

definition demo_fat_fs :: fat32_fs where
  "demo_fat_fs = \<lparr>fat_part = 0, fat_lba = 1, data_lba = 2, root_cluster = 2, sectors_per_cluster = 1, bytes_per_cluster = 512\<rparr>"

definition demo_fat :: fat32 where
  "demo_fat = \<lparr>nodes = [5 \<mapsto> zero_node\<lparr>nflags := FS_FILE, nimpl := Some 6\<rparr>], vfs_root = None, privs = (\<lambda>_. None),
     rheap = demo_heap,
     drives = [7 \<mapsto> \<lparr>drive_type = DISK_TYPE_ATA, present = True, is_master = True, is_lba48 = True, io_base = 0x1F0,
       total_sectors = 4, drive_name = ''hda''\<rparr>],
     ata_sector = (\<lambda>_. demo_sector), ahci_bounce = (\<lambda>_ _ _. None),
     partitions = [\<lparr>part_drive = 7, partition_index = 0, os_type = 0x0B, lba_start = 0, size_sectors = 4\<rparr>],
     fat_fss = [8 \<mapsto> demo_fat_fs],
     fat_datas = [6 \<mapsto> \<lparr>fat_node_fs = 8, first_cluster = 2, file_size = 600\<rparr>]\<rparr>"

lemma demo_fat_disk: "fat_disk demo_fat_fs l 1 demo_fat =
    Some (map_option ata_sector_bytes (demo_sector (ucast l AND 0xFFFFFFFFFFFF)))"
  by (simp add: fat_disk_def demo_fat_def demo_fat_fs_def disk_read_sectors_def ata_read_sectors_def ata_lba_def
      split: Option.bind_split)

lemma demo_bytes:
  "ata_sector_bytes (\<lambda>j. 0x0101) = replicate 512 1" "ata_sector_bytes (\<lambda>j. 0x0202) = replicate 512 2"
  "le32 (ata_sector_bytes (\<lambda>j. if j = 4 then 3 else if j = 6 then 0xFFFF else if j = 7 then 0x0FFF else 0)) 8 = Some 3"
  "le32 (ata_sector_bytes (\<lambda>j. if j = 4 then 3 else if j = 6 then 0xFFFF else if j = 7 then 0x0FFF else 0)) 12 = Some 0x0FFFFFFF"
  by code_simp+

lemma demo_next:
  "fat32_get_next_cluster demo_fat_fs 2 demo_fat = Some 3" "fat32_get_next_cluster demo_fat_fs 3 demo_fat = Some 0x0FFFFFFF"
proof -
  have "demo_sector 1 = Some (\<lambda>j. if j = 4 then 3 else if j = 6 then 0xFFFF else if j = 7 then 0x0FFF else 0)"
    by (simp add: demo_sector_def)
  moreover have "fat_lba demo_fat_fs = 1" by (simp add: demo_fat_fs_def)
  ultimately show "fat32_get_next_cluster demo_fat_fs 2 demo_fat = Some 3"
    "fat32_get_next_cluster demo_fat_fs 3 demo_fat = Some 0x0FFFFFFF"
    by (simp_all add: fat32_get_next_cluster_def demo_fat_disk demo_bytes read_into_def ata_sector_bytes_length)
qed

lemma demo_fat_file:
  "fat_file demo_fat 5 demo_fat_fs (replicate 512 1 @ replicate 88 2)"
proof -
  have c: "fat_chain demo_fat_fs demo_fat 2 [(2, replicate 512 1), (3, replicate 512 2)]"
  proof -
    have "data_lba demo_fat_fs = 2" "sectors_per_cluster demo_fat_fs = 1" by (simp_all add: demo_fat_fs_def)
    moreover have "demo_sector 2 = Some (\<lambda>j. 0x0101)" "demo_sector 3 = Some (\<lambda>j. 0x0202)" by (simp_all add: demo_sector_def)
    ultimately show ?thesis by (simp add: demo_fat_disk demo_bytes demo_next FAT_EOC_def)
  qed
  have "replicate 512 1 @ replicate 88 2 =
      take (unat (600 :: u32)) (concat (map snd [(2 :: u32, replicate 512 (1 :: u8)), (3, replicate 512 2)]))"
    by simp
  moreover have "fat_geometry_ok demo_fat_fs" by (simp add: fat_geometry_ok_def demo_fat_fs_def)
  ultimately show ?thesis unfolding fat_file_def using c
    by (intro exI[of _ "zero_node\<lparr>nflags := FS_FILE, nimpl := Some 6\<rparr>"] exI[of _ 6]
        exI[of _ "\<lparr>fat_node_fs = 8, first_cluster = 2, file_size = 600\<rparr>"]
        exI[of _ "[(2, replicate 512 1), (3, replicate 512 2)]"]) (simp add: demo_fat_def)
qed


end
