(* ===== verification/Ext4.thy ===== *)
theory Ext4
  imports Fat32
begin

text \<open>
  The read-only ext4 driver of \<open>kernel/src/fs/ext4.c\<close>: inodes, the extent tree, file reads, directory lookup
  and the mount. Structures on disk are byte lists read field by field; a field beyond the buffer is a
  fault. The records keep the fields that the driver uses.
\<close>

section \<open>State\<close>

definition EXT4_MAGIC :: u16 where "EXT4_MAGIC = 0xEF53"
definition EXT4_EXT_MAGIC :: u16 where "EXT4_EXT_MAGIC = 0xF30A"

record ext4_info =
  e4_part :: nat
  e4_rev_level :: u32
  e4_feature_incompat :: u32
  e4_block_size :: u32
  e4_inodes_per_group :: u32
  e4_blocks_per_group :: u32
  e4_inode_size :: u16

record ext4_inode =
  i_mode :: u16
  i_size_lo :: u32
  i_flags :: u32
  i_block :: "u8 list"

record ext4_node_info =
  e4_fs :: u64
  e4_inode_num :: u32
  e4_inode :: ext4_inode

record ext4 = fat32 +
  e4_infos :: "u64 \<Rightarrow> ext4_info option"
  e4_nodes :: "u64 \<Rightarrow> ext4_node_info option"

definition SIZEOF_EXT4_INFO :: u64 where "SIZEOF_EXT4_INFO = 1056"
definition SIZEOF_EXT4_NODE :: u64 where "SIZEOF_EXT4_NODE = 128"
definition SIZEOF_VFS_OPS :: u64 where "SIZEOF_VFS_OPS = 64"

text \<open>
  The driver allocates a table of operations for every node. All of them have the contents \<open>ext4_ops\<close> below
  and nothing writes to them later, so that the nodes name them by one address.
\<close>

definition EXT4_OPS :: u64 where "EXT4_OPS = 3"

section \<open>Blocks and inodes\<close>

text \<open>A block read into a buffer of one block, which may be NULL.\<close>

definition ext4_read_block :: "ext4_info \<Rightarrow> u64 \<Rightarrow> bool \<Rightarrow> 'a ext4_scheme \<Rightarrow> u8 list option option" where
  "ext4_read_block fs block_num valid_buf s = do {
     part \<leftarrow> rd (partitions s) (e4_part fs);
     let lba = lba_start part + block_num * ucast (e4_block_size fs div 512);
     let sector_count = e4_block_size fs div 512;
     r \<leftarrow> disk_read_sectors (part_drive part) lba (ucast sector_count) s;
     read_into valid_buf (unat (e4_block_size fs)) r }"

definition parse_inode :: "u8 list \<Rightarrow> nat \<Rightarrow> ext4_inode option" where
  "parse_inode b off = (if off + 116 \<le> length b then do {
     m \<leftarrow> le16 b off;
     sz \<leftarrow> le32 b (off + 4);
     fl \<leftarrow> le32 b (off + 32);
     Some \<lparr>i_mode = m, i_size_lo = sz, i_flags = fl, i_block = take 60 (drop (off + 40) b)\<rparr> } else None)"

text \<open>\<open>Some (None, _)\<close> is the result 0 of \<open>ext4_read_inode\<close>.\<close>

definition ext4_read_inode :: "ext4_info \<Rightarrow> u32 \<Rightarrow> 'a ext4_scheme \<Rightarrow> (ext4_inode option \<times> 'a ext4_scheme) option" where
  "ext4_read_inode fs inode_num s =
     (if inode_num = 0 then Some (None, s)
      else if e4_inodes_per_group fs = 0 then None
      else do {
        let grp = (inode_num - 1) div e4_inodes_per_group fs;
        let index = (inode_num - 1) mod e4_inodes_per_group fs;
        let desc_size = (if 0 < e4_rev_level fs \<and> e4_feature_incompat fs AND 0x80 \<noteq> 0 then 64 else 32);
        let descriptors_per_block = e4_block_size fs div desc_size;
        if descriptors_per_block = 0 then None
        else do {
          let bgd_block_offset = grp div descriptors_per_block;
          let bgd_index_in_block = grp mod descriptors_per_block;
          (bp, h1) \<leftarrow> kmalloc (ucast (e4_block_size fs)) (rheap s);
          (case bp of
             None \<Rightarrow> Some (None, s\<lparr>rheap := h1\<rparr>)
           | Some p \<Rightarrow> do {
               let bgd_start_block = (if e4_block_size fs = 1024 then 2 else 1);
               r1 \<leftarrow> ext4_read_block fs (bgd_start_block + ucast bgd_block_offset) True s;
               (case r1 of
                  None \<Rightarrow> do { h2 \<leftarrow> kfree bp h1; Some (None, s\<lparr>rheap := h2\<rparr>) }
                | Some b1 \<Rightarrow> do {
                    inode_table_block \<leftarrow> le32 b1 (unat (bgd_index_in_block * desc_size) + 8);
                    let block_index = (index * ucast (e4_inode_size fs)) div e4_block_size fs;
                    let offset_in_block = (index * ucast (e4_inode_size fs)) mod e4_block_size fs;
                    r2 \<leftarrow> ext4_read_block fs (ucast (inode_table_block + block_index)) True s;
                    (case r2 of
                       None \<Rightarrow> do { h2 \<leftarrow> kfree bp h1; Some (None, s\<lparr>rheap := h2\<rparr>) }
                     | Some b2 \<Rightarrow> do {
                         i \<leftarrow> parse_inode b2 (unat offset_in_block);
                         h2 \<leftarrow> kfree bp h1;
                         Some (Some i, s\<lparr>rheap := h2\<rparr>) }) }) }) } })"

section \<open>Extents\<close>

text \<open>The loop over the entries of an inner node: the last entry that starts at or before the block.\<close>

primrec ext4_index :: "u8 list \<Rightarrow> u32 \<Rightarrow> nat \<Rightarrow> nat \<Rightarrow> u64 \<Rightarrow> u64 option" where
  "ext4_index eh l_block i 0 target_phy = Some target_phy"
| "ext4_index eh l_block i (Suc n) target_phy = do {
     blk \<leftarrow> le32 eh (12 + 12 * i);
     if blk \<le> l_block then do {
       leaf_lo \<leftarrow> le32 eh (12 + 12 * i + 4);
       leaf_hi \<leftarrow> le16 eh (12 + 12 * i + 8);
       ext4_index eh l_block (Suc i) n (push_bit 32 (ucast leaf_hi) OR ucast leaf_lo) }
     else ext4_index eh l_block (Suc i) n target_phy }"

text \<open>The loop over the extents of a leaf.\<close>

primrec ext4_leaf :: "u8 list \<Rightarrow> u32 \<Rightarrow> nat \<Rightarrow> nat \<Rightarrow> u64 option" where
  "ext4_leaf eh l_block i 0 = Some 0"
| "ext4_leaf eh l_block i (Suc n) = do {
     blk \<leftarrow> le32 eh (12 + 12 * i);
     inside \<leftarrow> (if blk \<le> l_block then do { ln \<leftarrow> le16 eh (12 + 12 * i + 4); Some (l_block < blk + ucast ln) }
               else Some False);
     if inside then do {
       start_hi \<leftarrow> le16 eh (12 + 12 * i + 6);
       start_lo \<leftarrow> le32 eh (12 + 12 * i + 8);
       Some ((push_bit 32 (ucast start_hi) OR ucast start_lo) + ucast (l_block - blk)) }
     else ext4_leaf eh l_block (Suc i) n }"

text \<open>The descent to a leaf, whose bytes it returns; \<open>Some None\<close> where the code jumps to \<open>out\<close>.\<close>

partial_function (option) ext4_descend ::
    "ext4_info \<Rightarrow> bool \<Rightarrow> u32 \<Rightarrow> u8 list \<Rightarrow> 'a ext4_scheme \<Rightarrow> u8 list option option" where
  "ext4_descend fs valid_buf l_block eh s = do {
     depth \<leftarrow> le16 eh 6;
     if depth = 0 then Some (Some eh)
     else do {
       entries \<leftarrow> le16 eh 2;
       target_phy \<leftarrow> ext4_index eh l_block 0 (unat entries) 0;
       if target_phy = 0 then Some None
       else do {
         r \<leftarrow> ext4_read_block fs target_phy valid_buf s;
         (case r of
            None \<Rightarrow> Some None
          | Some b \<Rightarrow> do {
              m \<leftarrow> le16 b 0;
              if m \<noteq> EXT4_EXT_MAGIC then Some None else ext4_descend fs valid_buf l_block b s }) } } }"

declare ext4_descend.simps [code]

definition ext4_get_physical_block ::
    "ext4_info \<Rightarrow> ext4_inode \<Rightarrow> u32 \<Rightarrow> 'a ext4_scheme \<Rightarrow> (u64 \<times> 'a ext4_scheme) option" where
  "ext4_get_physical_block fs inode l_block s =
     (if i_flags inode AND 0x80000 = 0 then
        (if l_block < 12 then do { b \<leftarrow> le32 (i_block inode) (4 * unat l_block); Some (ucast b, s) } else Some (0, s))
      else do {
        m \<leftarrow> le16 (i_block inode) 0;
        if m \<noteq> EXT4_EXT_MAGIC then Some (0, s)
        else do {
          (extent_buffer, h1) \<leftarrow> kmalloc (ucast (e4_block_size fs)) (rheap s);
          lf \<leftarrow> ext4_descend fs (extent_buffer \<noteq> None) l_block (i_block inode) s;
          result_phy \<leftarrow> (case lf of
             None \<Rightarrow> Some 0
           | Some eh \<Rightarrow> do { entries \<leftarrow> le16 eh 2; ext4_leaf eh l_block 0 (unat entries) });
          h2 \<leftarrow> kfree extent_buffer h1;
          Some (result_phy, s\<lparr>rheap := h2\<rparr>) } })"

section \<open>Files and directories\<close>

partial_function (option) ext4_copy ::
    "ext4_info \<Rightarrow> ext4_inode \<Rightarrow> u64 \<Rightarrow> u64 \<Rightarrow> u64 \<Rightarrow> u8 list \<Rightarrow> 'a ext4_scheme \<Rightarrow> (u64 \<times> u8 list \<times> 'a ext4_scheme) option" where
  "ext4_copy fs inode offset size1 bytes_read out s =
     (if bytes_read < size1 then
        if e4_block_size fs = 0 then None
        else (let l_block = (ucast ((offset + bytes_read) div ucast (e4_block_size fs)) :: u32);
                  block_offset = (ucast ((offset + bytes_read) mod ucast (e4_block_size fs)) :: u32)
         in Option.bind (ext4_get_physical_block fs inode l_block s) (\<lambda>(p_block, s1).
            Option.bind (if p_block = 0 then Some (Some (replicate (unat (e4_block_size fs)) 0))
                         else ext4_read_block fs p_block True s1) (\<lambda>r. case r of
                None \<Rightarrow> Some (bytes_read, out, s1)
              | Some block_buf \<Rightarrow>
                  (let room1 = e4_block_size fs - block_offset;
                       to_copy = (if size1 - bytes_read < ucast room1 then ucast (size1 - bytes_read) else room1)
                   in Option.bind (blk_read (ucast block_offset) (unat to_copy) block_buf) (\<lambda>chunk.
                      ext4_copy fs inode offset size1 (bytes_read + ucast to_copy) (out @ chunk) s1)))))
      else Some (bytes_read, out, s))"

declare ext4_copy.simps [code]

definition ext4_read :: "u64 \<Rightarrow> u64 \<Rightarrow> u64 \<Rightarrow> 'a ext4_scheme \<Rightarrow> (u64 \<times> u8 list \<times> 'a ext4_scheme) option" where
  "ext4_read node offset size0 s = do {
     n \<leftarrow> nodes s node;
     q \<leftarrow> ndevice n;
     ninfo \<leftarrow> e4_nodes s q;
     fs \<leftarrow> e4_infos s (e4_fs ninfo);
     let flen = ucast (i_size_lo (e4_inode ninfo));
     if flen \<le> offset then Some (0, [], s)
     else do {
       let size1 = (if flen < offset + size0 then flen - offset else size0);
       (bp, h1) \<leftarrow> kmalloc (ucast (e4_block_size fs)) (rheap s);
       (case bp of
          None \<Rightarrow> Some (0, [], s\<lparr>rheap := h1\<rparr>)
        | Some p \<Rightarrow> do {
            (n1, out, s1) \<leftarrow> ext4_copy fs (e4_inode ninfo) offset size1 0 [] (s\<lparr>rheap := h1\<rparr>);
            h2 \<leftarrow> kfree bp (rheap s1);
            Some (n1, out, s1\<lparr>rheap := h2\<rparr>) }) } }"

text \<open>\<open>strncmp\<close> of the name in an entry with a name of the same length: it stops at the first difference.\<close>

primrec name_at :: "u8 list \<Rightarrow> nat \<Rightarrow> string \<Rightarrow> bool option" where
  "name_at b i [] = Some True"
| "name_at b i (c # cs) = do { x \<leftarrow> rd b i; if char_of (unat x) = c then name_at b (Suc i) cs else Some False }"

text \<open>
  The entries of one directory block from an offset on: the inode number of the entry with the name. The
  sum of offset and record length is 32 bits wide.
\<close>

partial_function (option) ext4_scan :: "u8 list \<Rightarrow> u32 \<Rightarrow> string \<Rightarrow> u32 \<Rightarrow> u32 option option" where
  "ext4_scan b block_size name offset =
     (if offset < block_size then do {
        ino \<leftarrow> le32 b (unat offset);
        rec_len \<leftarrow> (if ino = 0 then Some 0 else le16 b (unat offset + 4));
        if rec_len = 0 then Some None
        else do {
          name_len \<leftarrow> rd b (unat offset + 6);
          same \<leftarrow> (if length name = unat name_len then name_at b (unat offset + 8) name else Some False);
          if same then Some (Some ino) else ext4_scan b block_size name (offset + ucast rec_len) } }
      else Some None)"

declare ext4_scan.simps [code]

text \<open>The node for an entry. When the inode cannot be read, its fields are used uninitialised.\<close>

definition ext4_child :: "u64 \<Rightarrow> ext4_info \<Rightarrow> string \<Rightarrow> u32 \<Rightarrow> 'a ext4_scheme \<Rightarrow> (u64 \<times> 'a ext4_scheme) option" where
  "ext4_child fsp fs name ino s = do {
     (np, h1) \<leftarrow> kmalloc SIZEOF_VFS_NODE (rheap s);
     child \<leftarrow> np;
     (cp, h2) \<leftarrow> kmalloc SIZEOF_EXT4_NODE h1;
     cinfo \<leftarrow> cp;
     (ri, s1) \<leftarrow> ext4_read_inode fs ino (s\<lparr>rheap := h2\<rparr>);
     (op, h3) \<leftarrow> kmalloc SIZEOF_VFS_OPS (rheap s1);
     ops \<leftarrow> op;
     i \<leftarrow> ri;
     Some (child, s1\<lparr>rheap := h3,
       nodes := (nodes s1)(child \<mapsto> zero_node\<lparr>nname := take 127 name, ndevice := Some cinfo, nops := Some EXT4_OPS,
         nflags := (if i_mode i AND 0xF000 = 0x4000 then FS_DIRECTORY else FS_FILE), nlength := ucast (i_size_lo i)\<rparr>),
       e4_nodes := (e4_nodes s1)(cinfo \<mapsto> \<lparr>e4_fs = fsp, e4_inode_num = ino, e4_inode = i\<rparr>)\<rparr>) }"

text \<open>The loop over \<open>n\<close> blocks of a directory from block \<open>i\<close> on.\<close>

primrec ext4_find_block :: "ext4_info \<Rightarrow> ext4_inode \<Rightarrow> string \<Rightarrow> nat \<Rightarrow> nat \<Rightarrow> 'a ext4_scheme \<Rightarrow> (u32 option \<times> 'a ext4_scheme) option" where
  "ext4_find_block fs inode name i 0 s = Some (None, s)"
| "ext4_find_block fs inode name i (Suc n) s = do {
     (p_block, s1) \<leftarrow> ext4_get_physical_block fs inode (of_nat i) s;
     if p_block = 0 then Some (None, s1)
     else do {
       r \<leftarrow> ext4_read_block fs p_block True s1;
       (case r of
          None \<Rightarrow> Some (None, s1)
        | Some dir_buf \<Rightarrow> do {
            f \<leftarrow> ext4_scan dir_buf (e4_block_size fs) name 0;
            (case f of Some ino \<Rightarrow> Some (Some ino, s1) | None \<Rightarrow> ext4_find_block fs inode name (Suc i) n s1) }) } }"

definition ext4_finddir :: "u64 \<Rightarrow> string \<Rightarrow> 'a ext4_scheme \<Rightarrow> (u64 option \<times> 'a ext4_scheme) option" where
  "ext4_finddir node name s = do {
     n \<leftarrow> nodes s node;
     q \<leftarrow> ndevice n;
     ninfo \<leftarrow> e4_nodes s q;
     fs \<leftarrow> e4_infos s (e4_fs ninfo);
     let inode = e4_inode ninfo;
     if i_mode inode AND 0xF000 \<noteq> 0x4000 then Some (None, s)
     else do {
       (bp, h1) \<leftarrow> kmalloc (ucast (e4_block_size fs)) (rheap s);
       (case bp of
          None \<Rightarrow> Some (None, s\<lparr>rheap := h1\<rparr>)
        | Some p \<Rightarrow>
            if e4_block_size fs = 0 then None
            else do {
              let dir_blocks0 = i_size_lo inode div e4_block_size fs;
              let dir_blocks = (if dir_blocks0 = 0 \<and> 0 < i_size_lo inode then 1 else dir_blocks0);
              (f, s1) \<leftarrow> ext4_find_block fs inode name 0 (unat dir_blocks) (s\<lparr>rheap := h1\<rparr>);
              (child, s2) \<leftarrow> (case f of
                 None \<Rightarrow> Some (None, s1)
               | Some ino \<Rightarrow> map_option (\<lambda>(c, t). (Some c, t)) (ext4_child (e4_fs ninfo) fs name ino s1));
              h2 \<leftarrow> kfree bp (rheap s2);
              Some (child, s2\<lparr>rheap := h2\<rparr>) }) } }"

definition ext4_ops :: "'a ext4_scheme vfs_ops" where
  "ext4_ops = \<lparr>ops_read = Some ext4_read, ops_write = None, ops_open = None, ops_close = None,
     ops_readdir = None, ops_finddir = Some ext4_finddir, ops_mkdir = None, ops_create = None\<rparr>"

section \<open>Mount\<close>

text \<open>The description of the file system that the superblock gives; the shift of a signed 1024 must not overflow.\<close>

definition ext4_describe :: "nat \<Rightarrow> u8 list \<Rightarrow> ext4_info option" where
  "ext4_describe pi sb = do {
     log_block_size \<leftarrow> le32 sb 24;
     bpg \<leftarrow> le32 sb 32;
     ipg \<leftarrow> le32 sb 40;
     rev_level \<leftarrow> le32 sb 76;
     isize \<leftarrow> le16 sb 88;
     incompat \<leftarrow> le32 sb 96;
     if 21 \<le> log_block_size then None
     else Some \<lparr>e4_part = pi, e4_rev_level = rev_level, e4_feature_incompat = incompat,
       e4_block_size = push_bit (unat log_block_size) 1024, e4_inodes_per_group = ipg, e4_blocks_per_group = bpg,
       e4_inode_size = (if rev_level = 0 then 128 else isize)\<rparr> }"

definition ext4_mount :: "nat \<Rightarrow> 'a ext4_scheme \<Rightarrow> (u64 option \<times> 'a ext4_scheme) option" where
  "ext4_mount pi s = do {
     part \<leftarrow> rd (partitions s) pi;
     r0 \<leftarrow> disk_read_sectors (part_drive part) (lba_start part + 2) 2 s;
     r \<leftarrow> read_into True 2048 r0;
     (case r of
        None \<Rightarrow> Some (None, s)
      | Some sb \<Rightarrow> do {
          m \<leftarrow> le16 sb 56;
          if m \<noteq> EXT4_MAGIC then Some (None, s)
          else do {
            (fp, h1) \<leftarrow> kmalloc SIZEOF_EXT4_INFO (rheap s);
            (case fp of
               None \<Rightarrow> Some (None, s\<lparr>rheap := h1\<rparr>)
             | Some fsp \<Rightarrow> do {
                 fs \<leftarrow> ext4_describe pi sb;
                 (rp, h2) \<leftarrow> kmalloc SIZEOF_VFS_NODE h1;
                 root \<leftarrow> rp;
                 (op, h3) \<leftarrow> kmalloc SIZEOF_VFS_OPS h2;
                 ops \<leftarrow> op;
                 (ip, h4) \<leftarrow> kmalloc SIZEOF_EXT4_NODE h3;
                 ninfo \<leftarrow> ip;
                 (ri, s1) \<leftarrow> ext4_read_inode fs 2 (s\<lparr>rheap := h4\<rparr>);
                 (case ri of
                    None \<Rightarrow> do {
                      h5 \<leftarrow> kfree (Some fsp) (rheap s1);
                      h6 \<leftarrow> kfree (Some root) h5;
                      h7 \<leftarrow> kfree (Some ninfo) h6;
                      Some (None, s1\<lparr>rheap := h7\<rparr>) }
                  | Some i \<Rightarrow>
                      Some (Some root, s1\<lparr>
                        nodes := (nodes s1)(root \<mapsto> zero_node\<lparr>nname := ''ext4_root'', nflags := FS_DIRECTORY,
                          nops := Some EXT4_OPS, ndevice := Some ninfo, nlength := ucast (i_size_lo i)\<rparr>),
                        e4_infos := (e4_infos s1)(fsp \<mapsto> fs),
                        e4_nodes := (e4_nodes s1)(ninfo \<mapsto> \<lparr>e4_fs = fsp, e4_inode_num = 2, e4_inode = i\<rparr>)\<rparr>)) }) } }) }"

section \<open>The extent tree as a set of extents\<close>

text \<open>
  An extent is its first logical block, its length and its first physical block. \<open>extent_value E l v\<close>: the
  logical block \<open>l\<close> has the physical block \<open>v\<close>, which is 0 when no extent of \<open>E\<close> covers \<open>l\<close>.
\<close>

type_synonym extent = "u32 \<times> u16 \<times> u64"

fun covers :: "extent \<Rightarrow> u32 \<Rightarrow> bool" where
  "covers (b, n, p) l \<longleftrightarrow> unat b \<le> unat l \<and> unat l < unat b + unat n"

fun block_in :: "extent \<Rightarrow> u32 \<Rightarrow> u64" where
  "block_in (b, n, p) l = p + ucast (l - b)"

definition extent_value :: "extent set \<Rightarrow> u32 \<Rightarrow> u64 \<Rightarrow> bool" where
  "extent_value E l v \<longleftrightarrow> (\<forall>e \<in> E. covers e l \<longrightarrow> v = block_in e l) \<and> ((\<forall>e \<in> E. \<not> covers e l) \<longrightarrow> v = 0)"

text \<open>The entries that a node holds.\<close>

definition extent_at :: "u8 list \<Rightarrow> nat \<Rightarrow> extent option" where
  "extent_at eh i = do {
     b \<leftarrow> le32 eh (12 + 12 * i);
     n \<leftarrow> le16 eh (12 + 12 * i + 4);
     hi \<leftarrow> le16 eh (12 + 12 * i + 6);
     lo \<leftarrow> le32 eh (12 + 12 * i + 8);
     Some (b, n, push_bit 32 (ucast hi) OR ucast lo) }"

definition index_at :: "u8 list \<Rightarrow> nat \<Rightarrow> (u32 \<times> u64) option" where
  "index_at eh i = do {
     b \<leftarrow> le32 eh (12 + 12 * i);
     lo \<leftarrow> le32 eh (12 + 12 * i + 4);
     hi \<leftarrow> le16 eh (12 + 12 * i + 8);
     Some (b, push_bit 32 (ucast hi) OR ucast lo) }"

definition entries_are :: "(u8 list \<Rightarrow> nat \<Rightarrow> 'e option) \<Rightarrow> u8 list \<Rightarrow> 'e list \<Rightarrow> bool" where
  "entries_are at1 eh es \<longleftrightarrow> (\<exists>n. le16 eh 2 = Some n \<and> unat n = length es) \<and> (\<forall>i < length es. at1 eh i = Some (es ! i))"

primrec sorted_extents :: "nat \<Rightarrow> nat \<Rightarrow> extent list \<Rightarrow> bool" where
  "sorted_extents lo hi [] \<longleftrightarrow> lo \<le> hi"
| "sorted_extents lo hi (e # es) \<longleftrightarrow>
     lo \<le> unat (fst e) \<and> sorted_extents (unat (fst e) + unat (fst (snd e))) hi es"

text \<open>Where the range of child \<open>i\<close> ends: at the key of the next child.\<close>

definition key_from :: "(u32 \<times> u64) list \<Rightarrow> nat \<Rightarrow> nat \<Rightarrow> nat" where
  "key_from ixs hi i = (if i < length ixs then unat (fst (ixs ! i)) else hi)"

text \<open>
  \<open>extent_tree fs s lo hi eh E\<close>: the node \<open>eh\<close> is the root of a finite tree on disk whose leaves hold the
  extents \<open>E\<close>, sorted and without overlap in the logical blocks from \<open>lo\<close> to \<open>hi\<close>, and whose keys
  separate the children.
\<close>

inductive extent_tree :: "ext4_info \<Rightarrow> 'a ext4_scheme \<Rightarrow> nat \<Rightarrow> nat \<Rightarrow> u8 list \<Rightarrow> extent set \<Rightarrow> bool" for fs s where
  leaf: "le16 eh 6 = Some 0 \<Longrightarrow> entries_are extent_at eh es \<Longrightarrow> sorted_extents lo hi es \<Longrightarrow> hi < 2 ^ 32 \<Longrightarrow>
    extent_tree fs s lo hi eh (set es)"
| inner: "le16 eh 6 = Some d \<Longrightarrow> d \<noteq> 0 \<Longrightarrow> entries_are index_at eh ixs \<Longrightarrow>
    (\<And>i j. i < j \<Longrightarrow> j \<le> length ixs \<Longrightarrow> key_from ixs hi i \<le> key_from ixs hi j) \<Longrightarrow> lo \<le> key_from ixs hi 0 \<Longrightarrow>
    (\<And>i. i < length ixs \<Longrightarrow> snd (ixs ! i) \<noteq> 0 \<and> ext4_read_block fs (snd (ixs ! i)) True s = Some (Some (bs i)) \<and>
       le16 (bs i) 0 = Some EXT4_EXT_MAGIC \<and>
       extent_tree fs s (key_from ixs hi i) (key_from ixs hi (Suc i)) (bs i) (Es i)) \<Longrightarrow>
    extent_tree fs s lo hi eh (\<Union>i < length ixs. Es i)"

lemma sorted_extents_within:
  "sorted_extents lo hi es \<Longrightarrow> e \<in> set es \<Longrightarrow> lo \<le> unat (fst e) \<and> unat (fst e) + unat (fst (snd e)) \<le> hi"
proof (induction es arbitrary: lo)
  case Nil
  then show ?case by simp
next
  case (Cons x es)
  have le: "sorted_extents a hi xs \<Longrightarrow> a \<le> hi" for a xs by (induction xs arbitrary: a) (auto, fastforce)
  show ?case
  proof (cases "e = x")
    case True
    then show ?thesis using Cons.prems(1) le by auto
  next
    case False
    then show ?thesis using Cons.IH[of "unat (fst x) + unat (fst (snd x))"] Cons.prems by auto
  qed
qed

lemma extent_tree_within:
  "extent_tree fs s lo hi eh E \<Longrightarrow> e \<in> E \<Longrightarrow> lo \<le> unat (fst e) \<and> unat (fst e) + unat (fst (snd e)) \<le> hi"
proof (induction arbitrary: e rule: extent_tree.induct)
  case (leaf eh es lo hi)
  then show ?case using sorted_extents_within by blast
next
  case (inner eh d ixs hi lo bs Es)
  then obtain i where i: "i < length ixs" "e \<in> Es i" by auto
  have c: "key_from ixs hi i \<le> unat (fst e)" "unat (fst e) + unat (fst (snd e)) \<le> key_from ixs hi (Suc i)"
    using inner.IH[OF i(1)] i(2) by blast+
  have "key_from ixs hi 0 \<le> key_from ixs hi i" using inner.hyps(4)[of 0 i] i(1) by (cases i) auto
  moreover have "key_from ixs hi (Suc i) \<le> key_from ixs hi (length ixs)"
    using inner.hyps(4)[of "Suc i" "length ixs"] i(1) by (cases "Suc i = length ixs") auto
  moreover have "key_from ixs hi (length ixs) = hi" by (simp add: key_from_def)
  ultimately show ?case using c inner.hyps(5) by linarith
qed

lemma covers_no_wrap:
  assumes "unat b + unat n < 2 ^ 32"
  shows "b \<le> l \<and> l < b + ucast (n :: u16) \<longleftrightarrow> covers (b, n, p) l"
proof -
  have "unat (ucast n :: u32) = unat n"
    by (simp add: unsigned_ucast_eq take_bit_nat_eq_self order_less_le_trans[OF unsigned_less])
  then have "unat (b + ucast n) = unat b + unat n" using assms by (subst unat_add_lem[THEN iffD1]) auto
  then show ?thesis by (simp add: word_le_nat_alt word_less_nat_alt)
qed

lemma extent_at_fields:
  assumes "extent_at eh i = Some (b, n, p)"
  obtains lo hi where "le32 eh (12 + 12 * i) = Some b" "le16 eh (12 + 12 * i + 4) = Some n"
    "le16 eh (12 + 12 * i + 6) = Some hi" "le32 eh (12 + 12 * i + 8) = Some lo" "p = push_bit 32 (ucast hi) OR ucast lo"
  using assms by (auto simp: extent_at_def bind_eq_Some_conv)

lemma index_at_fields:
  assumes "index_at eh i = Some (b, p)"
  obtains lo hi where "le32 eh (12 + 12 * i) = Some b" "le32 eh (12 + 12 * i + 4) = Some lo"
    "le16 eh (12 + 12 * i + 8) = Some hi" "p = push_bit 32 (ucast hi) OR ucast lo"
  using assms by (auto simp: index_at_def bind_eq_Some_conv)

text \<open>The leaf search finds the one extent that covers the block.\<close>

lemma leaf_search:
  assumes "\<And>j. i \<le> j \<Longrightarrow> j < i + length es \<Longrightarrow> extent_at eh j = Some (es ! (j - i))"
    and "sorted_extents lo hi es" "hi < 2 ^ 32"
  shows "\<exists>v. ext4_leaf eh l i (length es) = Some v \<and> extent_value (set es) l v"
  using assms
proof (induction es arbitrary: i lo)
  case Nil
  then show ?case by (simp add: extent_value_def)
next
  case (Cons e es)
  obtain b n p where e: "e = (b, n, p)" by (cases e) auto
  have "extent_at eh i = Some (b, n, p)" using Cons.prems(1)[of i] e by simp
  then obtain lo1 hi1 where f: "le32 eh (12 + 12 * i) = Some b" "le16 eh (12 + 12 * i + 4) = Some n"
    "le16 eh (12 + 12 * i + 6) = Some hi1" "le32 eh (12 + 12 * i + 8) = Some lo1" "p = push_bit 32 (ucast hi1) OR ucast lo1"
    by (rule extent_at_fields)
  have rest: "sorted_extents (unat b + unat n) hi es" using Cons.prems(2) e by simp
  have nw: "unat b + unat n < 2 ^ 32"
    using sorted_extents_within[OF Cons.prems(2), of e] e Cons.prems(3) by simp
  have step: "ext4_leaf eh l i (length (e # es)) =
      (if covers (b, n, p) l then Some (block_in (b, n, p) l) else ext4_leaf eh l (Suc i) (length es))"
    using covers_no_wrap[OF nw, of l p] f by (cases "b \<le> l") (auto simp del: covers.simps)
  show ?case
  proof (cases "covers (b, n, p) l")
    case True
    have "\<not> covers x l" if "x \<in> set es" for x
      using sorted_extents_within[OF rest that] True by (cases x) auto
    then have "extent_value (set (e # es)) l (block_in (b, n, p) l)"
      using True e by (auto simp: extent_value_def simp del: covers.simps block_in.simps)
    then show ?thesis using step True by simp
  next
    case False
    have "\<exists>v. ext4_leaf eh l (Suc i) (length es) = Some v \<and> extent_value (set es) l v"
    proof (rule Cons.IH[OF _ rest Cons.prems(3)])
      fix j assume "Suc i \<le> j" "j < Suc i + length es"
      then show "extent_at eh j = Some (es ! (j - Suc i))" using Cons.prems(1)[of j] by (simp add: nth_Cons')
    qed
    then show ?thesis using step False e by (auto simp: extent_value_def simp del: covers.simps block_in.simps)
  qed
qed

text \<open>The index search finds the last child whose key is at or before the block.\<close>

lemma index_search:
  assumes "\<And>j. j < length ixs \<Longrightarrow> index_at eh j = Some (ixs ! j)" "i + n = length ixs"
  shows "\<exists>v. ext4_index eh l i n t = Some v \<and>
     (v = t \<and> (\<forall>j. i \<le> j \<longrightarrow> j < length ixs \<longrightarrow> l < fst (ixs ! j)) \<or>
      (\<exists>j. i \<le> j \<and> j < length ixs \<and> fst (ixs ! j) \<le> l \<and> v = snd (ixs ! j) \<and>
         (\<forall>k. j < k \<longrightarrow> k < length ixs \<longrightarrow> l < fst (ixs ! k))))"
  using assms(2)
proof (induction n arbitrary: i t)
  case 0
  then show ?case by auto
next
  case (Suc n)
  then have i: "i < length ixs" "Suc i + n = length ixs" by auto
  obtain b p where bp: "ixs ! i = (b, p)" by (cases "ixs ! i") auto
  then have "index_at eh i = Some (b, p)" using assms(1)[OF i(1)] by simp
  then obtain lo hi where f: "le32 eh (12 + 12 * i) = Some b" "le32 eh (12 + 12 * i + 4) = Some lo"
    "le16 eh (12 + 12 * i + 8) = Some hi" "p = push_bit 32 (ucast hi) OR ucast lo" by (rule index_at_fields)
  have step: "ext4_index eh l i (Suc n) t = ext4_index eh l (Suc i) n (if b \<le> l then p else t)" using f by simp
  from Suc.IH[OF i(2), of "if b \<le> l then p else t"] obtain v where
    v: "ext4_index eh l (Suc i) n (if b \<le> l then p else t) = Some v"
    and c: "v = (if b \<le> l then p else t) \<and> (\<forall>j. Suc i \<le> j \<longrightarrow> j < length ixs \<longrightarrow> l < fst (ixs ! j)) \<or>
      (\<exists>j. Suc i \<le> j \<and> j < length ixs \<and> fst (ixs ! j) \<le> l \<and> v = snd (ixs ! j) \<and>
         (\<forall>k. j < k \<longrightarrow> k < length ixs \<longrightarrow> l < fst (ixs ! k)))" by blast
  from c show ?case
  proof (elim disjE conjE exE)
    assume a: "v = (if b \<le> l then p else t)" "\<forall>j. Suc i \<le> j \<longrightarrow> j < length ixs \<longrightarrow> l < fst (ixs ! j)"
    show ?thesis
    proof (cases "b \<le> l")
      case True
      then show ?thesis using v a bp i(1) step
        by (intro exI[of _ v] conjI disjI2 exI[of _ i]) (auto simp: Suc_le_eq)
    next
      case False
      have "l < fst (ixs ! j)" if "i \<le> j" "j < length ixs" for j
        using a(2) that False bp by (cases "j = i") auto
      then show ?thesis using v a(1) False step by (intro exI[of _ v] conjI disjI1) auto
    qed
  next
    fix j assume "Suc i \<le> j" "j < length ixs" "fst (ixs ! j) \<le> l" "v = snd (ixs ! j)"
      "\<forall>k. j < k \<longrightarrow> k < length ixs \<longrightarrow> l < fst (ixs ! k)"
    then show ?thesis using v step by (intro exI[of _ v] conjI disjI2 exI[of _ j]) auto
  qed
qed

text \<open>What the descent and the leaf search together return.\<close>

definition ext4_lookup :: "ext4_info \<Rightarrow> bool \<Rightarrow> u32 \<Rightarrow> u8 list \<Rightarrow> 'a ext4_scheme \<Rightarrow> u64 option" where
  "ext4_lookup fs valid_buf l eh s = do {
     lf \<leftarrow> ext4_descend fs valid_buf l eh s;
     (case lf of None \<Rightarrow> Some 0 | Some e \<Rightarrow> do { entries \<leftarrow> le16 e 2; ext4_leaf e l 0 (unat entries) }) }"

lemma extent_value_child:
  assumes "extent_value (Es j) l v" "j < m"
    and "\<And>i e. i < m \<Longrightarrow> i \<noteq> j \<Longrightarrow> e \<in> Es i \<Longrightarrow> \<not> covers e l"
  shows "extent_value (\<Union>i < m. Es i) l v"
  unfolding extent_value_def
proof (intro conjI ballI impI)
  fix e assume "e \<in> (\<Union>i < m. Es i)" "covers e l"
  then have "e \<in> Es j" using assms(3) by blast
  then show "v = block_in e l" using assms(1) \<open>covers e l\<close> by (simp add: extent_value_def)
next
  assume "\<forall>e \<in> (\<Union>i < m. Es i). \<not> covers e l"
  then show "v = 0" using assms(1,2) by (auto simp: extent_value_def)
qed

lemma lookup_tree:
  "extent_tree fs s lo hi eh E \<Longrightarrow> \<exists>v. ext4_lookup fs True l eh s = Some v \<and> extent_value E l v"
proof (induction rule: extent_tree.induct)
  case (leaf eh es lo hi)
  obtain n where n: "le16 eh 2 = Some n" "unat n = length es" using leaf.hyps(2) by (auto simp: entries_are_def)
  have "\<exists>v. ext4_leaf eh l 0 (length es) = Some v \<and> extent_value (set es) l v"
    by (rule leaf_search[OF _ leaf.hyps(3,4)]) (use leaf.hyps(2) in \<open>auto simp: entries_are_def\<close>)
  then show ?case using leaf.hyps(1) n by (simp add: ext4_lookup_def ext4_descend.simps[of fs True l eh s])
next
  case (inner eh d ixs hi lo bs Es)
  obtain n where n: "le16 eh 2 = Some n" "0 + unat n = length ixs" using inner.hyps(3) by (auto simp: entries_are_def)
  have at1: "index_at eh j = Some (ixs ! j)" if "j < length ixs" for j
    using inner.hyps(3) that by (simp add: entries_are_def)
  have inb: "key_from ixs hi i \<le> unat (fst e) \<and> unat (fst e) + unat (fst (snd e)) \<le> key_from ixs hi (Suc i)"
    if "i < length ixs" "e \<in> Es i" for i e
    using extent_tree_within[of fs s "key_from ixs hi i" "key_from ixs hi (Suc i)" "bs i" "Es i" e] inner.IH that by blast
  have after: "\<not> covers e l" if "i < length ixs" "e \<in> Es i" "l < fst (ixs ! i)" for i e
    using inb[OF that(1,2)] that(1,3) by (cases e) (auto simp: key_from_def word_less_nat_alt)
  obtain v where vc: "ext4_index eh l 0 (unat n) 0 = Some v \<and>
     (v = 0 \<and> (\<forall>j. 0 \<le> j \<longrightarrow> j < length ixs \<longrightarrow> l < fst (ixs ! j)) \<or>
      (\<exists>j. 0 \<le> j \<and> j < length ixs \<and> fst (ixs ! j) \<le> l \<and> v = snd (ixs ! j) \<and>
         (\<forall>k. j < k \<longrightarrow> k < length ixs \<longrightarrow> l < fst (ixs ! k))))"
    using index_search[OF at1 n(2), of l 0] ..
  note v = vc[THEN conjunct1]
  from vc[THEN conjunct2] show ?case
  proof (elim disjE conjE exE)
    assume a: "v = 0" "\<forall>j. 0 \<le> j \<longrightarrow> j < length ixs \<longrightarrow> l < fst (ixs ! j)"
    have "ext4_lookup fs True l eh s = Some 0"
      using inner.hyps(1,2) n(1) v a(1) by (simp add: ext4_lookup_def ext4_descend.simps[of fs True l eh s])
    moreover have "\<not> covers e l" if "e \<in> (\<Union>i < length ixs. Es i)" for e using that after a(2) by blast
    then have "extent_value (\<Union>i < length ixs. Es i) l 0" by (auto simp: extent_value_def)
    ultimately show ?thesis by blast
  next
    fix j assume j: "j < length ixs" "fst (ixs ! j) \<le> l" "v = snd (ixs ! j)" "\<forall>k. j < k \<longrightarrow> k < length ixs \<longrightarrow> l < fst (ixs ! k)"
    have ch: "snd (ixs ! j) \<noteq> 0" "ext4_read_block fs (snd (ixs ! j)) True s = Some (Some (bs j))"
      "le16 (bs j) 0 = Some EXT4_EXT_MAGIC" "\<exists>v. ext4_lookup fs True l (bs j) s = Some v \<and> extent_value (Es j) l v"
      using inner.IH[OF j(1)] by blast+
    then obtain w where w: "ext4_lookup fs True l (bs j) s = Some w" "extent_value (Es j) l w" by blast
    have "ext4_descend fs True l eh s = ext4_descend fs True l (bs j) s"
      using inner.hyps(1,2) n(1) v j(3) ch(1-3) by (subst ext4_descend.simps) simp
    then have "ext4_lookup fs True l eh s = Some w" using w(1) by (simp add: ext4_lookup_def)
    moreover have "\<not> covers e l" if "i < length ixs" "i \<noteq> j" "e \<in> Es i" for i e
    proof (cases "i < j")
      case True
      have "key_from ixs hi (Suc i) \<le> key_from ixs hi j"
        using inner.hyps(4)[of "Suc i" j] True j(1) by (cases "Suc i = j") auto
      then have "unat (fst e) + unat (fst (snd e)) \<le> unat l"
        using inb[OF that(1,3)] j(1,2) by (simp add: key_from_def word_le_nat_alt)
      then show ?thesis by (cases e) auto
    next
      case False
      then show ?thesis using after[OF that(1,3)] j(4) that(1,2) by auto
    qed
    ultimately show ?thesis using extent_value_child[of Es j l w "length ixs"] w(2) j(1) by blast
  qed
qed

lemma lookup_leaf_any_buffer:
  "le16 eh 6 = Some 0 \<Longrightarrow> ext4_lookup fs v l eh s = ext4_lookup fs w l eh s"
  by (simp add: ext4_lookup_def ext4_descend.simps[of fs v l eh s] ext4_descend.simps[of fs w l eh s])

text \<open>
  C33. The search for the physical block of a file always ends on an extent tree that is finite, sorted
  and separated by its keys, however deep it is. It returns the block that the one covering extent assigns,
  counted from the start of the extent, and 0 for a hole; it reads no entry outside a node, gives its buffer
  back and changes nothing else. A missing buffer is harmless for a tree that is a single leaf, which is the case of
  small files.
\<close>

theorem ext4_get_physical_block_correct:
  assumes "extent_tree fs s 0 (2 ^ 32 - 1) (i_block inode) E" "i_flags inode AND 0x80000 \<noteq> 0"
    and "le16 (i_block inode) 0 = Some EXT4_EXT_MAGIC" "e4_block_size fs \<noteq> 0"
    and "heap_live (rheap s) A" "region_room (rheap s) (unat (e4_block_size fs) + 20510)"
  shows "\<exists>r h. kmalloc (ucast (e4_block_size fs)) (rheap s) = Some (r, h) \<and>
    (r \<noteq> None \<or> le16 (i_block inode) 6 = Some 0 \<longrightarrow>
     (\<exists>v h'. ext4_get_physical_block fs inode l s = Some (v, s\<lparr>rheap := h'\<rparr>) \<and> extent_value E l v \<and> heap_live h' A))"
proof -
  have nz: "(ucast (e4_block_size fs) :: u64) \<noteq> 0"
    using assms(4) unat_ucast_32_64[of "e4_block_size fs"] by (metis unat_0 unat_eq_zero)
  have "region_room (rheap s) (unat (ucast (e4_block_size fs) :: u64) + 20510 + 0)"
    using assms(6) by (simp only: unat_ucast_32_64 add_0_right)
  from kheap_alloc.alloc_ok[OF assms(5) nz this] obtain r h where
    k: "kmalloc (ucast (e4_block_size fs)) (rheap s) = Some (r, h)" "region_room h 0"
      "case r of None \<Rightarrow> heap_live h A | Some b \<Rightarrow> b \<notin> A \<and> heap_live h (insert b A)" by blast
  obtain v where v: "ext4_lookup fs True l (i_block inode) s = Some v" "extent_value E l v"
    using lookup_tree[OF assms(1)] by blast
  have fr: "\<exists>h'. kfree r h = Some h' \<and> heap_live h' A"
  proof (cases r)
    case None
    then show ?thesis using k(3) by (simp add: kfree_def)
  next
    case (Some b)
    then have b: "b \<notin> A" "heap_live h (insert b A)" using k(3) by auto
    have "insert b A - {b} = A" using b(1) by simp
    then show ?thesis using kheap_alloc.release_ok[OF b(2) _ k(2), of b] Some by auto
  qed
  have "\<exists>v h'. ext4_get_physical_block fs inode l s = Some (v, s\<lparr>rheap := h'\<rparr>) \<and> extent_value E l v \<and> heap_live h' A"
    if "r \<noteq> None \<or> le16 (i_block inode) 6 = Some 0"
  proof -
    have lk: "ext4_lookup fs (r \<noteq> None) l (i_block inode) s = Some v"
      using that v(1) lookup_leaf_any_buffer[of "i_block inode" fs "r \<noteq> None" l s True] by (cases "r = None") auto
    obtain h' where h': "kfree r h = Some h'" "heap_live h' A" using fr by blast
    have "ext4_get_physical_block fs inode l s =
      Option.bind (ext4_lookup fs (r \<noteq> None) l (i_block inode) s) (\<lambda>v. Some (v, s\<lparr>rheap := h'\<rparr>))"
      using assms(2,3) k(1) h'(1)
      by (simp add: ext4_get_physical_block_def ext4_lookup_def bind_assoc)
    then show ?thesis using lk v(2) h'(2) by auto
  qed
  then show ?thesis using k(1) by blast
qed

text \<open>A tree of two levels: the root in the inode, and a leaf in block 5 that maps the logical blocks 7 to 9.\<close>

definition demo_e4_words :: "nat \<Rightarrow> u16" where
  "demo_e4_words j = (if j = 0 then 0xF30A else if j = 1 then 1 else if j = 6 then 7 else if j = 8 then 3 else if j = 10 then 100 else 0)"

definition demo_e4_fs :: ext4_info where
  "demo_e4_fs = \<lparr>e4_part = 0, e4_rev_level = 1, e4_feature_incompat = 0, e4_block_size = 1024, e4_inodes_per_group = 8,
     e4_blocks_per_group = 8, e4_inode_size = 128\<rparr>"

definition demo_e4_inode :: ext4_inode where
  "demo_e4_inode = \<lparr>i_mode = 0x8000, i_size_lo = 10240, i_flags = 0x80000,
     i_block = [0x0A, 0xF3, 1, 0, 4, 0, 1, 0, 0, 0, 0, 0, 0, 0, 0, 0, 5, 0, 0, 0, 0, 0, 0, 0] @ replicate 36 0\<rparr>"

definition demo_e4 :: ext4 where
  "demo_e4 = fat32.extend (demo_fat\<lparr>ata_sector := (\<lambda>_ l. if l = 10 then Some demo_e4_words else Some (\<lambda>_. 0))\<rparr>)
     (ext4.fields (\<lambda>_. None) (\<lambda>_. None))"

definition demo_e4_leaf :: "u8 list" where
  "demo_e4_leaf = ata_sector_bytes demo_e4_words @ ata_sector_bytes (\<lambda>_. 0)"

lemma demo_e4_fields:
  "le16 demo_e4_leaf 0 = Some EXT4_EXT_MAGIC" "le16 demo_e4_leaf 2 = Some 1" "le16 demo_e4_leaf 6 = Some 0"
  "extent_at demo_e4_leaf 0 = Some (7, 3, 100)"
  "le16 (i_block demo_e4_inode) 0 = Some EXT4_EXT_MAGIC" "le16 (i_block demo_e4_inode) 2 = Some 1"
  "le16 (i_block demo_e4_inode) 6 = Some 1" "index_at (i_block demo_e4_inode) 0 = Some (0, 5)"
  by code_simp+

lemma demo_e4_block: "ext4_read_block demo_e4_fs 5 True demo_e4 = Some (Some demo_e4_leaf)"
proof -
  let ?f = "\<lambda>l. if l = 10 then Some demo_e4_words else Some (\<lambda>_. 0)"
  have d: "ata_data ?f 10 2 = Some demo_e4_leaf" by (simp add: numeral_2_eq_2 demo_e4_leaf_def)
  have len: "length demo_e4_leaf = 1024" by (simp add: demo_e4_leaf_def ata_sector_bytes_length)
  show ?thesis using d len
    by (simp add: ext4_read_block_def demo_e4_fs_def demo_e4_def demo_fat_def fat32.defs ext4.defs disk_read_sectors_def
        ata_read_sectors_def ata_lba_def read_into_def)
qed

lemma demo_e4_tree: "extent_tree demo_e4_fs demo_e4 0 (2 ^ 32 - 1) (i_block demo_e4_inode) {(7, 3, 100)}"
proof -
  have "extent_tree demo_e4_fs demo_e4 0 (2 ^ 32 - 1) demo_e4_leaf (set [(7, 3, 100)])"
    by (rule extent_tree.leaf) (simp_all add: demo_e4_fields entries_are_def)
  then have c: "extent_tree demo_e4_fs demo_e4 0 (2 ^ 32 - 1) demo_e4_leaf {(7, 3, 100)}" by simp
  have "extent_tree demo_e4_fs demo_e4 0 (2 ^ 32 - 1) (i_block demo_e4_inode)
      (\<Union>i < length [(0 :: u32, 5 :: u64)]. (\<lambda>_. {(7, 3, 100)}) i)"
    by (rule extent_tree.inner[where d = 1 and bs = "\<lambda>_. demo_e4_leaf"])
      (use c in \<open>auto simp: demo_e4_fields demo_e4_block entries_are_def key_from_def le_Suc_eq\<close>)
  moreover have "(\<Union>i < length [(0 :: u32, 5 :: u64)]. (\<lambda>_. {(7, 3, 100)}) i) = {(7, 3, 100) :: extent}" by auto
  ultimately show ?thesis by (simp only:)
qed

theorem ext4_get_physical_block_witness:
  "\<exists>r h. kmalloc 1024 (rheap demo_e4) = Some (r, h) \<and>
     (r \<noteq> None \<longrightarrow> (\<exists>h'. ext4_get_physical_block demo_e4_fs demo_e4_inode 8 demo_e4 = Some (101, demo_e4\<lparr>rheap := h'\<rparr>)))"
proof -
  have h: "rheap demo_e4 = demo_heap" by (simp add: demo_e4_def demo_fat_def fat32.defs)
  have b: "e4_block_size demo_e4_fs = 1024" by (simp add: demo_e4_fs_def)
  have f: "i_flags demo_e4_inode AND 0x80000 \<noteq> 0" "e4_block_size demo_e4_fs \<noteq> 0"
    by (simp_all add: demo_e4_inode_def demo_e4_fs_def)
  have live: "heap_live (rheap demo_e4) {HEAP_VIRT_START + 24}" "region_room (rheap demo_e4) (unat (e4_block_size demo_e4_fs) + 20510)"
    using demo_heap_live unfolding h b region_room_def by simp_all
  have v: "v = 101" if "extent_value {(7, 3, 100)} 8 v" for v using that by (simp add: extent_value_def)
  from ext4_get_physical_block_correct[OF demo_e4_tree f(1) demo_e4_fields(5) f(2) live, of 8] v show ?thesis
    unfolding b by fastforce
qed

end
