(* ===== verification/Ntfs.thy ===== *)
theory Ntfs
  imports Ext4
begin

text \<open>
  The read-only NTFS driver of \<open>kernel/src/fs/ntfs.c\<close>: records of the master file table with their fixup,
  the attribute scan, the walk over a resident directory index, data runs, and the mount. Pointers into a record
  are offsets into its bytes; none of the accesses is checked by the code, so each may fault.
\<close>

section \<open>State\<close>

definition NTFS_OEM_ID :: u64 where "NTFS_OEM_ID = 0x202020205346544E"
definition NTFS_FILE_MAGIC :: u32 where "NTFS_FILE_MAGIC = 0x454C4946"
definition NTFS_ROOT_MFT_RECORD :: u64 where "NTFS_ROOT_MFT_RECORD = 5"
definition NTFS_SYSTEM_FILE_THRESHOLD :: u64 where "NTFS_SYSTEM_FILE_THRESHOLD = 16"
definition NTFS_ATTR_DATA :: u32 where "NTFS_ATTR_DATA = 0x80"
definition NTFS_ATTR_INDEX_ROOT :: u32 where "NTFS_ATTR_INDEX_ROOT = 0x90"
definition NTFS_RECORD_IS_DIR :: u32 where "NTFS_RECORD_IS_DIR = 2"
definition NTFS_INDEX_ENTRY_LAST :: u32 where "NTFS_INDEX_ENTRY_LAST = 2"

record ntfs_fs =
  nt_part :: nat
  nt_mft_lba :: u64
  nt_mft_record_size :: u32
  nt_cluster_size :: u32
  nt_bytes_per_sector :: u32

record ntfs_node =
  nt_fs :: u64
  nt_mft_record_number :: u64
  nt_file_size :: u64

record ntfs = ext4 +
  nt_fss :: "u64 \<Rightarrow> ntfs_fs option"
  nt_nodes :: "u64 \<Rightarrow> ntfs_node option"

definition SIZEOF_NTFS_FS :: u64 where "SIZEOF_NTFS_FS = 32"
definition SIZEOF_NTFS_NODE :: u64 where "SIZEOF_NTFS_NODE = 24"

text \<open>The address of the table \<open>ntfs_ops\<close>.\<close>

definition NTFS_OPS :: u64 where "NTFS_OPS = 4"

section \<open>Records and attributes\<close>

definition put16 :: "u8 list \<Rightarrow> nat \<Rightarrow> u16 \<Rightarrow> u8 list option" where
  "put16 b i w = do { b1 \<leftarrow> wr b i (ucast w); wr b1 (Suc i) (ucast (drop_bit 8 w)) }"

text \<open>The fixup loop over the slots from \<open>i\<close> on; \<open>Some None\<close> when a check value does not match.\<close>

primrec ntfs_fixup :: "u32 \<Rightarrow> nat \<Rightarrow> u16 \<Rightarrow> nat \<Rightarrow> nat \<Rightarrow> u8 list \<Rightarrow> u8 list option option" where
  "ntfs_fixup record_size usa seq_num i 0 buf = Some (Some buf)"
| "ntfs_fixup record_size usa seq_num i (Suc n) buf = do {
     let sector_end = i * 512 - 2;
     if unat record_size \<le> sector_end + 1 then Some (Some buf)
     else do {
       end_word \<leftarrow> le16 buf sector_end;
       if end_word \<noteq> seq_num then Some None
       else do {
         orig \<leftarrow> le16 buf (usa + 2 * i);
         buf1 \<leftarrow> put16 buf sector_end orig;
         ntfs_fixup record_size usa seq_num (Suc i) n buf1 } } }"

definition ntfs_read_mft_record :: "ntfs_fs \<Rightarrow> u64 \<Rightarrow> 'a ntfs_scheme \<Rightarrow> u8 list option option" where
  "ntfs_read_mft_record fs recno s =
     (if nt_bytes_per_sector fs = 0 then None
      else do {
        let byte_offset = recno * ucast (nt_mft_record_size fs);
        let lba = nt_mft_lba fs + byte_offset div ucast (nt_bytes_per_sector fs);
        let count0 = (ucast (nt_mft_record_size fs div nt_bytes_per_sector fs) :: u8);
        let sector_count = (if count0 = 0 then 1 else count0);
        part \<leftarrow> rd (partitions s) (nt_part fs);
        r0 \<leftarrow> disk_read_sectors (part_drive part) lba sector_count s;
        r \<leftarrow> read_into True (unat (nt_mft_record_size fs)) r0;
        (case r of
           None \<Rightarrow> Some None
         | Some buf \<Rightarrow> do {
             magic \<leftarrow> le32 buf 0;
             if magic \<noteq> NTFS_FILE_MAGIC then Some None
             else do {
               usa \<leftarrow> le16 buf 4;
               seq_num \<leftarrow> le16 buf (unat usa);
               usa_len \<leftarrow> le16 buf 6;
               ntfs_fixup (nt_mft_record_size fs) (unat usa) seq_num 1 (unat usa_len - 1) buf } }) })"

text \<open>The scan for an attribute; the offset is 32 bits wide and may wrap.\<close>

partial_function (option) ntfs_attr_loop :: "u8 list \<Rightarrow> u32 \<Rightarrow> u32 \<Rightarrow> u32 \<Rightarrow> u32 option option" where
  "ntfs_attr_loop rec_buf type1 record_size off =
     (if unat off + 16 \<le> unat record_size then do {
        t \<leftarrow> le32 rec_buf (unat off);
        if t = 0xFFFFFFFF then Some None
        else do {
          len1 \<leftarrow> le32 rec_buf (unat off + 4);
          if len1 = 0 then Some None
          else if t = type1 then Some (Some off)
          else ntfs_attr_loop rec_buf type1 record_size (off + len1) } }
      else Some None)"

declare ntfs_attr_loop.simps [code]

definition ntfs_find_attr :: "u8 list \<Rightarrow> u32 \<Rightarrow> u32 \<Rightarrow> u32 option option" where
  "ntfs_find_attr rec_buf type1 record_size = do {
     attrs_offset \<leftarrow> le16 rec_buf 20;
     ntfs_attr_loop rec_buf type1 record_size (ucast attrs_offset) }"

section \<open>Directories\<close>

text \<open>\<open>len\<close> UTF-16 code units from an offset on, as the characters of a string; what is not ASCII becomes a question mark.\<close>

primrec utf16_chars :: "u8 list \<Rightarrow> nat \<Rightarrow> nat \<Rightarrow> u8 list option" where
  "utf16_chars b pos 0 = Some []"
| "utf16_chars b pos (Suc n) = do {
     c \<leftarrow> le16 b pos;
     rest \<leftarrow> utf16_chars b (pos + 2) n;
     Some ((if c < 0x80 then ucast c else 63) # rest) }"

definition utf16_to_ascii :: "u8 list \<Rightarrow> nat \<Rightarrow> u8 \<Rightarrow> string option" where
  "utf16_to_ascii b pos ln = map_option c_string (utf16_chars b pos (unat ln))"

text \<open>One step over an index entry: the end, an entry to skip, or a file with its record number.\<close>

datatype index_entry = Idx_end | Idx_skip nat | Idx_file u64 nat

definition ntfs_index_entry :: "u8 list \<Rightarrow> nat \<Rightarrow> index_entry option" where
  "ntfs_index_entry b entry = do {
     mft_ref \<leftarrow> le64 b entry;
     entry_length \<leftarrow> le16 b (entry + 8);
     key_length \<leftarrow> le16 b (entry + 10);
     flags \<leftarrow> le32 b (entry + 12);
     if flags AND NTFS_INDEX_ENTRY_LAST \<noteq> 0 then Some Idx_end
     else if entry_length < 16 then Some Idx_end
     else if key_length = 0 then Some (Idx_skip (entry + unat entry_length))
     else do {
       let recno = mft_ref AND 0x0000FFFFFFFFFFFF;
       if recno < NTFS_SYSTEM_FILE_THRESHOLD then Some (Idx_skip (entry + unat entry_length))
       else Some (Idx_file recno (entry + unat entry_length)) } }"

definition name_type_of :: "u8 list \<Rightarrow> nat \<Rightarrow> (string \<times> u32) option" where
  "name_type_of b fn = do {
     name_length \<leftarrow> rd b (fn + 64);
     nm \<leftarrow> utf16_to_ascii b (fn + 66) name_length;
     fl \<leftarrow> le32 b (fn + 56);
     Some (nm, if fl AND NTFS_RECORD_IS_DIR \<noteq> 0 then FS_DIRECTORY else FS_FILE) }"

partial_function (option) ntfs_readdir_loop :: "u8 list \<Rightarrow> u32 \<Rightarrow> nat \<Rightarrow> u32 \<Rightarrow> dirent option option" where
  "ntfs_readdir_loop b index entry valid_count =
     Option.bind (ntfs_index_entry b entry) (\<lambda>x. case x of
         Idx_end \<Rightarrow> Some None
       | Idx_skip e \<Rightarrow> ntfs_readdir_loop b index e valid_count
       | Idx_file recno e \<Rightarrow>
           if valid_count = index then
             Option.bind (name_type_of b (entry + 16)) (\<lambda>(nm, ty).
               Some (Some \<lparr>d_name = nm, d_ino = ucast (recno AND 0xFFFFFFFF), d_type = ty\<rparr>))
           else ntfs_readdir_loop b index e (valid_count + 1))"

partial_function (option) ntfs_finddir_loop :: "u8 list \<Rightarrow> string \<Rightarrow> nat \<Rightarrow> (u64 \<times> nat) option option" where
  "ntfs_finddir_loop b name entry =
     Option.bind (ntfs_index_entry b entry) (\<lambda>x. case x of
         Idx_end \<Rightarrow> Some None
       | Idx_skip e \<Rightarrow> ntfs_finddir_loop b name e
       | Idx_file recno e \<Rightarrow>
           Option.bind (rd b (entry + 16 + 64)) (\<lambda>nl.
           Option.bind (utf16_to_ascii b (entry + 16 + 66) nl) (\<lambda>nm.
             if nm = name then Some (Some (recno, entry + 16)) else ntfs_finddir_loop b name e)))"

declare ntfs_readdir_loop.simps [code] ntfs_finddir_loop.simps [code]

text \<open>The position of the first index entry of the INDEX_ROOT attribute at \<open>attr\<close>.\<close>

definition ntfs_first_entry :: "u8 list \<Rightarrow> u32 \<Rightarrow> nat option" where
  "ntfs_first_entry b attr = do {
     value_offset \<leftarrow> le16 b (unat attr + 20);
     let index_hdr = unat attr + unat value_offset + 16;
     entries_off \<leftarrow> le32 b index_hdr;
     Some (index_hdr + unat entries_off) }"

text \<open>The common frame of the two directory operations: read the record, find the index, walk it, release the buffer.\<close>

definition ntfs_with_index :: "ntfs_node \<Rightarrow> ntfs_fs \<Rightarrow> (u8 list \<Rightarrow> nat \<Rightarrow> 'r option option) \<Rightarrow> 'a ntfs_scheme \<Rightarrow>
    ((u8 list \<times> 'r) option \<times> u64 option \<times> 'a ntfs_scheme) option" where
  "ntfs_with_index nd fs visit s = do {
     (rp, h1) \<leftarrow> kmalloc (ucast (nt_mft_record_size fs)) (rheap s);
     let s1 = s\<lparr>rheap := h1\<rparr>;
     (case rp of
        None \<Rightarrow> Some (None, None, s1)
      | Some p \<Rightarrow> do {
          r \<leftarrow> ntfs_read_mft_record fs (nt_mft_record_number nd) s1;
          (case r of
             None \<Rightarrow> Some (None, rp, s1)
           | Some b \<Rightarrow> do {
               a \<leftarrow> ntfs_find_attr b NTFS_ATTR_INDEX_ROOT (nt_mft_record_size fs);
               (case a of
                  None \<Rightarrow> Some (None, rp, s1)
                | Some attr \<Rightarrow> do {
                    entry \<leftarrow> ntfs_first_entry b attr;
                    res \<leftarrow> visit b entry;
                    Some (map_option (Pair b) res, rp, s1) }) }) }) }"

definition ntfs_readdir :: "u64 \<Rightarrow> u32 \<Rightarrow> 'a ntfs_scheme \<Rightarrow> (dirent option \<times> 'a ntfs_scheme) option" where
  "ntfs_readdir node index s = do {
     n \<leftarrow> nodes s node;
     (case nimpl n of
        None \<Rightarrow> Some (None, s)
      | Some q \<Rightarrow> do {
          nd \<leftarrow> nt_nodes s q;
          fs \<leftarrow> nt_fss s (nt_fs nd);
          (d, rp, s1) \<leftarrow> ntfs_with_index nd fs (\<lambda>b entry. ntfs_readdir_loop b index entry 0) s;
          h2 \<leftarrow> kfree rp (rheap s1);
          Some (map_option snd d, s1\<lparr>rheap := h2\<rparr>) }) }"

text \<open>The node for the entry with its key at \<open>fn\<close>; the name buffer of a node has 128 bytes.\<close>

definition ntfs_child :: "u64 \<Rightarrow> u8 list \<Rightarrow> string \<Rightarrow> u64 \<Rightarrow> nat \<Rightarrow> 'a ntfs_scheme \<Rightarrow> (u64 \<times> 'a ntfs_scheme) option" where
  "ntfs_child fsp b name recno fn s = do {
     (np, h1) \<leftarrow> kmalloc SIZEOF_VFS_NODE (rheap s);
     child \<leftarrow> np;
     if 127 < length name then None
     else do {
       fl \<leftarrow> le32 b (fn + 56);
       real_size \<leftarrow> le64 b (fn + 48);
       (cp, h2) \<leftarrow> kmalloc SIZEOF_NTFS_NODE h1;
       child_nd \<leftarrow> cp;
       Some (child, s\<lparr>rheap := h2,
         nodes := (nodes s)(child \<mapsto> zero_node\<lparr>nname := name,
           nflags := (if fl AND NTFS_RECORD_IS_DIR \<noteq> 0 then FS_DIRECTORY else FS_FILE),
           nlength := real_size, nops := Some NTFS_OPS, nimpl := Some child_nd\<rparr>),
         nt_nodes := (nt_nodes s)(child_nd \<mapsto> \<lparr>nt_fs = fsp, nt_mft_record_number = recno, nt_file_size = real_size\<rparr>)\<rparr>) } }"

definition ntfs_finddir :: "u64 \<Rightarrow> string \<Rightarrow> 'a ntfs_scheme \<Rightarrow> (u64 option \<times> 'a ntfs_scheme) option" where
  "ntfs_finddir node name s = do {
     n \<leftarrow> nodes s node;
     (case nimpl n of
        None \<Rightarrow> Some (None, s)
      | Some q \<Rightarrow> do {
          nd \<leftarrow> nt_nodes s q;
          fs \<leftarrow> nt_fss s (nt_fs nd);
          (f, rp, s1) \<leftarrow> ntfs_with_index nd fs (\<lambda>b entry. ntfs_finddir_loop b name entry) s;
          (child, s2) \<leftarrow> (case f of
             None \<Rightarrow> Some (None, s1)
           | Some (b, recno, fn) \<Rightarrow>
               map_option (\<lambda>(c, t). (Some c, t)) (ntfs_child (nt_fs nd) b name recno fn s1));
          h2 \<leftarrow> kfree rp (rheap s2);
          Some (child, s2\<lparr>rheap := h2\<rparr>) }) }"

section \<open>Data runs\<close>

text \<open>
  The bytes of a field of a run, least significant first. A field of more than 8 bytes shifts by 64 or more bits,
  which C leaves undefined. The signed field is accumulated as a 64-bit word.
\<close>

primrec run_field :: "u8 list \<Rightarrow> nat \<Rightarrow> nat \<Rightarrow> nat \<Rightarrow> u64 \<Rightarrow> u64 option" where
  "run_field b run i 0 acc = Some acc"
| "run_field b run i (Suc n) acc =
     (if 64 \<le> i * 8 then None
      else do { x \<leftarrow> rd b run; run_field b (Suc run) (Suc i) n (acc OR push_bit (i * 8) (ucast x)) })"

text \<open>The loop that fills the upper bytes.\<close>

primrec fill_ff :: "nat \<Rightarrow> nat \<Rightarrow> u64 \<Rightarrow> u64" where
  "fill_ff i 0 acc = acc"
| "fill_ff i (Suc n) acc = fill_ff (Suc i) n (acc OR push_bit (i * 8) 0xFF)"

definition sign_extend_field :: "nat \<Rightarrow> u64 \<Rightarrow> u64" where
  "sign_extend_field off_bytes d =
     (if 0 < off_bytes \<and> (ucast (drop_bit ((off_bytes - 1) * 8) d) :: u8) AND 0x80 \<noteq> 0
      then fill_ff off_bytes (8 - off_bytes) d else d)"

text \<open>
  A run at an offset: its clusters, the difference to the last cluster number, whether it is sparse, and
  the offset of the next run. \<open>Some None\<close> is an invalid run.
\<close>

definition ntfs_decode_run :: "u8 list \<Rightarrow> nat \<Rightarrow> (u64 \<times> u64 \<times> bool \<times> nat) option option" where
  "ntfs_decode_run b run = do {
     header \<leftarrow> rd b run;
     let len_bytes = unat (header AND 0x0F);
     let off_bytes = unat (drop_bit 4 header AND 0x0F);
     if len_bytes = 0 then Some None
     else do {
       run_clusters \<leftarrow> run_field b (run + 1) 0 len_bytes 0;
       lcn0 \<leftarrow> run_field b (run + 1 + len_bytes) 0 off_bytes 0;
       Some (Some (run_clusters, sign_extend_field off_bytes lcn0, off_bytes = 0, run + 1 + len_bytes + off_bytes)) } }"

text \<open>
  The loop over the clusters of a run. The first component of the result is true where the code leaves
  the whole read with what it has.
\<close>

partial_function (option) ntfs_clusters :: "ntfs_fs \<Rightarrow> bool \<Rightarrow> u64 \<Rightarrow> u64 \<Rightarrow> u64 \<Rightarrow> u64 \<Rightarrow> u64 \<Rightarrow> u64 \<Rightarrow> u64 \<Rightarrow> u8 list \<Rightarrow>
    'a ntfs_scheme \<Rightarrow> (bool \<times> u64 \<times> u8 list) option" where
  "ntfs_clusters fs sparse lcn run_clusters run_read_end size1 cluster_idx intra_off bytes_read out s =
     (if cluster_idx < run_clusters \<and> cluster_idx * ucast (nt_cluster_size fs) < run_read_end \<and> bytes_read < size1 then
        (let room1 = ucast (nt_cluster_size fs) - intra_off;
             remain = size1 - bytes_read;
             to_copy = (if remain < room1 then remain else room1)
         in if sparse then
              ntfs_clusters fs sparse lcn run_clusters run_read_end size1 (cluster_idx + 1) 0 (bytes_read + to_copy)
                (out @ replicate (unat to_copy) 0) s
            else if nt_bytes_per_sector fs = 0 then None
            else do {
              part \<leftarrow> rd (partitions s) (nt_part fs);
              let lcn_abs = lcn + cluster_idx;
              let sector_lba = lba_start part + lcn_abs * ucast (nt_cluster_size fs div nt_bytes_per_sector fs);
              let secs0 = (ucast (nt_cluster_size fs div nt_bytes_per_sector fs) :: u8);
              r0 \<leftarrow> disk_read_sectors (part_drive part) sector_lba (if secs0 = 0 then 1 else secs0) s;
              r \<leftarrow> read_into True (unat (nt_cluster_size fs)) r0;
              (case r of
                 None \<Rightarrow> Some (True, bytes_read, out)
               | Some cluster_buf \<Rightarrow> do {
                   chunk \<leftarrow> blk_read intra_off (unat to_copy) cluster_buf;
                   ntfs_clusters fs sparse lcn run_clusters run_read_end size1 (cluster_idx + 1) 0 (bytes_read + to_copy)
                     (out @ chunk) s }) })
      else Some (False, bytes_read, out))"

partial_function (option) ntfs_runs :: "ntfs_fs \<Rightarrow> u8 list \<Rightarrow> u64 \<Rightarrow> u64 \<Rightarrow> nat \<Rightarrow> u64 \<Rightarrow> u64 \<Rightarrow> u64 \<Rightarrow> u8 list \<Rightarrow>
    'a ntfs_scheme \<Rightarrow> (u64 \<times> u8 list) option" where
  "ntfs_runs fs b offset size1 run current_lcn current_vcn bytes_read out s = do {
     x \<leftarrow> rd b run;
     if x = 0 \<or> \<not> bytes_read < size1 then Some (bytes_read, out)
     else do {
       d \<leftarrow> ntfs_decode_run b run;
       (case d of
          None \<Rightarrow> Some (bytes_read, out)
        | Some (run_clusters, lcn_delta, sparse, run1) \<Rightarrow> do {
            let lcn = current_lcn + lcn_delta;
            let cs = ucast (nt_cluster_size fs);
            let run_start_byte = current_vcn * cs;
            let run_end_byte = run_start_byte + run_clusters * cs;
            (stop, n1, out1) \<leftarrow>
              (if offset < run_end_byte \<and> run_start_byte < offset + size1 then do {
                 let run_read_start = (if run_start_byte < offset then offset - run_start_byte else 0);
                 let run_read_end = (if offset + size1 < run_end_byte then offset + size1 - run_start_byte else run_clusters * cs);
                 if cs = 0 then None
                 else ntfs_clusters fs sparse lcn run_clusters run_read_end size1 (run_read_start div cs) (run_read_start mod cs)
                   bytes_read out s }
               else Some (False, bytes_read, out));
            if stop then Some (n1, out1)
            else ntfs_runs fs b offset size1 run1 lcn (current_vcn + run_clusters) n1 out1 s }) } }"

declare ntfs_clusters.simps [code] ntfs_runs.simps [code]

text \<open>The two kinds of \<open>$DATA\<close> attribute at the offset \<open>attr\<close> of the record.\<close>

definition ntfs_read_resident :: "u8 list \<Rightarrow> nat \<Rightarrow> u64 \<Rightarrow> u64 \<Rightarrow> (u64 \<times> u8 list) option" where
  "ntfs_read_resident b attr offset size1 = do {
     value_offset \<leftarrow> le16 b (attr + 20);
     data_len \<leftarrow> le32 b (attr + 16);
     if ucast data_len \<le> offset then Some (0, [])
     else do {
       let room1 = ucast data_len - offset;
       let to_copy = (if size1 < room1 then size1 else room1);
       out \<leftarrow> blk_read offset (unat to_copy) (drop (attr + unat value_offset) b);
       Some (to_copy, out) } }"

definition ntfs_read_nonresident :: "ntfs_fs \<Rightarrow> u8 list \<Rightarrow> nat \<Rightarrow> u64 \<Rightarrow> u64 \<Rightarrow> 'a ntfs_scheme \<Rightarrow> (u64 \<times> u8 list \<times> 'a ntfs_scheme) option" where
  "ntfs_read_nonresident fs b attr offset size1 s = do {
     data_runs_offset \<leftarrow> le16 b (attr + 32);
     (cp, h1) \<leftarrow> kmalloc (ucast (nt_cluster_size fs)) (rheap s);
     (case cp of
        None \<Rightarrow> Some (0, [], s\<lparr>rheap := h1\<rparr>)
      | Some p \<Rightarrow> do {
          (n1, out) \<leftarrow> ntfs_runs fs b offset size1 (attr + unat data_runs_offset) 0 0 0 [] s;
          h2 \<leftarrow> kfree cp h1;
          Some (n1, out, s\<lparr>rheap := h2\<rparr>) }) }"

definition ntfs_read :: "u64 \<Rightarrow> u64 \<Rightarrow> u64 \<Rightarrow> 'a ntfs_scheme \<Rightarrow> (u64 \<times> u8 list \<times> 'a ntfs_scheme) option" where
  "ntfs_read node offset size0 s = do {
     n \<leftarrow> nodes s node;
     if nflags n AND FS_FILE \<noteq> FS_FILE then Some (0, [], s)
     else (case nimpl n of
        None \<Rightarrow> Some (0, [], s)
      | Some q \<Rightarrow> do {
          nd \<leftarrow> nt_nodes s q;
          fs \<leftarrow> nt_fss s (nt_fs nd);
          let size1 = (if nt_file_size nd < offset + size0 then nt_file_size nd - offset else size0);
          if nt_file_size nd \<le> offset then Some (0, [], s)
          else if size1 = 0 then Some (0, [], s)
          else do {
            (rp, h1) \<leftarrow> kmalloc (ucast (nt_mft_record_size fs)) (rheap s);
            let s1 = s\<lparr>rheap := h1\<rparr>;
            if rp = None then Some (0, [], s1)
            else do {
              r \<leftarrow> ntfs_read_mft_record fs (nt_mft_record_number nd) s1;
              (n1, out, s2) \<leftarrow> (case r of
                 None \<Rightarrow> Some (0, [], s1)
               | Some b \<Rightarrow> do {
                   a \<leftarrow> ntfs_find_attr b NTFS_ATTR_DATA (nt_mft_record_size fs);
                   (case a of
                      None \<Rightarrow> Some (0, [], s1)
                    | Some attr \<Rightarrow> do {
                        non_resident \<leftarrow> rd b (unat attr + 8);
                        if non_resident = 0 then do {
                          (n1, out) \<leftarrow> ntfs_read_resident b (unat attr) offset size1;
                          Some (n1, out, s1) }
                        else ntfs_read_nonresident fs b (unat attr) offset size1 s1 }) });
              h2 \<leftarrow> kfree rp (rheap s2);
              Some (n1, out, s2\<lparr>rheap := h2\<rparr>) } } }) }"

definition ntfs_ops :: "'a ntfs_scheme vfs_ops" where
  "ntfs_ops = \<lparr>ops_read = Some ntfs_read, ops_write = None, ops_open = None, ops_close = None,
     ops_readdir = Some ntfs_readdir, ops_finddir = Some ntfs_finddir, ops_mkdir = None, ops_create = None\<rparr>"

section \<open>Mount\<close>

text \<open>The size of a record: a count of clusters, or for a negative byte a power of two.\<close>

definition mft_record_bytes :: "u8 \<Rightarrow> u32 \<Rightarrow> u32 option" where
  "mft_record_bytes c_mft cluster_size =
     (if 128 \<le> c_mft then
        (let k = 256 - unat c_mft in if 32 \<le> k then None else Some (push_bit k 1))
      else Some (ucast c_mft * cluster_size))"

definition ntfs_mount :: "nat \<Rightarrow> 'a ntfs_scheme \<Rightarrow> (u64 option \<times> 'a ntfs_scheme) option" where
  "ntfs_mount pi s = do {
     part \<leftarrow> rd (partitions s) pi;
     (sp, h1) \<leftarrow> kmalloc 512 (rheap s);
     if sp = None then Some (None, s\<lparr>rheap := h1\<rparr>)
     else do {
       r0 \<leftarrow> disk_read_sectors (part_drive part) (lba_start part) 1 s;
       r \<leftarrow> read_into True 512 r0;
       (case r of
          None \<Rightarrow> do { h2 \<leftarrow> kfree sp h1; Some (None, s\<lparr>rheap := h2\<rparr>) }
        | Some bpb \<Rightarrow> do {
            oem_id \<leftarrow> le64 bpb 3;
            bps0 \<leftarrow> le16 bpb 11;
            let bps = (ucast bps0 :: u32);
            if oem_id \<noteq> NTFS_OEM_ID \<or> bps < 512 \<or> 4096 < bps \<or> bps AND (bps - 1) \<noteq> 0 then do {
              h2 \<leftarrow> kfree sp h1; Some (None, s\<lparr>rheap := h2\<rparr>) }
            else do {
              spc \<leftarrow> rd bpb 13;
              let cluster_size = bps * ucast spc;
              c_mft \<leftarrow> rd bpb 59;
              mft_record_size \<leftarrow> mft_record_bytes c_mft cluster_size;
              mft_cluster \<leftarrow> le64 bpb 43;
              let mft_lba = lba_start part + mft_cluster * ucast spc;
              (fp, h2) \<leftarrow> kmalloc SIZEOF_NTFS_FS h1;
              h3 \<leftarrow> kfree sp h2;
              (case fp of
                 None \<Rightarrow> Some (None, s\<lparr>rheap := h3\<rparr>)
               | Some fsp \<Rightarrow> do {
                   (rp, h4) \<leftarrow> kmalloc SIZEOF_VFS_NODE h3;
                   (case rp of
                      None \<Rightarrow> do { h5 \<leftarrow> kfree fp h4; Some (None, s\<lparr>rheap := h5\<rparr>) }
                    | Some root \<Rightarrow> do {
                        (np, h5) \<leftarrow> kmalloc SIZEOF_NTFS_NODE h4;
                        (case np of
                           None \<Rightarrow> do { h6 \<leftarrow> kfree rp h5; h7 \<leftarrow> kfree fp h6; Some (None, s\<lparr>rheap := h7\<rparr>) }
                         | Some nd \<Rightarrow>
                             Some (Some root, s\<lparr>rheap := h5,
                               nodes := (nodes s)(root \<mapsto> zero_node\<lparr>nname := ''NTFS'', nflags := FS_DIRECTORY,
                                 nops := Some NTFS_OPS, nimpl := Some nd\<rparr>),
                               nt_fss := (nt_fss s)(fsp \<mapsto> \<lparr>nt_part = pi, nt_mft_lba = mft_lba,
                                 nt_mft_record_size = mft_record_size, nt_cluster_size = cluster_size,
                                 nt_bytes_per_sector = bps\<rparr>),
                               nt_nodes := (nt_nodes s)(nd \<mapsto> \<lparr>nt_fs = fsp,
                                 nt_mft_record_number = NTFS_ROOT_MFT_RECORD, nt_file_size = 0\<rparr>)\<rparr>)) }) }) } }) } }"

section \<open>Data runs round trip\<close>

text \<open>How NTFS stores a run: a header byte with the widths, the cluster count, and the difference in two's complement.\<close>

definition field_bytes :: "nat \<Rightarrow> u64 \<Rightarrow> u8 list" where
  "field_bytes k w = map (\<lambda>i. ucast (drop_bit (i * 8) w)) [0..<k]"

definition encode_run :: "nat \<Rightarrow> nat \<Rightarrow> u64 \<Rightarrow> u64 \<Rightarrow> u8 list" where
  "encode_run k m n d = of_nat (m * 16 + k) # field_bytes k n @ field_bytes m d"

lemma run_field_bits:
  assumes "\<And>j. j < n \<Longrightarrow> rd b (run + j) = Some (ucast (drop_bit ((i + j) * 8) w))" "i + n \<le> 8"
  shows "run_field b run i n acc = Some (acc OR push_bit (i * 8) (take_bit (n * 8) (drop_bit (i * 8) w)))"
  using assms
proof (induction n arbitrary: run i acc)
  case 0
  then show ?case by simp
next
  case (Suc n)
  let ?x = "ucast (drop_bit (i * 8) w) :: u8"
  have x: "rd b run = Some ?x" using Suc.prems(1)[of 0] by simp
  have "run_field b (Suc run) (Suc i) n a =
      Some (a OR push_bit (Suc i * 8) (take_bit (n * 8) (drop_bit (Suc i * 8) w)))" for a
    using Suc.prems(1)[of "Suc j" for j] Suc.prems(2) by (intro Suc.IH) auto
  then have "run_field b run i (Suc n) acc =
      Some ((acc OR push_bit (i * 8) (ucast ?x)) OR push_bit (Suc i * 8) (take_bit (n * 8) (drop_bit (Suc i * 8) w)))"
    using x Suc.prems(2) by simp
  moreover have "(acc OR push_bit (i * 8) (ucast ?x)) OR push_bit (Suc i * 8) (take_bit (n * 8) (drop_bit (Suc i * 8) w)) =
      acc OR push_bit (i * 8) (take_bit (Suc n * 8) (drop_bit (i * 8) w))" (is "?l = ?r")
  proof (rule bit_word_eqI)
    fix q assume "q < LENGTH(64)"
    consider "q < i * 8" | "i * 8 \<le> q" "q < i * 8 + 8" | "i * 8 + 8 \<le> q" by linarith
    then show "bit ?l q \<longleftrightarrow> bit ?r q" by cases (auto simp: bit_simps)
  qed
  ultimately show ?case by simp
qed

lemma fill_ff_bits:
  "i + n \<le> 8 \<Longrightarrow> bit (fill_ff i n acc) q \<longleftrightarrow> q < 64 \<and> (bit acc q \<or> i * 8 \<le> q \<and> q < (i + n) * 8)"
proof (induction n arbitrary: i acc)
  case 0
  then show ?case by (auto dest: bit_imp_le_length)
next
  case (Suc n)
  have ff: "bit (0xFF :: u64) r \<longleftrightarrow> r < 8" for r
  proof -
    have "(0xFF :: u64) = mask 8" by (simp add: mask_eq_exp_minus_1)
    then have "bit (0xFF :: u64) r \<longleftrightarrow> bit (mask 8 :: u64) r" by (simp only:)
    then show ?thesis by (simp only: bit_mask_iff) auto
  qed
  have "bit (push_bit (i * 8) (0xFF :: u64)) q \<longleftrightarrow> q < 64 \<and> i * 8 \<le> q \<and> q < i * 8 + 8"
    unfolding bit_push_bit_iff ff by auto
  then show ?case using Suc.IH[of "Suc i" "acc OR push_bit (i * 8) 0xFF"] Suc.prems by (auto simp: bit_or_iff)
qed

lemma sign_extend_field_correct:
  assumes "0 < m" "m \<le> 8"
  shows "sign_extend_field m (take_bit (m * 8) d) = signed_take_bit (m * 8 - 1) d"
proof -
  have hi: "(ucast (drop_bit ((m - 1) * 8) (take_bit (m * 8) d)) :: u8) AND 0x80 \<noteq> 0 \<longleftrightarrow> bit d (m * 8 - 1)"
  proof -
    have e: "(0x80 :: u8) = push_bit 7 1" by simp
    have "x AND push_bit 7 1 \<noteq> 0 \<longleftrightarrow> bit x 7" for x :: u8
      by (simp add: bit_iff_and_push_bit_not_eq_0)
    then have "(ucast (drop_bit ((m - 1) * 8) (take_bit (m * 8) d)) :: u8) AND 0x80 \<noteq> 0 \<longleftrightarrow>
        bit (ucast (drop_bit ((m - 1) * 8) (take_bit (m * 8) d)) :: u8) 7" unfolding e .
    also have "\<dots> \<longleftrightarrow> bit d ((m - 1) * 8 + 7)" using assms by (auto simp: bit_simps)
    also have "(m - 1) * 8 + 7 = m * 8 - 1" using assms(1) by (cases m) auto
    finally show ?thesis .
  qed
  show ?thesis
  proof (rule bit_word_eqI)
    fix q assume "q < LENGTH(64)"
    then have q: "q < 64" by simp
    have s: "bit (signed_take_bit (m * 8 - 1) d) q \<longleftrightarrow> bit d (min q (m * 8 - 1))"
      using q by (simp add: bit_signed_take_bit_iff min.commute)
    show "bit (sign_extend_field m (take_bit (m * 8) d)) q \<longleftrightarrow> bit (signed_take_bit (m * 8 - 1) d) q"
    proof (cases "bit d (m * 8 - 1)")
      case True
      then have "sign_extend_field m (take_bit (m * 8) d) = fill_ff m (8 - m) (take_bit (m * 8) d)"
        using assms hi by (simp add: sign_extend_field_def)
      then show ?thesis using True q assms s fill_ff_bits[of m "8 - m" "take_bit (m * 8) d" q]
        by (auto simp: bit_simps min_def split: if_splits)
    next
      case False
      then have "sign_extend_field m (take_bit (m * 8) d) = take_bit (m * 8) d"
        using hi by (simp add: sign_extend_field_def)
      then show ?thesis using False q assms s by (auto simp: bit_simps min_def not_less split: if_splits)
    qed
  qed
qed

lemma nibbles:
  assumes "k < 16" "m < 16"
  shows "unat ((of_nat (m * 16 + k) :: u8) AND 0x0F) = k" "unat (drop_bit 4 (of_nat (m * 16 + k) :: u8) AND 0x0F) = m"
proof -
  have f: "(0x0F :: u8) = mask 4" by (simp add: mask_eq_exp_minus_1)
  have h: "unat (of_nat (m * 16 + k) :: u8) = m * 16 + k"
    unfolding unsigned_of_nat using assms by (simp add: take_bit_nat_eq_self)
  show "unat ((of_nat (m * 16 + k) :: u8) AND 0x0F) = k"
    unfolding f take_bit_eq_mask[symmetric] unsigned_take_bit_eq h using assms by (simp add: take_bit_nat_def)
  show "unat (drop_bit 4 (of_nat (m * 16 + k) :: u8) AND 0x0F) = m"
    unfolding f take_bit_eq_mask[symmetric] unsigned_take_bit_eq unsigned_drop_bit_eq h using assms
    by (simp add: take_bit_nat_def drop_bit_nat_def)
qed

lemma rd_middle: "j < length xs \<Longrightarrow> rd (pre @ xs @ post) (length pre + j) = Some (xs ! j)"
  by (simp add: rd_def nth_append)

lemma field_bytes_read:
  assumes "k \<le> 8" "b = pre @ field_bytes k w @ post"
  shows "run_field b (length pre) 0 k 0 = Some (take_bit (k * 8) w)"
  unfolding assms(2)
  using assms(1) by (subst run_field_bits[where w = w]) (auto simp: rd_middle field_bytes_def nth_append)

text \<open>
  C34. Data runs survive encoding: decoding a run that NTFS stores with a count of \<open>k\<close> bytes and a cluster
  difference of \<open>m\<close> bytes, at any place of a record, gives back the count, the signed difference extended to 64
  bits, whether the run is sparse (\<open>m = 0\<close>), and the place of the next run. It holds for all widths up to 8
  and all values that fit them, negative differences included.
\<close>

theorem ntfs_decode_run_roundtrip:
  assumes "1 \<le> k" "k \<le> 8" "m \<le> 8" "n < 2 ^ (k * 8)"
    and "if m = 0 then d = 0 else - (2 ^ (m * 8 - 1)) \<le> d \<and> d < (2 :: int) ^ (m * 8 - 1)"
  shows "ntfs_decode_run (pre @ encode_run k m (of_nat n) (of_int d) @ post) (length pre) =
    Some (Some (of_nat n, of_int d, m = 0, length pre + 1 + k + m))"
proof -
  let ?b = "pre @ encode_run k m (of_nat n) (of_int d) @ post" and ?h = "of_nat (m * 16 + k) :: u8"
  have hd1: "rd ?b (length pre) = Some ?h" using rd_middle[of 0 "encode_run k m (of_nat n) (of_int d)" pre post]
    by (simp add: encode_run_def)
  have lenf: "length (field_bytes j w) = j" for j w by (simp add: field_bytes_def)
  have "run_field ?b (length (pre @ [?h])) 0 k 0 = Some (take_bit (k * 8) (of_nat n))"
    by (rule field_bytes_read[OF assms(2)]) (simp add: encode_run_def)
  moreover have "take_bit (k * 8) (of_nat n :: u64) = of_nat n"
    using assms(4) by (metis take_bit_of_nat take_bit_nat_eq_self)
  ultimately have f1: "run_field ?b (length pre + 1) 0 k 0 = Some (of_nat n)" by simp
  have "run_field ?b (length (pre @ ?h # field_bytes k (of_nat n))) 0 m 0 = Some (take_bit (m * 8) (of_int d))"
    by (rule field_bytes_read[OF assms(3)]) (simp add: encode_run_def)
  then have f2: "run_field ?b (length pre + 1 + k) 0 m 0 = Some (take_bit (m * 8) (of_int d))" by (simp add: lenf)
  have "sign_extend_field m (take_bit (m * 8) (of_int d)) = (of_int d :: u64)"
  proof (cases "m = 0")
    case True
    then show ?thesis using assms(5) by (simp add: sign_extend_field_def)
  next
    case False
    then have "sign_extend_field m (take_bit (m * 8) (of_int d)) = signed_take_bit (m * 8 - 1) (of_int d :: u64)"
      using assms(3) by (intro sign_extend_field_correct) auto
    also have "\<dots> = of_int (signed_take_bit (m * 8 - 1) d)"
      using assms(3) by (simp add: signed_take_bit_of_int)
    also have "signed_take_bit (m * 8 - 1) d = d" using assms(5) False by (intro signed_take_bit_int_eq_self) auto
    finally show ?thesis .
  qed
  then show ?thesis
    using hd1 f1 f2 nibbles[of k m] assms(1-3) by (simp add: ntfs_decode_run_def Let_def)
qed

theorem ntfs_decode_run_witness:
  "ntfs_decode_run ([0x31, 5, 1, 0, 0] @ [0x21, 24, 0, 255] @ [0]) 5 = Some (Some (24, - 256, False, 9))"
proof -
  have "encode_run 1 2 (of_nat 24) (of_int (- 256)) = [0x21, 24, 0, 255]" by code_simp
  then show ?thesis using ntfs_decode_run_roundtrip[of 1 2 24 "- 256" "[0x31, 5, 1, 0, 0]" "[0]"] by (simp add: eval_nat_numeral)
qed

section \<open>When the attribute scan ends\<close>

text \<open>One step of the scan: from an attribute of another type to the next, the offset wrapping at 32 bits.\<close>

inductive attr_step :: "u8 list \<Rightarrow> u32 \<Rightarrow> u32 \<Rightarrow> u32 \<Rightarrow> u32 \<Rightarrow> bool" for b ty sz where
  "unat off + 16 \<le> unat sz \<Longrightarrow> le32 b (unat off) = Some t \<Longrightarrow> t \<noteq> 0xFFFFFFFF \<Longrightarrow> t \<noteq> ty \<Longrightarrow>
   le32 b (unat off + 4) = Some n \<Longrightarrow> n \<noteq> 0 \<Longrightarrow> attr_step b ty sz off (off + n)"

inductive_simps attr_step_iff: "attr_step b ty sz off off'"

text \<open>The scan in terms of its steps: it goes on exactly when there is a step, and stops with a result otherwise.\<close>

lemma attr_loop_step: "attr_step b ty sz off off' \<Longrightarrow> ntfs_attr_loop b ty sz off = ntfs_attr_loop b ty sz off'"
  by (auto simp: attr_step_iff ntfs_attr_loop.simps[of b ty sz off])

lemma attr_loop_stop:
  assumes "unat sz \<le> length b" "\<nexists>off'. attr_step b ty sz off off'"
  shows "\<exists>r. ntfs_attr_loop b ty sz off = Some r \<and>
    (\<forall>x. r = Some x \<longrightarrow> x = off \<and> le32 b (unat off) = Some ty \<and> unat off + 16 \<le> unat sz)"
proof (cases "unat off + 16 \<le> unat sz")
  case False
  then show ?thesis by (simp add: ntfs_attr_loop.simps[of b ty sz off])
next
  case True
  have "unat off + 4 \<le> length b" "unat off + 4 + 4 \<le> length b" using True assms(1) by auto
  then obtain t n where tn: "le32 b (unat off) = Some t" "le32 b (unat off + 4) = Some n"
    unfolding le32_def using le_field_Some[of "unat off" 4 b] le_field_Some[of "unat off + 4" 4 b] by blast
  then have "t = 0xFFFFFFFF \<or> t = ty \<or> n = 0" using assms(2) True by (auto simp: attr_step_iff)
  then show ?thesis using tn True by (auto simp: ntfs_attr_loop.simps[of b ty sz off])
qed

lemma attr_step_unique: "attr_step b ty sz off x \<Longrightarrow> attr_step b ty sz off y \<Longrightarrow> x = y"
  by (auto simp: attr_step_iff)

text \<open>A scan that returns never enters a cycle.\<close>

lemma attr_loop_no_cycle:
  assumes "ntfs_attr_loop b ty sz off = Some r"
  shows "\<forall>x. (attr_step b ty sz)\<^sup>*\<^sup>* off x \<longrightarrow> \<not> (attr_step b ty sz)\<^sup>+\<^sup>+ x x"
proof (rule ntfs_attr_loop.raw_induct[where P = "\<lambda>b ty sz off _. \<forall>x. (attr_step b ty sz)\<^sup>*\<^sup>* off x \<longrightarrow> \<not> (attr_step b ty sz)\<^sup>+\<^sup>+ x x",
      OF _ assms], intro allI impI notI)
  fix f b ty sz off y x
  assume IH: "\<And>b ty sz off y. f b ty sz off = Some y \<Longrightarrow> \<forall>x. (attr_step b ty sz)\<^sup>*\<^sup>* off x \<longrightarrow> \<not> (attr_step b ty sz)\<^sup>+\<^sup>+ x x"
    and eq: "(if unat off + 16 \<le> unat sz then do {
        t \<leftarrow> le32 b (unat off);
        if t = 0xFFFFFFFF then Some None
        else do {
          len1 \<leftarrow> le32 b (unat off + 4);
          if len1 = 0 then Some None
          else if t = ty then Some (Some off)
          else f b ty sz (off + len1) } }
      else Some None) = Some y"
    and x: "(attr_step b ty sz)\<^sup>*\<^sup>* off x" and cyc: "(attr_step b ty sz)\<^sup>+\<^sup>+ x x"
  have goes: "f b ty sz z = Some y" if "attr_step b ty sz off z" for z
    using that eq by (auto simp: attr_step_iff)
  obtain z where z: "attr_step b ty sz off z" "(attr_step b ty sz)\<^sup>*\<^sup>* z x"
    using x cyc by (metis converse_rtranclpE tranclpD)
  show False using IH[OF goes[OF z(1)]] z(2) cyc by blast
qed

lemma attr_loop_returns:
  assumes "unat sz \<le> length b" "\<forall>x. (attr_step b ty sz)\<^sup>*\<^sup>* off x \<longrightarrow> \<not> (attr_step b ty sz)\<^sup>+\<^sup>+ x x"
  shows "\<exists>r. ntfs_attr_loop b ty sz off = Some r \<and> (\<forall>x. r = Some x \<longrightarrow>
    (attr_step b ty sz)\<^sup>*\<^sup>* off x \<and> le32 b (unat x) = Some ty \<and> unat x + 16 \<le> unat sz)"
proof -
  define R where "R = {(y, x). attr_step b ty sz x y \<and> (attr_step b ty sz)\<^sup>*\<^sup>* off x}"
  have sub: "(attr_step b ty sz)\<^sup>+\<^sup>+ x y \<and> (attr_step b ty sz)\<^sup>*\<^sup>* off x" if "(y, x) \<in> R\<^sup>+" for x y
    using that by (induction rule: trancl.induct) (auto simp: R_def dest: tranclp_into_tranclp2 intro: tranclp_trans)
  have "acyclic R" unfolding acyclic_def using sub assms(2) by blast
  then have wf: "wf R" by (intro finite_acyclic_wf) simp_all
  have "(attr_step b ty sz)\<^sup>*\<^sup>* off z \<longrightarrow> (\<exists>r. ntfs_attr_loop b ty sz z = Some r \<and> (\<forall>x. r = Some x \<longrightarrow>
    (attr_step b ty sz)\<^sup>*\<^sup>* off x \<and> le32 b (unat x) = Some ty \<and> unat x + 16 \<le> unat sz))" for z
    using wf
  proof (induction z rule: wf_induct_rule)
    case (less z)
    show ?case
    proof (rule impI)
      assume z: "(attr_step b ty sz)\<^sup>*\<^sup>* off z"
      show "\<exists>r. ntfs_attr_loop b ty sz z = Some r \<and> (\<forall>x. r = Some x \<longrightarrow>
        (attr_step b ty sz)\<^sup>*\<^sup>* off x \<and> le32 b (unat x) = Some ty \<and> unat x + 16 \<le> unat sz)"
      proof (cases "\<exists>w. attr_step b ty sz z w")
        case True
        then obtain w where w: "attr_step b ty sz z w" by blast
        then have "(w, z) \<in> R" "(attr_step b ty sz)\<^sup>*\<^sup>* off w" using z by (auto simp: R_def)
        then show ?thesis using less attr_loop_step[OF w] by simp
      next
        case False
        then show ?thesis using attr_loop_stop[OF assms(1), of ty z] z by blast
      qed
    qed
  qed
  then show ?thesis by simp
qed


text \<open>Two attributes at 56 and 88, the second of which has the length \<open>2^32 - 32\<close>.\<close>

definition demo_record :: "u8 list" where
  "demo_record = replicate 20 0 @ [56] @ replicate 35 0 @ [16, 0, 0, 0, 32, 0, 0, 0] @ replicate 24 0 @
     [48, 0, 0, 0, 224, 255, 255, 255] @ replicate 32 0"

lemma demo_record_fields:
  "le16 demo_record 20 = Some 56" "le32 demo_record 56 = Some 16" "le32 demo_record 60 = Some 32"
  "le32 demo_record 88 = Some 48" "le32 demo_record 92 = Some 0xFFFFFFE0"
  by code_simp+


end
