(* ===== verification/Framebuffer.thy ===== *)
theory Framebuffer
  imports Prelude
begin

text \<open>
  The framebuffer driver, \<open>kernel/src/drivers/video/framebuffer.c\<close>: pixels, clearing, scrolling, the
  built-in font and the drawing of a character. The pixel memory is a list of 32-bit words; an
  access outside it is a fault.
\<close>

definition FB_DEFAULT_BG :: u32 where "FB_DEFAULT_BG = 0x00300347"
definition FB_DEFAULT_FG :: u32 where "FB_DEFAULT_FG = 0x00AAAAAA"
definition FONT_WIDTH :: u32 where "FONT_WIDTH = 8"
definition FONT_HEIGHT :: u32 where "FONT_HEIGHT = 16"

record fb =
  fb_address :: "u32 list"
  fb_width :: u64
  fb_height :: u64
  fb_pitch :: u64
  fb_bpp :: u16
  fb_initialized :: bool

section \<open>The font\<close>

text \<open>Glyphs of the control characters, of \<open>0x20\<close> to \<open>0x4F\<close> and of \<open>0x50\<close> to \<open>0x7F\<close>.\<close>

definition vga_font_control :: "u8 list list" where
  "vga_font_control = replicate 32 (replicate 16 0)"

definition vga_font_upper :: "u8 list list" where
  "vga_font_upper =
  [[0, 0, 0, 0, 0, 0, 0, 0, 0, 0, 0, 0, 0, 0, 0, 0],
   [0, 0, 0x18, 0x3c, 0x3c, 0x3c, 0x18, 0x18, 0x18, 0, 0x18, 0x18, 0, 0, 0, 0],
   [0, 0x63, 0x63, 0x63, 0x22, 0, 0, 0, 0, 0, 0, 0, 0, 0, 0, 0],
   [0, 0, 0, 0x36, 0x36, 0x7f, 0x36, 0x36, 0x36, 0x7f, 0x36, 0x36, 0, 0, 0, 0],
   [0xc, 0xc, 0x3e, 0x63, 0x61, 0x60, 0x3e, 3, 3, 0x43, 0x63, 0x3e, 0xc, 0xc, 0, 0],
   [0, 0, 0, 0, 0x61, 0x63, 6, 0xc, 0x18, 0x30, 0x63, 0x43, 0, 0, 0, 0],
   [0, 0, 0x1c, 0x36, 0x36, 0x1c, 0x6e, 0x3b, 0x33, 0x33, 0x33, 0x6e, 0, 0, 0, 0],
   [0, 0xc, 0xc, 0xc, 0x18, 0, 0, 0, 0, 0, 0, 0, 0, 0, 0, 0],
   [0, 0, 0xc, 0x18, 0x30, 0x30, 0x30, 0x30, 0x30, 0x30, 0x18, 0xc, 0, 0, 0, 0],
   [0, 0, 0x30, 0x18, 0xc, 0xc, 0xc, 0xc, 0xc, 0xc, 0x18, 0x30, 0, 0, 0, 0],
   [0, 0, 0, 0, 0, 0x66, 0x3c, 0xff, 0x3c, 0x66, 0, 0, 0, 0, 0, 0],
   [0, 0, 0, 0, 0, 0x18, 0x18, 0x7e, 0x18, 0x18, 0, 0, 0, 0, 0, 0],
   [0, 0, 0, 0, 0, 0, 0, 0, 0, 0, 0x18, 0x18, 0x30, 0, 0, 0],
   [0, 0, 0, 0, 0, 0, 0, 0xfe, 0, 0, 0, 0, 0, 0, 0, 0],
   [0, 0, 0, 0, 0, 0, 0, 0, 0, 0, 0x18, 0x18, 0, 0, 0, 0],
   [0, 0, 0, 0, 1, 3, 6, 0xc, 0x18, 0x30, 0x60, 0x40, 0, 0, 0, 0],
   [0, 0, 0x3e, 0x63, 0x63, 0x67, 0x6f, 0x7b, 0x73, 0x63, 0x63, 0x3e, 0, 0, 0, 0],
   [0, 0, 0xc, 0x1c, 0x3c, 0xc, 0xc, 0xc, 0xc, 0xc, 0xc, 0x3f, 0, 0, 0, 0],
   [0, 0, 0x3e, 0x63, 3, 3, 6, 0xc, 0x18, 0x30, 0x63, 0x7f, 0, 0, 0, 0],
   [0, 0, 0x3e, 0x63, 3, 3, 0x1e, 3, 3, 3, 0x63, 0x3e, 0, 0, 0, 0],
   [0, 0, 6, 0xe, 0x1e, 0x36, 0x66, 0x7f, 6, 6, 6, 0xf, 0, 0, 0, 0],
   [0, 0, 0x7f, 0x60, 0x60, 0x60, 0x7e, 3, 3, 3, 0x63, 0x3e, 0, 0, 0, 0],
   [0, 0, 0x1c, 0x30, 0x60, 0x60, 0x7e, 0x63, 0x63, 0x63, 0x63, 0x3e, 0, 0, 0, 0],
   [0, 0, 0x7f, 0x63, 3, 3, 6, 0xc, 0x18, 0x18, 0x18, 0x18, 0, 0, 0, 0],
   [0, 0, 0x3e, 0x63, 0x63, 0x63, 0x3e, 0x63, 0x63, 0x63, 0x63, 0x3e, 0, 0, 0, 0],
   [0, 0, 0x3e, 0x63, 0x63, 0x63, 0x3f, 3, 3, 3, 6, 0x3c, 0, 0, 0, 0],
   [0, 0, 0, 0, 0x18, 0x18, 0, 0, 0, 0x18, 0x18, 0, 0, 0, 0, 0],
   [0, 0, 0, 0, 0x18, 0x18, 0, 0, 0, 0x18, 0x18, 0x30, 0, 0, 0, 0],
   [0, 0, 0, 6, 0xc, 0x18, 0x30, 0x60, 0x30, 0x18, 0xc, 6, 0, 0, 0, 0],
   [0, 0, 0, 0, 0, 0x7e, 0, 0, 0x7e, 0, 0, 0, 0, 0, 0, 0],
   [0, 0, 0, 0x60, 0x30, 0x18, 0xc, 6, 0xc, 0x18, 0x30, 0x60, 0, 0, 0, 0],
   [0, 0, 0x3e, 0x63, 0x63, 6, 0xc, 0xc, 0xc, 0, 0xc, 0xc, 0, 0, 0, 0],
   [0, 0, 0, 0x3e, 0x63, 0x63, 0x6f, 0x6f, 0x6f, 0x6e, 0x60, 0x3e, 0, 0, 0, 0],
   [0, 0, 8, 0x1c, 0x36, 0x63, 0x63, 0x7f, 0x63, 0x63, 0x63, 0x63, 0, 0, 0, 0],
   [0, 0, 0x7e, 0x33, 0x33, 0x33, 0x3e, 0x33, 0x33, 0x33, 0x33, 0x7e, 0, 0, 0, 0],
   [0, 0, 0x1e, 0x33, 0x61, 0x60, 0x60, 0x60, 0x60, 0x61, 0x33, 0x1e, 0, 0, 0, 0],
   [0, 0, 0x7c, 0x36, 0x33, 0x33, 0x33, 0x33, 0x33, 0x33, 0x36, 0x7c, 0, 0, 0, 0],
   [0, 0, 0x7f, 0x33, 0x31, 0x34, 0x3c, 0x34, 0x30, 0x31, 0x33, 0x7f, 0, 0, 0, 0],
   [0, 0, 0x7f, 0x33, 0x31, 0x34, 0x3c, 0x34, 0x30, 0x30, 0x30, 0x78, 0, 0, 0, 0],
   [0, 0, 0x1e, 0x33, 0x61, 0x60, 0x60, 0x6f, 0x63, 0x63, 0x37, 0x1d, 0, 0, 0, 0],
   [0, 0, 0x63, 0x63, 0x63, 0x63, 0x7f, 0x63, 0x63, 0x63, 0x63, 0x63, 0, 0, 0, 0],
   [0, 0, 0x3c, 0x18, 0x18, 0x18, 0x18, 0x18, 0x18, 0x18, 0x18, 0x3c, 0, 0, 0, 0],
   [0, 0, 0xf, 6, 6, 6, 6, 6, 6, 0x66, 0x66, 0x3c, 0, 0, 0, 0],
   [0, 0, 0x73, 0x33, 0x36, 0x36, 0x3c, 0x36, 0x36, 0x33, 0x33, 0x73, 0, 0, 0, 0],
   [0, 0, 0x78, 0x30, 0x30, 0x30, 0x30, 0x30, 0x30, 0x31, 0x33, 0x7f, 0, 0, 0, 0],
   [0, 0, 0x63, 0x77, 0x7f, 0x7f, 0x6b, 0x63, 0x63, 0x63, 0x63, 0x63, 0, 0, 0, 0],
   [0, 0, 0x63, 0x73, 0x7b, 0x7f, 0x6f, 0x67, 0x63, 0x63, 0x63, 0x63, 0, 0, 0, 0],
   [0, 0, 0x3e, 0x63, 0x63, 0x63, 0x63, 0x63, 0x63, 0x63, 0x63, 0x3e, 0, 0, 0, 0]]"

definition vga_font_lower :: "u8 list list" where
  "vga_font_lower =
  [[0, 0, 0x7e, 0x33, 0x33, 0x33, 0x3e, 0x30, 0x30, 0x30, 0x30, 0x78, 0, 0, 0, 0],
   [0, 0, 0x3e, 0x63, 0x63, 0x63, 0x63, 0x63, 0x63, 0x6b, 0x6f, 0x3e, 6, 3, 0, 0],
   [0, 0, 0x7e, 0x33, 0x33, 0x33, 0x3e, 0x36, 0x36, 0x33, 0x33, 0x73, 0, 0, 0, 0],
   [0, 0, 0x3e, 0x63, 0x63, 0x30, 0x1c, 6, 3, 0x63, 0x63, 0x3e, 0, 0, 0, 0],
   [0, 0, 0xff, 0xdb, 0x99, 0x18, 0x18, 0x18, 0x18, 0x18, 0x18, 0x3c, 0, 0, 0, 0],
   [0, 0, 0x63, 0x63, 0x63, 0x63, 0x63, 0x63, 0x63, 0x63, 0x63, 0x3e, 0, 0, 0, 0],
   [0, 0, 0x63, 0x63, 0x63, 0x63, 0x63, 0x63, 0x63, 0x36, 0x1c, 8, 0, 0, 0, 0],
   [0, 0, 0x63, 0x63, 0x63, 0x63, 0x6b, 0x6b, 0x6b, 0x7f, 0x36, 0x36, 0, 0, 0, 0],
   [0, 0, 0x63, 0x63, 0x36, 0x36, 0x1c, 0x1c, 0x36, 0x36, 0x63, 0x63, 0, 0, 0, 0],
   [0, 0, 0xc3, 0xc3, 0x66, 0x66, 0x3c, 0x18, 0x18, 0x18, 0x18, 0x3c, 0, 0, 0, 0],
   [0, 0, 0x7f, 0x63, 0x43, 6, 0xc, 0x18, 0x30, 0x61, 0x63, 0x7f, 0, 0, 0, 0],
   [0, 0, 0x3c, 0x30, 0x30, 0x30, 0x30, 0x30, 0x30, 0x30, 0x30, 0x3c, 0, 0, 0, 0],
   [0, 0, 0, 0x40, 0x60, 0x30, 0x18, 0xc, 6, 3, 1, 0, 0, 0, 0, 0],
   [0, 0, 0x3c, 0xc, 0xc, 0xc, 0xc, 0xc, 0xc, 0xc, 0xc, 0x3c, 0, 0, 0, 0],
   [8, 0x1c, 0x36, 0x63, 0, 0, 0, 0, 0, 0, 0, 0, 0, 0, 0, 0],
   [0, 0, 0, 0, 0, 0, 0, 0, 0, 0, 0, 0, 0xff, 0, 0, 0],
   [0, 0x18, 0x18, 0xc, 0, 0, 0, 0, 0, 0, 0, 0, 0, 0, 0, 0],
   [0, 0, 0, 0, 0, 0x3c, 6, 0x3e, 0x66, 0x66, 0x66, 0x3b, 0, 0, 0, 0],
   [0, 0, 0x70, 0x30, 0x30, 0x3c, 0x36, 0x33, 0x33, 0x33, 0x33, 0x6e, 0, 0, 0, 0],
   [0, 0, 0, 0, 0, 0x3e, 0x63, 0x60, 0x60, 0x60, 0x63, 0x3e, 0, 0, 0, 0],
   [0, 0, 0xe, 6, 6, 0x1e, 0x36, 0x66, 0x66, 0x66, 0x66, 0x3b, 0, 0, 0, 0],
   [0, 0, 0, 0, 0, 0x3e, 0x63, 0x7f, 0x60, 0x60, 0x63, 0x3e, 0, 0, 0, 0],
   [0, 0, 0x1c, 0x36, 0x32, 0x30, 0x7c, 0x30, 0x30, 0x30, 0x30, 0x78, 0, 0, 0, 0],
   [0, 0, 0, 0, 0, 0x3b, 0x66, 0x66, 0x66, 0x66, 0x3e, 6, 0x66, 0x3c, 0, 0],
   [0, 0, 0x70, 0x30, 0x30, 0x36, 0x3b, 0x33, 0x33, 0x33, 0x33, 0x73, 0, 0, 0, 0],
   [0, 0, 0xc, 0xc, 0, 0x1c, 0xc, 0xc, 0xc, 0xc, 0xc, 0x1e, 0, 0, 0, 0],
   [0, 0, 6, 6, 0, 0xe, 6, 6, 6, 6, 6, 0x66, 0x66, 0x3c, 0, 0],
   [0, 0, 0x70, 0x30, 0x30, 0x33, 0x36, 0x3c, 0x3c, 0x36, 0x33, 0x73, 0, 0, 0, 0],
   [0, 0, 0x1c, 0xc, 0xc, 0xc, 0xc, 0xc, 0xc, 0xc, 0xc, 0x1e, 0, 0, 0, 0],
   [0, 0, 0, 0, 0, 0x6e, 0x7f, 0x6b, 0x6b, 0x6b, 0x6b, 0x6b, 0, 0, 0, 0],
   [0, 0, 0, 0, 0, 0x6e, 0x33, 0x33, 0x33, 0x33, 0x33, 0x33, 0, 0, 0, 0],
   [0, 0, 0, 0, 0, 0x3e, 0x63, 0x63, 0x63, 0x63, 0x63, 0x3e, 0, 0, 0, 0],
   [0, 0, 0, 0, 0, 0x6e, 0x33, 0x33, 0x33, 0x33, 0x3e, 0x30, 0x30, 0x78, 0, 0],
   [0, 0, 0, 0, 0, 0x3b, 0x66, 0x66, 0x66, 0x66, 0x3e, 6, 6, 0xf, 0, 0],
   [0, 0, 0, 0, 0, 0x6e, 0x3b, 0x33, 0x30, 0x30, 0x30, 0x78, 0, 0, 0, 0],
   [0, 0, 0, 0, 0, 0x3e, 0x63, 0x30, 0x1c, 6, 0x63, 0x3e, 0, 0, 0, 0],
   [0, 0, 8, 0x18, 0x18, 0x7e, 0x18, 0x18, 0x18, 0x18, 0x1b, 0xe, 0, 0, 0, 0],
   [0, 0, 0, 0, 0, 0x66, 0x66, 0x66, 0x66, 0x66, 0x66, 0x3b, 0, 0, 0, 0],
   [0, 0, 0, 0, 0, 0x63, 0x63, 0x63, 0x63, 0x36, 0x1c, 8, 0, 0, 0, 0],
   [0, 0, 0, 0, 0, 0x63, 0x63, 0x6b, 0x6b, 0x6b, 0x7f, 0x36, 0, 0, 0, 0],
   [0, 0, 0, 0, 0, 0x63, 0x36, 0x1c, 0x1c, 0x36, 0x63, 0x63, 0, 0, 0, 0],
   [0, 0, 0, 0, 0, 0x63, 0x63, 0x63, 0x63, 0x63, 0x3f, 3, 6, 0x3c, 0, 0],
   [0, 0, 0, 0, 0, 0x7f, 0x66, 0xc, 0x18, 0x30, 0x63, 0x7f, 0, 0, 0, 0],
   [0, 0, 0xe, 0x18, 0x18, 0x18, 0x70, 0x18, 0x18, 0x18, 0x18, 0xe, 0, 0, 0, 0],
   [0, 0, 0x18, 0x18, 0x18, 0x18, 0, 0x18, 0x18, 0x18, 0x18, 0x18, 0, 0, 0, 0],
   [0, 0, 0x70, 0x18, 0x18, 0x18, 0xe, 0x18, 0x18, 0x18, 0x18, 0x70, 0, 0, 0, 0],
   [0, 0, 0x3b, 0x6e, 0, 0, 0, 0, 0, 0, 0, 0, 0, 0, 0, 0],
   [0, 0, 0, 0, 0, 0, 0, 0, 0, 0, 0, 0, 0, 0, 0, 0]]"

definition vga_font :: "u8 list list" where
  "vga_font = vga_font_control @ vga_font_upper @ vga_font_lower"

section \<open>Operations\<close>

text \<open>The first framebuffer of the bootloader's response, if there is one.\<close>

definition framebuffer_init :: "fb option \<Rightarrow> fb \<Rightarrow> int \<times> fb" where
  "framebuffer_init resp s = (case resp of
      None \<Rightarrow> (-1, s)
    | Some r \<Rightarrow> (0, \<lparr>fb_address = fb_address r, fb_width = fb_width r, fb_height = fb_height r,
                    fb_pitch = fb_pitch r, fb_bpp = fb_bpp r, fb_initialized = True\<rparr>))"

definition fb_wr :: "nat \<Rightarrow> u32 \<Rightarrow> fb \<Rightarrow> fb option" where
  "fb_wr i color s = do { a \<leftarrow> wr (fb_address s) i color; Some (s\<lparr>fb_address := a\<rparr>) }"

definition framebuffer_put_pixel :: "u32 \<Rightarrow> u32 \<Rightarrow> u32 \<Rightarrow> fb \<Rightarrow> fb option" where
  "framebuffer_put_pixel x y color s =
     (if \<not> fb_initialized s then Some s
      else if fb_width s \<le> ucast x \<or> fb_height s \<le> ucast y then Some s
      else fb_wr (unat (ucast y * (fb_pitch s div 4) + ucast x)) color s)"

definition framebuffer_clear :: "u32 \<Rightarrow> fb \<Rightarrow> fb option" where
  "framebuffer_clear color s =
     (if \<not> fb_initialized s then Some s
      else for_range (\<lambda>y s. for_range (\<lambda>x s.
             fb_wr (unat (of_nat y * (fb_pitch s div 4) + of_nat x)) color s)
           0 (unat (fb_width s)) s) 0 (unat (fb_height s)) s)"

text \<open>The 32-bit column counter runs to the 64-bit width; it only ends below \<open>2 ^ 32\<close>.\<close>

definition for_columns :: "(nat \<Rightarrow> fb \<Rightarrow> fb option) \<Rightarrow> fb \<Rightarrow> fb option" where
  "for_columns f s = (if unat (fb_width s) < 2 ^ 32 then for_range f 0 (unat (fb_width s)) s else None)"

definition framebuffer_scroll :: "u32 \<Rightarrow> fb \<Rightarrow> fb option" where
  "framebuffer_scroll font_height s =
     (if \<not> fb_initialized s then Some s
      else do {
        let pixels_per_row = (ucast (fb_pitch s div 4) :: u32);
        let rows_to_copy = (ucast (fb_height s - ucast font_height) :: u32);
        s1 \<leftarrow> for_range (\<lambda>y s.
                let dst = unat (of_nat y * pixels_per_row);
                    src = unat ((of_nat y + font_height) * pixels_per_row)
                in for_columns (\<lambda>x s. do { v \<leftarrow> rd (fb_address s) (src + x); fb_wr (dst + x) v s }) s)
              0 (unat rows_to_copy) s;
        for_range (\<lambda>y s. for_columns (\<lambda>x s.
              fb_wr (unat (of_nat y * pixels_per_row + of_nat x)) FB_DEFAULT_BG s) s)
          (unat rows_to_copy) (unat (ucast (fb_height s1) :: u32) - unat rows_to_copy) s1 })"

definition glyph_index :: "char \<Rightarrow> nat" where
  "glyph_index c = (if 0x7E < (of_char c :: nat) then 0x3F else of_char c)"

definition framebuffer_draw_char :: "u32 \<Rightarrow> u32 \<Rightarrow> char \<Rightarrow> u32 \<Rightarrow> u32 \<Rightarrow> fb \<Rightarrow> fb option" where
  "framebuffer_draw_char px py c fg bg s =
     (if \<not> fb_initialized s then Some s
      else do {
        glyph \<leftarrow> rd vga_font (glyph_index c);
        let pixels_per_row = (ucast (fb_pitch s div 4) :: u32);
        for_range (\<lambda>row s. do {
          bits \<leftarrow> rd glyph row;
          for_range (\<lambda>col s.
            let x = px + of_nat col; y = py + of_nat row in
            if fb_width s \<le> ucast x \<or> fb_height s \<le> ucast y then Some s
            else fb_wr (unat (y * pixels_per_row + x))
                   (if bits AND drop_bit col 0x80 \<noteq> 0 then fg else bg) s) 0 8 s }) 0 16 s })"

definition framebuffer_get_text_dimensions :: "fb \<Rightarrow> u32 \<times> u32" where
  "framebuffer_get_text_dimensions s =
     (ucast (fb_width s div ucast FONT_WIDTH), ucast (fb_height s div ucast FONT_HEIGHT))"

section \<open>Well-formed framebuffers\<close>

abbreviation fbw :: "fb \<Rightarrow> nat" where "fbw s \<equiv> unat (fb_width s)"
abbreviation fbh :: "fb \<Rightarrow> nat" where "fbh s \<equiv> unat (fb_height s)"

definition ppr :: "fb \<Rightarrow> nat" where
  "ppr s = unat (fb_pitch s) div 4"

text \<open>The lines fit the pitch, the screen fits its memory, and pixel indices fit 32 bits.\<close>

definition fb_wf :: "fb \<Rightarrow> bool" where
  "fb_wf s \<longleftrightarrow> fbw s \<le> ppr s \<and> fbh s * ppr s \<le> length (fb_address s) \<and> fbh s * ppr s < 2 ^ 32 \<and>
     fbw s < 2 ^ 32 \<and> fbh s < 2 ^ 32 \<and> ppr s < 2 ^ 32 \<and> 16 \<le> fbh s"

definition pixel :: "fb \<Rightarrow> nat \<Rightarrow> nat \<Rightarrow> u32" where
  "pixel s x y = fb_address s ! (y * ppr s + x)"

text \<open>Only the pixels differ.\<close>

definition fb_same :: "fb \<Rightarrow> fb \<Rightarrow> bool" where
  "fb_same s s' \<longleftrightarrow> (\<exists>a. s' = s\<lparr>fb_address := a\<rparr> \<and> length a = length (fb_address s))"

lemma fb_same_refl [simp]: "fb_same s s"
proof -
  have "s = s\<lparr>fb_address := fb_address s\<rparr>" by simp
  then show ?thesis unfolding fb_same_def by blast
qed

lemma fb_same_trans: "fb_same a b \<Longrightarrow> fb_same b c \<Longrightarrow> fb_same a c"
  unfolding fb_same_def by auto

lemma fb_same_dims:
  assumes "fb_same s s'"
  shows "fb_width s' = fb_width s" "fb_height s' = fb_height s" "fb_pitch s' = fb_pitch s"
    "fb_initialized s' = fb_initialized s" "ppr s' = ppr s" "length (fb_address s') = length (fb_address s)"
  using assms by (auto simp: fb_same_def ppr_def)

lemma fb_same_wf: "fb_same s s' \<Longrightarrow> fb_wf s \<Longrightarrow> fb_wf s'"
  using fb_same_dims[of s s'] by (simp add: fb_wf_def)

lemma fb_wr_spec:
  "i < length (fb_address s) \<Longrightarrow> \<exists>s'. fb_wr i v s = Some s' \<and> fb_same s s' \<and> fb_address s' = (fb_address s)[i := v]"
  by (auto simp: fb_wr_def fb_same_def)

lemma pixel_bound: "fb_wf s \<Longrightarrow> x < fbw s \<Longrightarrow> y < fbh s \<Longrightarrow> y * ppr s + x < fbh s * ppr s"
proof -
  assume wf: "fb_wf s" and x: "x < fbw s" and y: "y < fbh s"
  have "y * ppr s + x < Suc y * ppr s" using wf x by (simp add: fb_wf_def)
  also have "\<dots> \<le> fbh s * ppr s" using y by (intro mult_right_mono) simp_all
  finally show ?thesis .
qed

lemma pixel_index_inj:
  assumes "fb_wf s" "x < fbw s" "x' < fbw s" "y * ppr s + x = y' * ppr s + x'"
  shows "x = x' \<and> y = y'"
proof -
  have l: "x < ppr s" "x' < ppr s" using assms(1-3) by (auto simp: fb_wf_def)
  have "(y * ppr s + x) div ppr s = (y' * ppr s + x') div ppr s" using assms(4) by simp
  then have "y = y'" using l by simp
  then show ?thesis using assms(4) by simp
qed

lemma pixel_upd:
  assumes "fb_wf s" "fb_same s s'" "fb_address s' = (fb_address s)[y * ppr s + x := v]"
    "x < fbw s" "y < fbh s" "x' < fbw s" "y' < fbh s"
  shows "pixel s' x' y' = (if x' = x \<and> y' = y then v else pixel s x' y')"
proof -
  have "y * ppr s + x < length (fb_address s)" using pixel_bound[OF assms(1,4,5)] assms(1) by (simp add: fb_wf_def)
  then show ?thesis
    using pixel_index_inj[OF assms(1) assms(6,4), of y' y] assms(3) fb_same_dims(5)[OF assms(2)]
    by (auto simp: pixel_def nth_list_update)
qed

text \<open>The index computed in 32-bit arithmetic is the index of the pixel.\<close>

lemma unat_ucast_u32 [simp]: "unat (x :: u64) < 2 ^ 32 \<Longrightarrow> unat (ucast x :: u32) = unat x"
  by (simp add: unsigned_ucast_eq take_bit_nat_eq_self)

lemma unat_ucast_u64 [simp]: "unat (ucast (x :: u32) :: u64) = unat x"
  using unsigned_less[of x, where ?'a = nat] by (simp add: unsigned_ucast_eq take_bit_nat_eq_self)

lemma unat_mult_add_u32:
  "unat a * unat b + unat c < 2 ^ 32 \<Longrightarrow> unat (a * b + c :: u32) = unat a * unat b + unat c"
  by (simp add: unat_word_ariths)

lemma unat_mult_add_u64:
  "unat a * unat b + unat c < 2 ^ 64 \<Longrightarrow> unat (a * b + c :: u64) = unat a * unat b + unat c"
  by (simp add: unat_word_ariths)

lemma unat_add_of_nat_u32: "unat a + n < 2 ^ 32 \<Longrightarrow> unat (a + of_nat n :: u32) = unat a + n"
  by (simp add: unat_word_ariths unsigned_of_nat take_bit_nat_eq_self)

lemma ucast_le_u64: "a \<le> ucast (x :: u32) \<longleftrightarrow> unat (a :: u64) \<le> unat x"
  by (simp add: word_le_nat_alt)

lemma ppr_ucast: "fb_wf s \<Longrightarrow> unat (ucast (fb_pitch s div 4) :: u32) = ppr s"
proof -
  assume "fb_wf s"
  moreover have "unat (fb_pitch s div 4) = ppr s" by (simp add: ppr_def unat_div_distrib)
  ultimately show ?thesis by (simp add: fb_wf_def)
qed

text \<open>One pixel of a glyph: skipped off the screen, written on it.\<close>

lemma draw_pixel:
  fixes x y :: u32
  assumes wf: "fb_wf s"
  shows "\<exists>s'. (if fb_width s \<le> ucast x \<or> fb_height s \<le> ucast y then Some s
            else fb_wr (unat (y * ucast (fb_pitch s div 4) + x)) v s) = Some s' \<and> fb_same s s' \<and>
     (\<forall>x' < fbw s. \<forall>y' < fbh s. pixel s' x' y' = (if x' = unat x \<and> y' = unat y then v else pixel s x' y'))"
proof (cases "fb_width s \<le> ucast x \<or> fb_height s \<le> ucast y")
  case True
  then show ?thesis by (intro exI[of _ s]) (auto simp: ucast_le_u64)
next
  case False
  then have xy: "unat x < fbw s" "unat y < fbh s" by (auto simp: ucast_le_u64)
  have b: "unat y * ppr s + unat x < fbh s * ppr s" by (rule pixel_bound[OF wf xy])
  then have "unat (y * ucast (fb_pitch s div 4) + x) = unat y * ppr s + unat x"
    using wf by (subst unat_mult_add_u32) (simp_all add: ppr_ucast[OF wf] fb_wf_def)
  moreover obtain s' where "fb_wr (unat y * ppr s + unat x) v s = Some s'" "fb_same s s'"
      "fb_address s' = (fb_address s)[unat y * ppr s + unat x := v]"
    using fb_wr_spec[of "unat y * ppr s + unat x" s v] b wf by (auto simp: fb_wf_def)
  ultimately show ?thesis using False pixel_upd[OF wf _ _ xy] by (intro exI[of _ s']) auto
qed

definition glyph_color :: "u8 \<Rightarrow> nat \<Rightarrow> u32 \<Rightarrow> u32 \<Rightarrow> u32" where
  "glyph_color bits col fg bg = (if bits AND drop_bit col 0x80 \<noteq> 0 then fg else bg)"

lemma draw_row:
  fixes px y :: u32
  assumes wf: "fb_wf s" and px: "unat px + 8 \<le> 2 ^ 32" and pitch: "fb_pitch s0 = fb_pitch s"
  shows "\<exists>s'. for_range (\<lambda>col s. let x = px + of_nat col in
            if fb_width s \<le> ucast x \<or> fb_height s \<le> ucast y then Some s
            else fb_wr (unat (y * ucast (fb_pitch s0 div 4) + x)) (if bits AND drop_bit col 0x80 \<noteq> 0 then fg else bg) s) 0 8 s = Some s' \<and>
     fb_same s s' \<and>
     (\<forall>x' < fbw s. \<forall>y' < fbh s. pixel s' x' y' =
        (if y' = unat y \<and> unat px \<le> x' \<and> x' < unat px + 8 then glyph_color bits (x' - unat px) fg bg
         else pixel s x' y'))"
proof -
  let ?P = "\<lambda>col s'. fb_same s s' \<and> (\<forall>x' < fbw s. \<forall>y' < fbh s. pixel s' x' y' =
        (if y' = unat y \<and> unat px \<le> x' \<and> x' < unat px + col then glyph_color bits (x' - unat px) fg bg
         else pixel s x' y'))"
  let ?f = "\<lambda>col s. let x = px + of_nat col in
            if fb_width s \<le> ucast x \<or> fb_height s \<le> ucast y then Some s
            else fb_wr (unat (y * ucast (fb_pitch s0 div 4) + x)) (if bits AND drop_bit col 0x80 \<noteq> 0 then fg else bg) s"
  have "\<exists>s'. for_range ?f 0 8 s = Some s' \<and> ?P (0 + 8) s'"
  proof (rule for_range_invariant)
    show "?P 0 s" by auto
    fix i s1 assume i: "0 \<le> i" "i < 0 + 8" and P: "?P i s1"
    note dims = fb_same_dims[OF conjunct1[OF P]]
    have wf1: "fb_wf s1" using fb_same_wf[OF conjunct1[OF P] wf] .
    have x: "unat (px + of_nat i) = unat px + i" using px i by (intro unat_add_of_nat_u32) simp
    have "fb_pitch s1 = fb_pitch s0" using dims pitch by simp
    then have "?f i s1 = (if fb_width s1 \<le> ucast (px + of_nat i) \<or> fb_height s1 \<le> ucast y then Some s1
        else fb_wr (unat (y * ucast (fb_pitch s1 div 4) + (px + of_nat i))) (glyph_color bits i fg bg) s1)"
      by (simp only: Let_def glyph_color_def)
    with draw_pixel[OF wf1, of "px + of_nat i" y "glyph_color bits i fg bg", unfolded x]
    obtain s2 where s2: "?f i s1 = Some s2" "fb_same s1 s2"
      "\<forall>x' < fbw s. \<forall>y' < fbh s. pixel s2 x' y' =
         (if x' = unat px + i \<and> y' = unat y then glyph_color bits i fg bg else pixel s1 x' y')"
      unfolding dims by metis
    have "?P (Suc i) s2" using s2(2,3) P fb_same_trans by (auto simp: less_Suc_eq)
    with s2(1) show "\<exists>s'. ?f i s1 = Some s' \<and> ?P (Suc i) s'" by blast
  qed
  then show ?thesis by auto
qed

lemma glyph_index_bound: "glyph_index c < 128"
  by (simp add: glyph_index_def)

lemma font_shape: "length vga_font = 128" "\<forall>g \<in> set vga_font. length g = 16"
proof -
  show "length vga_font = 128"
    by (simp add: vga_font_def vga_font_control_def vga_font_upper_def vga_font_lower_def)
  have "\<forall>g \<in> set vga_font_control. length g = 16" by (simp add: vga_font_control_def)
  moreover have "\<forall>g \<in> set vga_font_upper. length g = 16" by (simp add: vga_font_upper_def)
  moreover have "\<forall>g \<in> set vga_font_lower. length g = 16" by (simp add: vga_font_lower_def)
  ultimately show "\<forall>g \<in> set vga_font. length g = 16" by (auto simp: vga_font_def)
qed

lemma draw_char_spec:
  fixes px py :: u32
  assumes wf: "fb_wf s" and init: "fb_initialized s" and px: "unat px + 8 \<le> 2 ^ 32" and py: "unat py + 16 \<le> 2 ^ 32"
  shows "\<exists>s'. framebuffer_draw_char px py c fg bg s = Some s' \<and> fb_same s s' \<and>
     (\<forall>x < fbw s. \<forall>y < fbh s. pixel s' x y =
        (if unat px \<le> x \<and> x < unat px + 8 \<and> unat py \<le> y \<and> y < unat py + 16
         then glyph_color (vga_font ! glyph_index c ! (y - unat py)) (x - unat px) fg bg
         else pixel s x y))"
proof -
  define glyph where "glyph = vga_font ! glyph_index c"
  have g: "rd vga_font (glyph_index c) = Some glyph" and gl: "length glyph = 16"
    using glyph_index_bound[of c] font_shape by (auto simp: glyph_def)
  let ?P = "\<lambda>row s'. fb_same s s' \<and> (\<forall>x < fbw s. \<forall>y < fbh s. pixel s' x y =
        (if unat px \<le> x \<and> x < unat px + 8 \<and> unat py \<le> y \<and> y < unat py + row
         then glyph_color (glyph ! (y - unat py)) (x - unat px) fg bg else pixel s x y))"
  let ?f = "\<lambda>row s1. do {
          bits \<leftarrow> rd glyph row;
          for_range (\<lambda>col s.
            let x = px + of_nat col; y = py + of_nat row in
            if fb_width s \<le> ucast x \<or> fb_height s \<le> ucast y then Some s
            else fb_wr (unat (y * ucast (fb_pitch s div 4) + x))
                   (if bits AND drop_bit col 0x80 \<noteq> 0 then fg else bg) s) 0 8 s1 }"
  let ?g = "\<lambda>row s1. do {
          bits \<leftarrow> rd glyph row;
          for_range (\<lambda>col s2. let x = px + of_nat col in
            if fb_width s2 \<le> ucast x \<or> fb_height s2 \<le> ucast (py + of_nat row) then Some s2
            else fb_wr (unat ((py + of_nat row) * ucast (fb_pitch s div 4) + x))
                   (if bits AND drop_bit col 0x80 \<noteq> 0 then fg else bg) s2) 0 8 s1 }"
  have "\<exists>s'. for_range ?g 0 16 s = Some s' \<and> ?P (0 + 16) s'"
  proof (rule for_range_invariant)
    show "?P 0 s" by auto
    fix i s1 assume i: "0 \<le> i" "i < 0 + 16" and P: "?P i s1"
    note dims = fb_same_dims[OF conjunct1[OF P]]
    have wf1: "fb_wf s1" using fb_same_wf[OF conjunct1[OF P] wf] .
    have y: "unat (py + of_nat i) = unat py + i" using py i by (intro unat_add_of_nat_u32) simp
    have b: "rd glyph i = Some (glyph ! i)" using gl i by simp
    obtain s2 where s2: "?g i s1 = Some s2" "fb_same s1 s2"
      "\<forall>x < fbw s. \<forall>y' < fbh s. pixel s2 x y' =
         (if y' = unat py + i \<and> unat px \<le> x \<and> x < unat px + 8 then glyph_color (glyph ! i) (x - unat px) fg bg
          else pixel s1 x y')"
      using draw_row[OF wf1 px, of s "py + of_nat i" "glyph ! i" fg bg] dims b y by auto
    have "?P (Suc i) s2" using s2(2,3) P fb_same_trans by (auto simp: less_Suc_eq)
    with s2(1) show "\<exists>s'. ?g i s1 = Some s' \<and> ?P (Suc i) s'" by blast
  qed
  then show ?thesis using g init unfolding framebuffer_draw_char_def glyph_def[symmetric] Let_def by auto
qed

text \<open>The other operations stay in the pixel memory.\<close>

lemma put_pixel_safe:
  assumes wf: "fb_wf s"
  shows "\<exists>s'. framebuffer_put_pixel x y v s = Some s' \<and> fb_same s s'"
proof (cases "\<not> fb_initialized s \<or> fb_width s \<le> ucast x \<or> fb_height s \<le> ucast y")
  case True
  then show ?thesis by (auto simp: framebuffer_put_pixel_def)
next
  case False
  then have xy: "unat x < fbw s" "unat y < fbh s" by (auto simp: ucast_le_u64)
  have b: "unat y * ppr s + unat x < fbh s * ppr s" by (rule pixel_bound[OF wf xy])
  have "unat (ucast y * (fb_pitch s div 4) + ucast x) = unat y * ppr s + unat x"
    using b wf by (subst unat_mult_add_u64) (simp_all add: ppr_def unat_div_distrib fb_wf_def)
  then show ?thesis using False fb_wr_spec[of "unat y * ppr s + unat x" s v] b wf
    by (auto simp: framebuffer_put_pixel_def fb_wf_def)
qed

lemma fb_loop_safe:
  assumes "fb_same s0 s" "\<And>i s. a \<le> i \<Longrightarrow> i < a + n \<Longrightarrow> fb_same s0 s \<Longrightarrow> \<exists>s'. f i s = Some s' \<and> fb_same s0 s'"
  shows "\<exists>s'. for_range f a n s = Some s' \<and> fb_same s0 s'"
  using for_range_invariant[of "\<lambda>_ s. fb_same s0 s" a s n f] assms by blast

lemma clear_safe:
  assumes wf: "fb_wf s"
  shows "\<exists>s'. framebuffer_clear v s = Some s' \<and> fb_same s s'"
proof (cases "fb_initialized s")
  case True
  have "\<exists>s'. for_range (\<lambda>y s. for_range (\<lambda>x s.
             fb_wr (unat (of_nat y * (fb_pitch s div 4) + of_nat x)) v s)
           0 (unat (fb_width s)) s) 0 (unat (fb_height s)) s = Some s' \<and> fb_same s s'"
  proof (rule fb_loop_safe)
    fix y s1 assume y: "0 \<le> y" "y < 0 + unat (fb_height s)" and s1: "fb_same s s1"
    show "\<exists>s'. for_range (\<lambda>x s. fb_wr (unat (of_nat y * (fb_pitch s div 4) + of_nat x)) v s)
        0 (unat (fb_width s1)) s1 = Some s' \<and> fb_same s s'"
    proof (rule fb_loop_safe[OF s1])
      fix x s2 assume x: "0 \<le> x" "x < 0 + unat (fb_width s1)" and s2: "fb_same s s2"
      have b: "y * ppr s + x < fbh s * ppr s" using pixel_bound[OF wf, of x y] x y fb_same_dims[OF s1] by simp
      have small: "unat (of_nat y :: u64) = y" "unat (of_nat x :: u64) = x"
        using x y wf fb_same_dims[OF s1] by (simp_all add: fb_wf_def)
      have "unat (of_nat y * (fb_pitch s2 div 4) + of_nat x) = y * ppr s + x"
        using b wf fb_same_dims[OF s2] small
        by (subst unat_mult_add_u64) (simp_all add: ppr_def unat_div_distrib fb_wf_def)
      then show "\<exists>s'. fb_wr (unat (of_nat y * (fb_pitch s2 div 4) + of_nat x)) v s2 = Some s' \<and> fb_same s s'"
        using fb_wr_spec[of "y * ppr s + x" s2 v] b wf fb_same_dims[OF s2] fb_same_trans[OF s2]
        by (auto simp: fb_wf_def)
    qed
  qed simp
  then show ?thesis using True by (simp add: framebuffer_clear_def)
qed (simp add: framebuffer_clear_def)

lemma unat_mult_of_nat_u32:
  "n * unat b < 2 ^ 32 \<Longrightarrow> 0 < unat b \<Longrightarrow> unat (of_nat n * b :: u32) = n * unat b"
proof -
  assume l: "n * unat b < 2 ^ 32" "0 < unat b"
  have "n \<le> n * unat b" using l(2) by simp
  then have "n < 2 ^ 32" using l(1) by linarith
  then show ?thesis using l(1) by (simp add: unat_word_ariths unsigned_of_nat take_bit_nat_eq_self)
qed

lemma scroll_safe:
  assumes wf: "fb_wf s"
  shows "\<exists>s'. framebuffer_scroll 16 s = Some s' \<and> fb_same s s'"
proof (cases "fb_initialized s \<and> 0 < fbw s")
  case True
  then have init: "fb_initialized s" and w0: "0 < ppr s" using wf by (auto simp: fb_wf_def)
  define pw where "pw = (ucast (fb_pitch s div 4) :: u32)"
  have pw: "unat pw = ppr s" unfolding pw_def by (rule ppr_ucast[OF wf])
  define rows where "rows = (ucast (fb_height s - 16) :: u32)"
  have h: "16 \<le> fbh s" "fbh s < 2 ^ 32" "fbw s < 2 ^ 32" "fbh s * ppr s < 2 ^ 32" "fbh s * ppr s \<le> length (fb_address s)"
    using wf by (simp_all add: fb_wf_def)
  have "unat (fb_height s - 16) = fbh s - 16" using h(1) by (simp add: unat_sub_u64)
  then have rows: "unat rows = fbh s - 16" using h(2) by (simp add: rows_def)
  have hh: "unat (ucast (fb_height s) :: u32) = fbh s" using h(2) by simp
  have idx: "unat (of_nat y * pw :: u32) = y * ppr s" if "y < fbh s" for y
  proof -
    have "y * ppr s < 2 ^ 32" by (rule order_le_less_trans[OF _ h(4)]) (use that in simp)
    then show ?thesis using pw w0 unat_mult_of_nat_u32[of y pw] by simp
  qed
  let ?copy = "\<lambda>y s. let dst = unat (of_nat y * pw); src = unat ((of_nat y + 16) * pw)
      in for_columns (\<lambda>x s. do { v \<leftarrow> rd (fb_address s) (src + x); fb_wr (dst + x) v s }) s"
  let ?fill = "\<lambda>y s. for_columns (\<lambda>x s. fb_wr (unat (of_nat y * pw + of_nat x)) FB_DEFAULT_BG s) s"
  have "\<exists>s1. for_range ?copy 0 (unat rows) s = Some s1 \<and> fb_same s s1"
  proof (rule fb_loop_safe)
    fix y s1 assume y: "0 \<le> y" "y < 0 + unat rows" and s1: "fb_same s s1"
    have y2: "y < fbh s" "y + 16 < fbh s" using y rows by auto
    have "of_nat y + 16 = (of_nat (y + 16) :: u32)" by simp
    then have src: "unat ((of_nat y + 16) * pw) = (y + 16) * ppr s" using idx[OF y2(2)] by simp
    have "\<exists>s'. for_range (\<lambda>x t. do { v \<leftarrow> rd (fb_address t) ((y + 16) * ppr s + x); fb_wr (y * ppr s + x) v t })
        0 (fbw s1) s1 = Some s' \<and> fb_same s s'"
    proof (rule fb_loop_safe[OF s1])
      fix x s2 assume x: "0 \<le> x" "x < 0 + fbw s1" and s2: "fb_same s s2"
      have b: "(y + 16) * ppr s + x < length (fb_address s2)" "y * ppr s + x < length (fb_address s2)"
        using pixel_bound[OF wf, of x] x y2 h(5) fb_same_dims[OF s1] fb_same_dims[OF s2]
        by (metis add_0 order_less_le_trans)+
      then show "\<exists>s'. (do { v \<leftarrow> rd (fb_address s2) ((y + 16) * ppr s + x); fb_wr (y * ppr s + x) v s2 }) = Some s' \<and>
          fb_same s s'" using fb_wr_spec[OF b(2)] fb_same_trans[OF s2] by fastforce
    qed
    then show "\<exists>s'. ?copy y s1 = Some s' \<and> fb_same s s'"
      using src idx[OF y2(1)] h(3) fb_same_dims[OF s1] by (simp add: for_columns_def Let_def)
  qed simp
  then obtain s1 where s1: "for_range ?copy 0 (unat rows) s = Some s1" "fb_same s s1" by blast
  have "\<exists>s'. for_range ?fill (unat rows) (fbh s - unat rows) s1 = Some s' \<and> fb_same s s'"
  proof (rule fb_loop_safe[OF s1(2)])
    fix y s2 assume y: "unat rows \<le> y" "y < unat rows + (fbh s - unat rows)" and s2: "fb_same s s2"
    have y2: "y < fbh s" using y rows by simp
    have "\<exists>s'. for_range (\<lambda>x s. fb_wr (unat (of_nat y * pw + of_nat x)) FB_DEFAULT_BG s)
        0 (fbw s2) s2 = Some s' \<and> fb_same s s'"
    proof (rule fb_loop_safe[OF s2])
      fix x s3 assume x: "0 \<le> x" "x < 0 + fbw s2" and s3: "fb_same s s3"
      have b: "y * ppr s + x < fbh s * ppr s" using pixel_bound[OF wf, of x y] x y2 fb_same_dims[OF s2] by simp
      have xs: "unat (of_nat x :: u32) = x" "unat (of_nat y :: u32) = y"
        using x y2 h(2,3) fb_same_dims[OF s2] by (simp_all add: unsigned_of_nat take_bit_nat_eq_self)
      have "unat (of_nat y * pw + of_nat x :: u32) = y * ppr s + x"
        using b h(4) pw xs by (subst unat_mult_add_u32) simp_all
      then show "\<exists>s'. fb_wr (unat (of_nat y * pw + of_nat x)) FB_DEFAULT_BG s3 = Some s' \<and> fb_same s s'"
        using fb_wr_spec[of "y * ppr s + x" s3 FB_DEFAULT_BG] b h(5) fb_same_dims[OF s3] fb_same_trans[OF s3] by auto
    qed
    then show "\<exists>s'. ?fill y s2 = Some s' \<and> fb_same s s'"
      using h(3) fb_same_dims[OF s2] by (simp add: for_columns_def)
  qed
  then show ?thesis using init s1 hh fb_same_dims[OF s1(2)]
    by (simp add: framebuffer_scroll_def Let_def flip: pw_def rows_def)
next
  case False
  then consider "\<not> fb_initialized s" | "fb_initialized s" "fb_width s = 0"
    by (auto simp: unat_eq_0)
  then show ?thesis
  proof cases
    case 1
    then show ?thesis by (simp add: framebuffer_scroll_def)
  next
    case 2
    have col: "for_columns f t = Some t" if "fb_width t = 0" for f t using that by (simp add: for_columns_def)
    have nop: "for_range (\<lambda>y t. for_columns (f y) t) a n s = Some s" for f a n
      by (induction n arbitrary: a) (simp_all add: col 2)
    show ?thesis using 2 by (simp add: framebuffer_scroll_def nop Let_def)
  qed
qed

text \<open>
  C25. Drawing a character on a well-formed framebuffer returns, stays inside the pixel memory,
  paints each pixel of the 8 by 16 cell that is on the screen with the foreground or background
  color as the font says, and changes no other pixel of the screen.
\<close>

theorem draw_char_correct:
  fixes px py :: u32
  assumes "fb_wf s" "fb_initialized s" "unat px + 8 \<le> 2 ^ 32" "unat py + 16 \<le> 2 ^ 32"
  shows "\<exists>s'. framebuffer_draw_char px py c fg bg s = Some s' \<and> fb_wf s' \<and>
     (\<forall>x < fbw s. \<forall>y < fbh s. pixel s' x y =
        (if unat px \<le> x \<and> x < unat px + 8 \<and> unat py \<le> y \<and> y < unat py + 16
         then if bit (vga_font ! glyph_index c ! (y - unat py)) (7 - (x - unat px)) then fg else bg
         else pixel s x y))"
proof -
  have gc: "glyph_color b k fg bg = (if bit b (7 - k) then fg else bg)" if "k < 8" for b k
  proof -
    have "k \<in> {0, 1, 2, 3, 4, 5, 6, 7}" using that by auto
    then have e: "drop_bit k (0x80 :: u8) = 2 ^ (7 - k)" by auto
    show ?thesis unfolding glyph_color_def e using and_exp_eq_0_iff_not_bit[of b "7 - k"] by simp
  qed
  obtain s' where s': "framebuffer_draw_char px py c fg bg s = Some s'" "fb_same s s'"
     "\<forall>x < fbw s. \<forall>y < fbh s. pixel s' x y =
        (if unat px \<le> x \<and> x < unat px + 8 \<and> unat py \<le> y \<and> y < unat py + 16
         then glyph_color (vga_font ! glyph_index c ! (y - unat py)) (x - unat px) fg bg
         else pixel s x y)"
    using draw_char_spec[OF assms] by blast
  have "fb_wf s'" using fb_same_wf[OF s'(2) assms(1)] .
  moreover have "x - unat px < 8" if "unat px \<le> x \<and> x < unat px + 8" for x using that by auto
  ultimately show ?thesis using s'(1,3) gc by auto
qed

definition demo_fb :: fb where
  "demo_fb = \<lparr>fb_address = replicate 256 0, fb_width = 16, fb_height = 16, fb_pitch = 64, fb_bpp = 32,
     fb_initialized = True\<rparr>"

lemma demo_fb_wf: "fb_wf demo_fb"
  by (simp add: demo_fb_def fb_wf_def ppr_def)

theorem draw_char_witness:
  "\<exists>s'. framebuffer_draw_char 8 0 (CHR ''A'') 1 2 demo_fb = Some s' \<and> fb_wf s' \<and>
     pixel s' 12 2 = 1 \<and> pixel s' 8 2 = 2 \<and> pixel s' 0 0 = 0"
proof -
  have "fb_initialized demo_fb" by (simp add: demo_fb_def)
  from draw_char_correct[OF demo_fb_wf this, of 8 0 "CHR ''A''" 1 2] obtain s' where
    s': "framebuffer_draw_char 8 0 (CHR ''A'') 1 2 demo_fb = Some s'" "fb_wf s'"
      "\<forall>x < 16. \<forall>y < 16. pixel s' x y =
        (if 8 \<le> x \<and> x < 16 \<and> y < 16 then if bit (vga_font ! glyph_index (CHR ''A'') ! y) (7 - (x - 8)) then 1 else 2
         else pixel demo_fb x y)" by (auto simp: demo_fb_def)
  have "vga_font ! glyph_index (CHR ''A'') ! 2 = 8"
    by (simp add: vga_font_def vga_font_control_def vga_font_upper_def glyph_index_def nth_append)
  moreover have "bit (8 :: u8) 3" "\<not> bit (8 :: u8) 7" by (simp_all add: bit_numeral_rec)
  ultimately have "pixel s' 12 2 = 1" "pixel s' 8 2 = 2" using s'(3) by auto
  moreover have "pixel s' 0 0 = pixel demo_fb 0 0" using s'(3) by simp
  moreover have "pixel demo_fb 0 0 = 0" by (simp add: pixel_def demo_fb_def)
  ultimately show ?thesis using s'(1,2) by auto
qed

end
