(* ===== verification/Klog.thy ===== *)
theory Klog
  imports Prelude
begin

text \<open>
  The kernel log, \<open>kernel/src/lib/klog.c\<close>: a ring buffer of the last 64 KiB of console output.
  \<open>klog_dump\<close> prints through \<open>kputchar\<close>; the model returns the characters printed. While dumping,
  logging is off, so that \<open>kputchar\<close> does not feed the buffer.
\<close>

definition KLOG_BUFFER_SIZE :: nat where "KLOG_BUFFER_SIZE = 65536"

record klog =
  klog_buffer :: "char list"
  klog_head :: u32
  klog_wrapped :: bool
  klog_active :: bool

definition klog_init :: "klog \<Rightarrow> klog" where
  "klog_init s = s\<lparr>klog_head := 0, klog_wrapped := False, klog_active := True\<rparr>"

definition klog_putc :: "char \<Rightarrow> klog \<Rightarrow> klog option" where
  "klog_putc c s =
     (if \<not> klog_active s then Some s
      else do {
        buf \<leftarrow> wr (klog_buffer s) (unat (klog_head s)) c;
        let s1 = s\<lparr>klog_buffer := buf, klog_head := klog_head s + 1\<rparr>;
        Some (if unat (klog_head s1) \<ge> KLOG_BUFFER_SIZE
              then s1\<lparr>klog_head := 0, klog_wrapped := True\<rparr> else s1) })"

text \<open>\<open>for (i = a; i < a + n; i++) kputchar(klog_buffer[i])\<close>\<close>

primrec klog_print :: "char list \<Rightarrow> nat \<Rightarrow> nat \<Rightarrow> char list option" where
  "klog_print buf a 0 = Some []"
| "klog_print buf a (Suc n) = do { c \<leftarrow> rd buf a; cs \<leftarrow> klog_print buf (Suc a) n; Some (c # cs) }"

definition klog_dump :: "klog \<Rightarrow> (char list \<times> klog) option" where
  "klog_dump s = do {
     let s1 = s\<lparr>klog_active := False\<rparr>;
     let head = unat (klog_head s1);
     old \<leftarrow> (if klog_wrapped s1 then klog_print (klog_buffer s1) head (KLOG_BUFFER_SIZE - head) else Some []);
     new \<leftarrow> klog_print (klog_buffer s1) 0 head;
     Some (old @ new, s1\<lparr>klog_active := True\<rparr>) }"

definition klog_stop_recording :: "klog \<Rightarrow> klog" where
  "klog_stop_recording s = s\<lparr>klog_active := False\<rparr>"

section \<open>The ring buffer holds the latest output\<close>

text \<open>\<open>klog_puts\<close>: the characters of a string, one after the other, as \<open>kputs\<close> and \<open>kprintf\<close> do.\<close>

fun klog_puts :: "char list \<Rightarrow> klog \<Rightarrow> klog option" where
  "klog_puts [] s = Some s"
| "klog_puts (c # cs) s = do { s1 \<leftarrow> klog_putc c s; klog_puts cs s1 }"

definition klog_content :: "klog \<Rightarrow> char list" where
  "klog_content s = (let h = unat (klog_head s) in
     (if klog_wrapped s then drop h (klog_buffer s) else []) @ take h (klog_buffer s))"

definition klog_wf :: "klog \<Rightarrow> bool" where
  "klog_wf s \<longleftrightarrow> length (klog_buffer s) = KLOG_BUFFER_SIZE \<and> unat (klog_head s) < KLOG_BUFFER_SIZE"

definition last_n :: "nat \<Rightarrow> 'a list \<Rightarrow> 'a list" where
  "last_n n xs = drop (length xs - n) xs"

lemma last_n_snoc: "last_n n (last_n n xs @ [x]) = last_n n (xs @ [x])"
proof (cases "length xs \<le> n")
  case False
  then have "length (last_n n xs) = n" by (simp add: last_n_def)
  then show ?thesis using False by (simp add: last_n_def Suc_diff_le drop_Suc tl_drop)
qed (simp add: last_n_def)

lemma klog_print_eq:
  "a + n \<le> length buf \<Longrightarrow> klog_print buf a n = Some (take n (drop a buf))"
proof (induction n arbitrary: a)
  case (Suc n)
  then have "drop a buf = buf ! a # drop (Suc a) buf" by (simp add: Cons_nth_drop_Suc)
  with Suc show ?case by simp
qed simp

lemma klog_putc_content:
  assumes wf: "klog_wf s" and act: "klog_active s"
  shows "\<exists>s'. klog_putc c s = Some s' \<and> klog_wf s' \<and> klog_active s' \<and>
     klog_content s' = last_n KLOG_BUFFER_SIZE (klog_content s @ [c])"
proof -
  let ?h = "unat (klog_head s)" and ?b = "klog_buffer s"
  have len: "length ?b = KLOG_BUFFER_SIZE" and h: "?h < KLOG_BUFFER_SIZE" using wf by (auto simp: klog_wf_def)
  have suc: "unat (klog_head s + 1) = Suc ?h"
  proof -
    have "?h + 1 < 2 ^ 32" using h by (simp add: KLOG_BUFFER_SIZE_def)
    then show ?thesis by (simp add: unat_add_lem[where y = 1, THEN iffD1])
  qed
  have upd: "take (Suc ?h) (?b[?h := c]) = take ?h ?b @ [c]" "drop (Suc ?h) (?b[?h := c]) = drop (Suc ?h) ?b"
    using len h by (simp_all add: take_Suc_conv_app_nth)
  have cont: "length (klog_content s) = (if klog_wrapped s then KLOG_BUFFER_SIZE else ?h)"
    using len h by (simp add: klog_content_def Let_def)
  show ?thesis
  proof (cases "Suc ?h \<ge> KLOG_BUFFER_SIZE")
    case True
    then have sh: "Suc ?h = KLOG_BUFFER_SIZE" using h by simp
    define s' where "s' = s\<lparr>klog_buffer := ?b[?h := c], klog_head := 0, klog_wrapped := True\<rparr>"
    have "klog_putc c s = Some s'" using act len h suc True by (simp add: klog_putc_def Let_def s'_def)
    moreover have "?b[?h := c] = take ?h ?b @ [c]" using upd(1) sh len by (metis length_list_update order_refl take_all)
    then have "klog_content s' = last_n KLOG_BUFFER_SIZE (klog_content s @ [c])"
      using len h sh by (auto simp: s'_def klog_content_def last_n_def Let_def Suc_diff_le)
    moreover have "klog_wf s'" using len by (simp add: s'_def klog_wf_def KLOG_BUFFER_SIZE_def)
    ultimately show ?thesis using act by (intro exI[of _ s']) (simp add: s'_def)
  next
    case False
    define s' where "s' = s\<lparr>klog_buffer := ?b[?h := c], klog_head := klog_head s + 1\<rparr>"
    have "klog_putc c s = Some s'" using act len h suc False by (simp add: klog_putc_def Let_def s'_def)
    moreover have "klog_content s' = last_n KLOG_BUFFER_SIZE (klog_content s @ [c])"
    proof (cases "klog_wrapped s")
      case True
      have "drop ?h ?b = ?b ! ?h # drop (Suc ?h) ?b" using len h by (simp add: Cons_nth_drop_Suc)
      then show ?thesis using True suc upd cont
        by (simp add: s'_def klog_content_def last_n_def Let_def)
    next
      case nw: False
      then show ?thesis using suc upd cont False
        by (simp add: s'_def klog_content_def last_n_def Let_def)
    qed
    moreover have "klog_wf s'" using len suc False by (simp add: s'_def klog_wf_def)
    ultimately show ?thesis using act by (intro exI[of _ s']) (simp add: s'_def)
  qed
qed

lemma klog_puts_content:
  assumes "klog_wf s" "klog_active s" "klog_content s = last_n KLOG_BUFFER_SIZE xs"
  shows "\<exists>s'. klog_puts cs s = Some s' \<and> klog_wf s' \<and> klog_active s' \<and>
     klog_content s' = last_n KLOG_BUFFER_SIZE (xs @ cs)"
  using assms
proof (induction cs arbitrary: s xs)
  case (Cons c cs)
  from klog_putc_content[OF Cons.prems(1,2), of c] obtain s1 where
    s1: "klog_putc c s = Some s1" "klog_wf s1" "klog_active s1"
      "klog_content s1 = last_n KLOG_BUFFER_SIZE (klog_content s @ [c])" by blast
  have "klog_content s1 = last_n KLOG_BUFFER_SIZE (xs @ [c])"
    using s1(4) Cons.prems(3) last_n_snoc by simp
  from Cons.IH[OF s1(2,3) this] s1(1) show ?case by simp
qed simp



end
