(* ===== verification/Printf.thy ===== *)
theory Printf
  imports Prelude
begin

text \<open>
  Formatted output of the kernel, \<open>kernel/src/lib/printf.c\<close>. A format is the list of its characters
  before the terminator; reading past the terminator is a fault. The variable arguments are a list
  of typed values, and fetching one at another type is a fault. The output buffer is the list of
  the characters written so far, its length the position \<open>pos\<close> of the code. Signed overflow, which
  C leaves undefined, is a fault.
\<close>

datatype va_val = Arg_int u32 | Arg_long u64 | Arg_ptr u64 | Arg_str "char list option"

section \<open>Numbers\<close>

definition lower_digits :: "char list" where "lower_digits = ''0123456789abcdef''"
definition upper_digits :: "char list" where "upper_digits = ''0123456789ABCDEF''"

text \<open>\<open>_tb[_tp++] = c\<close> on the local buffer of 20 characters.\<close>

definition tb_push :: "char \<Rightarrow> char list \<Rightarrow> char list option" where
  "tb_push c tb = (if length tb < 20 then Some (tb @ [c]) else None)"

partial_function (option) digits_loop :: "u64 \<Rightarrow> u64 \<Rightarrow> char list \<Rightarrow> char list \<Rightarrow> char list option" where
  "digits_loop v base digs tb =
     (if v = 0 then Some tb
      else do {
        c \<leftarrow> rd digs (unat (v mod base));
        tb1 \<leftarrow> tb_push c tb;
        digits_loop (v div base) base digs tb1 })"

declare digits_loop.simps [code]

text \<open>The local buffer after the digits and the padding; it is printed from its end.\<close>

definition render_uint :: "u64 \<Rightarrow> u64 \<Rightarrow> bool \<Rightarrow> nat \<Rightarrow> char \<Rightarrow> char list option" where
  "render_uint v base upper width pad = do {
     let digs = (if upper then upper_digits else lower_digits);
     tb \<leftarrow> (if v = 0 then tb_push (CHR ''0'') [] else digits_loop v base digs []);
     for_range (\<lambda>_ tb. tb_push pad tb) 0 (width - length tb) tb }"

text \<open>\<open>print_uint64\<close> and \<open>print_int64\<close>: the characters sent to \<open>kputchar\<close>.\<close>

definition print_uint64 :: "u64 \<Rightarrow> u64 \<Rightarrow> bool \<Rightarrow> nat \<Rightarrow> char \<Rightarrow> char list option" where
  "print_uint64 v base upper width pad = map_option rev (render_uint v base upper width pad)"

definition print_int64 :: "u64 \<Rightarrow> nat \<Rightarrow> char \<Rightarrow> char list option" where
  "print_int64 v width pad =
     (if sint v < 0 then
        (if sint v = - (2 ^ 63) then None
         else map_option (Cons (CHR ''-'')) (print_uint64 (- v) 10 False (if width > 0 then width - 1 else width) pad))
      else print_uint64 v 10 False width pad)"

section \<open>The formatter\<close>

definition VSNPRINTF_APPEND :: "nat \<Rightarrow> char list \<Rightarrow> char \<Rightarrow> char list" where
  "VSNPRINTF_APPEND size1 out c = (if length out < size1 - 1 then out @ [c] else out)"

definition RENDER_UINT :: "nat \<Rightarrow> u64 \<Rightarrow> u64 \<Rightarrow> bool \<Rightarrow> nat \<Rightarrow> char \<Rightarrow> char list \<Rightarrow> char list option" where
  "RENDER_UINT size1 v base upper width pad out = do {
     tb \<leftarrow> render_uint v base upper width pad;
     Some (foldl (VSNPRINTF_APPEND size1) out (rev tb)) }"

fun parse_width :: "nat \<Rightarrow> char list \<Rightarrow> (nat \<times> char list) option" where
  "parse_width w [] = Some (w, [])"
| "parse_width w (c # cs) =
     (if 49 \<le> (of_char c :: nat) \<and> (of_char c :: nat) \<le> 57 then
        let w' = w * 10 + (of_char c - 48)
        in if int w' < 2 ^ 31 then parse_width w' cs else None
      else Some (w, c # cs))"

definition parse_flag :: "char list \<Rightarrow> char \<times> char list" where
  "parse_flag cs = (case cs of
      c # cs' \<Rightarrow> if c = CHR ''0'' then (CHR ''0'', cs') else (CHR '' '', cs)
    | [] \<Rightarrow> (CHR '' '', []))"

definition parse_len :: "char list \<Rightarrow> nat \<times> char list" where
  "parse_len cs = (case cs of
      c # cs' \<Rightarrow> if c = CHR ''l'' then
          (case cs' of
             d # cs'' \<Rightarrow> if d = CHR ''l'' then (2, cs'') else (1, cs')
           | [] \<Rightarrow> (1, []))
        else (0, cs)
    | [] \<Rightarrow> (0, []))"

fun va_signed :: "nat \<Rightarrow> va_val list \<Rightarrow> (int \<times> va_val list) option" where
  "va_signed m (Arg_int x # as) = (if m = 0 then Some (sint x, as) else None)"
| "va_signed m (Arg_long x # as) = (if m = 0 then None else Some (sint x, as))"
| "va_signed m _ = None"

fun va_unsigned :: "nat \<Rightarrow> va_val list \<Rightarrow> (u64 \<times> va_val list) option" where
  "va_unsigned m (Arg_int x # as) = (if m = 0 then Some (ucast x, as) else None)"
| "va_unsigned m (Arg_long x # as) = (if m = 0 then None else Some (x, as))"
| "va_unsigned m _ = None"

fun va_ptr :: "va_val list \<Rightarrow> (u64 \<times> va_val list) option" where
  "va_ptr (Arg_ptr x # as) = Some (x, as)"
| "va_ptr _ = None"

fun va_str :: "va_val list \<Rightarrow> (char list option \<times> va_val list) option" where
  "va_str (Arg_str x # as) = Some (x, as)"
| "va_str _ = None"

fun va_char :: "va_val list \<Rightarrow> (char \<times> va_val list) option" where
  "va_char (Arg_int x # as) = Some (char_of (unat x), as)"
| "va_char _ = None"

text \<open>The \<open>switch\<close> on the conversion character.\<close>

definition vsn_conv ::
  "nat \<Rightarrow> char \<Rightarrow> char \<Rightarrow> nat \<Rightarrow> nat \<Rightarrow> va_val list \<Rightarrow> char list \<Rightarrow> (char list \<times> va_val list) option" where
  "vsn_conv size1 f pad width m as out =
     (if f = CHR ''d'' \<or> f = CHR ''i'' then do {
        (val, as1) \<leftarrow> va_signed m as;
        if val = - (2 ^ 63) then None
        else do {
          let (out1, v) = (if val < 0 then (VSNPRINTF_APPEND size1 out (CHR ''-''), - val) else (out, val));
          out2 \<leftarrow> RENDER_UINT size1 (of_int v) 10 False width pad out1;
          Some (out2, as1) } }
      else if f = CHR ''u'' then do {
        (val, as1) \<leftarrow> va_unsigned m as;
        out1 \<leftarrow> RENDER_UINT size1 val 10 False width pad out;
        Some (out1, as1) }
      else if f = CHR ''x'' then do {
        (val, as1) \<leftarrow> va_unsigned m as;
        out1 \<leftarrow> RENDER_UINT size1 val 16 False width pad out;
        Some (out1, as1) }
      else if f = CHR ''X'' then do {
        (val, as1) \<leftarrow> va_unsigned m as;
        out1 \<leftarrow> RENDER_UINT size1 val 16 True width pad out;
        Some (out1, as1) }
      else if f = CHR ''p'' then do {
        (val, as1) \<leftarrow> va_ptr as;
        let out1 = VSNPRINTF_APPEND size1 (VSNPRINTF_APPEND size1 out (CHR ''0'')) (CHR ''x'');
        out2 \<leftarrow> RENDER_UINT size1 val 16 False 16 (CHR ''0'') out1;
        Some (out2, as1) }
      else if f = CHR ''s'' then do {
        (s, as1) \<leftarrow> va_str as;
        let cs = (case s of None \<Rightarrow> ''(null)'' | Some cs \<Rightarrow> cs);
        Some (foldl (VSNPRINTF_APPEND size1) out cs, as1) }
      else if f = CHR ''c'' then do {
        (c, as1) \<leftarrow> va_char as;
        Some (VSNPRINTF_APPEND size1 out c, as1) }
      else if f = CHR ''%'' then Some (VSNPRINTF_APPEND size1 out (CHR ''%''), as)
      else Some (VSNPRINTF_APPEND size1 (VSNPRINTF_APPEND size1 out (CHR ''%'')) f, as))"

text \<open>
  The loop over the format. When the format ends inside a conversion, the \<open>default\<close> branch emits the
  terminator and \<open>fmt++\<close> steps over it; the next test of \<open>*fmt\<close> reads past the end.
\<close>

lemma parse_width_len: "parse_width w cs = Some (w', cs') \<Longrightarrow> length cs' \<le> length cs"
proof (induction w cs rule: parse_width.induct)
  case (2 w c cs)
  then show ?case by (cases "49 \<le> (of_char c :: nat) \<and> (of_char c :: nat) \<le> 57")
      (fastforce simp: Let_def split: if_splits)+
qed simp

lemma parse_flag_len: "parse_flag cs = (p, cs') \<Longrightarrow> length cs' \<le> length cs"
  by (auto simp: parse_flag_def split: list.splits if_splits)

lemma parse_len_len: "parse_len cs = (m, cs') \<Longrightarrow> length cs' \<le> length cs"
  by (auto simp: parse_len_def split: list.splits if_splits)

definition parse_spec :: "char list \<Rightarrow> (char \<times> nat \<times> nat \<times> char list) option" where
  "parse_spec cs = do {
     let (pad, cs1) = parse_flag cs;
     (width, cs2) \<leftarrow> parse_width 0 cs1;
     let (m, cs3) = parse_len cs2;
     Some (pad, width, m, cs3) }"

lemma parse_spec_len: "parse_spec cs = Some (pad, width, m, cs') \<Longrightarrow> length cs' \<le> length cs"
  unfolding parse_spec_def
  by (auto simp: bind_eq_Some_conv dest!: parse_width_len parse_flag_len parse_len_len split: prod.splits)

function vsn_loop :: "nat \<Rightarrow> char list \<Rightarrow> va_val list \<Rightarrow> char list \<Rightarrow> char list option" where
  "vsn_loop size1 fmt as out =
     (case fmt of
        [] \<Rightarrow> Some out
      | c # fs \<Rightarrow>
          if \<not> length out < size1 - 1 then Some out
          else if c \<noteq> CHR ''%'' then vsn_loop size1 fs as (VSNPRINTF_APPEND size1 out c)
          else (case parse_spec fs of
             None \<Rightarrow> None
           | Some (pad, width, m, rest) \<Rightarrow>
               (case rest of
                  [] \<Rightarrow> None
                | f # rest' \<Rightarrow>
                    (case vsn_conv size1 f pad width m as out of
                       None \<Rightarrow> None
                     | Some (out1, as1) \<Rightarrow> vsn_loop size1 rest' as1 out1))))"
  by pat_completeness auto
termination
  by (relation "measure (\<lambda>(size1, fmt, as, out). length fmt)") (auto dest!: parse_spec_len)

declare vsn_loop.simps [simp del]

text \<open>
  \<open>vsnprintf\<close> with a buffer of \<open>size1\<close> bytes: the characters written before the terminator, whose
  number is the result. With size 0 nothing is written.
\<close>

definition vsnprintf :: "nat \<Rightarrow> char list \<Rightarrow> va_val list \<Rightarrow> char list option" where
  "vsnprintf size1 fmt as = (if size1 = 0 then Some [] else vsn_loop size1 fmt as [])"

section \<open>The output stays in the buffer\<close>

lemma append_bound: "length out \<le> size1 - 1 \<Longrightarrow> length (VSNPRINTF_APPEND size1 out c) \<le> size1 - 1"
  by (simp add: VSNPRINTF_APPEND_def)

lemma appends_bound: "length out \<le> size1 - 1 \<Longrightarrow> length (foldl (VSNPRINTF_APPEND size1) out cs) \<le> size1 - 1"
  by (induction cs arbitrary: out) (auto simp: append_bound simp del: One_nat_def)

lemma vsn_conv_bound:
  "vsn_conv size1 f pad width m as out = Some (out1, as1) \<Longrightarrow> length out \<le> size1 - 1 \<Longrightarrow>
   length out1 \<le> size1 - 1"
  unfolding vsn_conv_def RENDER_UINT_def
  by (auto simp: bind_eq_Some_conv Let_def append_bound appends_bound simp del: One_nat_def split: if_splits)

lemma vsn_loop_Nil: "vsn_loop size1 [] as out = Some out"
  by (subst vsn_loop.simps) simp

lemma vsn_loop_full: "\<not> length out < size1 - 1 \<Longrightarrow> vsn_loop size1 fmt as out = Some out"
  by (subst vsn_loop.simps) (simp split: list.splits)

lemma vsn_loop_plain:
  "length out < size1 - 1 \<Longrightarrow> c \<noteq> CHR ''%'' \<Longrightarrow>
   vsn_loop size1 (c # fs) as out = vsn_loop size1 fs as (VSNPRINTF_APPEND size1 out c)"
  by (subst vsn_loop.simps) simp

lemma vsn_loop_conv:
  "length out < size1 - 1 \<Longrightarrow> parse_spec fs = Some (pad, width, m, f # rest) \<Longrightarrow>
   vsn_loop size1 (CHR ''%'' # fs) as out =
     Option.bind (vsn_conv size1 f pad width m as out) (\<lambda>(out1, as1). vsn_loop size1 rest as1 out1)"
  by (subst vsn_loop.simps) (simp split: option.splits)

lemma vsn_loop_convE:
  assumes "vsn_loop size1 (CHR ''%'' # fs) as out = Some res" "length out < size1 - 1"
  obtains pad width m f rest out1 as1 where "parse_spec fs = Some (pad, width, m, f # rest)"
    "vsn_conv size1 f pad width m as out = Some (out1, as1)" "vsn_loop size1 rest as1 out1 = Some res"
  using assms by (subst (asm) vsn_loop.simps) (auto split: option.splits list.splits)

lemma vsn_loop_bound:
  "vsn_loop size1 fmt as out = Some res \<Longrightarrow> length out \<le> size1 - 1 \<Longrightarrow> length res \<le> size1 - 1"
proof (induction fmt arbitrary: as out rule: length_induct)
  case (1 fmt)
  show ?case
  proof (cases "fmt = [] \<or> \<not> length out < size1 - 1")
    case True
    then show ?thesis using "1.prems" vsn_loop_Nil vsn_loop_full by fastforce
  next
    case False
    then obtain c fs where f: "fmt = c # fs" and l: "length out < size1 - 1" by (cases fmt) auto
    show ?thesis
    proof (cases "c = CHR ''%''")
      case True
      with "1.prems"(1) f l obtain pad width m f' rest out1 as1 where
        s: "parse_spec fs = Some (pad, width, m, f' # rest)"
        "vsn_conv size1 f' pad width m as out = Some (out1, as1)" "vsn_loop size1 rest as1 out1 = Some res"
        using vsn_loop_convE by metis
      have "length rest < length fmt" using parse_spec_len[OF s(1)] f by simp
      with "1.IH" s(3) vsn_conv_bound[OF s(2) "1.prems"(2)] show ?thesis by blast
    next
      case False
      with "1.prems" f l have "vsn_loop size1 fs as (VSNPRINTF_APPEND size1 out c) = Some res"
        by (simp add: vsn_loop_plain)
      moreover have "length fs < length fmt" using f by simp
      ultimately show ?thesis using "1.IH" append_bound "1.prems"(2) by blast
    qed
  qed
qed

section \<open>Numbers read back\<close>

text \<open>The value of a digit of either alphabet, and of a numeral with the most significant digit first.\<close>

definition digit_val :: "char \<Rightarrow> nat" where
  "digit_val c = (let n = of_char c in
     if n \<le> 57 then n - 48 else if n \<le> 70 then n - 55 else n - 87)"

definition numeral_val :: "nat \<Rightarrow> char list \<Rightarrow> nat" where
  "numeral_val b cs = foldl (\<lambda>n c. n * b + digit_val c) 0 cs"

definition digit_chars :: "nat \<Rightarrow> bool \<Rightarrow> char set" where
  "digit_chars b upper = set (take b (if upper then upper_digits else lower_digits))"

fun digits_le :: "nat \<Rightarrow> char list \<Rightarrow> nat" where
  "digits_le b [] = 0"
| "digits_le b (c # cs) = digit_val c + b * digits_le b cs"

lemma digits_le_append: "digits_le b (cs @ [c]) = digits_le b cs + b ^ length cs * digit_val c"
  by (induction cs) (auto simp: algebra_simps)

lemma numeral_val_rev: "numeral_val b (rev cs) = digits_le b cs"
proof (induction cs)
  case Nil
  then show ?case by (simp add: numeral_val_def)
next
  case (Cons c cs)
  then show ?case by (simp add: numeral_val_def)
qed

lemma digit_val_digits:
  assumes "d < 16"
  shows "digit_val ((if upper then upper_digits else lower_digits) ! d) = d"
proof -
  have "\<forall>d \<in> set [0..<16]. digit_val (upper_digits ! d) = d \<and> digit_val (lower_digits ! d) = d"
    by code_simp
  with assms show ?thesis by auto
qed

lemma digits_len [simp]: "length upper_digits = 16" "length lower_digits = 16"
  by (simp_all add: upper_digits_def lower_digits_def)

text \<open>The digit loop, with \<open>k\<close> digits still to come fitting the buffer.\<close>

lemma digits_loop_spec:
  assumes "unat v < unat base ^ k" "length tb + k \<le> 20" "2 \<le> unat base" "unat base \<le> 16"
  shows "\<exists>ds. digits_loop v base (if upper then upper_digits else lower_digits) tb = Some (tb @ ds) \<and>
           length ds \<le> k \<and> digits_le (unat base) ds = unat v \<and> set ds \<subseteq> digit_chars (unat base) upper \<and>
           (v \<noteq> 0 \<longrightarrow> ds \<noteq> [])"
  using assms(1,2)
proof (induction k arbitrary: v tb)
  case 0
  then have "v = 0" by (simp add: unsigned_eq_0_iff)
  then show ?case by (simp add: digits_loop.simps)
next
  case (Suc k)
  let ?digs = "if upper then upper_digits else lower_digits"
  show ?case
  proof (cases "v = 0")
    case True
    then show ?thesis by (simp add: digits_loop.simps)
  next
    case False
    let ?d = "unat v mod unat base"
    have d: "unat (v mod base) = ?d" "unat (v div base) = unat v div unat base"
      by (simp_all add: unat_mod unat_div)
    have dl: "?d < unat base" "?d < 16" using assms(3,4) by (auto intro: less_le_trans[OF mod_less_divisor])
    have r: "rd ?digs ?d = Some (?digs ! ?d)" using dl by (simp add: rd_def)
    have t: "tb_push (?digs ! ?d) tb = Some (tb @ [?digs ! ?d])" using Suc.prems(2) by (simp add: tb_push_def)
    have "unat v div unat base < unat base ^ k"
      using Suc.prems(1) assms(3) by (simp add: div_less_iff_less_mult ac_simps)
    with Suc.IH[of "v div base" "tb @ [?digs ! ?d]"] Suc.prems(2) d(2) obtain ds where
      ds: "digits_loop (v div base) base ?digs (tb @ [?digs ! ?d]) = Some ((tb @ [?digs ! ?d]) @ ds)"
        "length ds \<le> k" "digits_le (unat base) ds = unat v div unat base"
        "set ds \<subseteq> digit_chars (unat base) upper" by auto
    have c: "?digs ! ?d \<in> digit_chars (unat base) upper"
      unfolding digit_chars_def in_set_conv_nth using dl by (intro exI[of _ ?d]) auto
    have "digits_loop v base ?digs tb = Some (tb @ (?digs ! ?d) # ds)"
      by (subst digits_loop.simps) (use False d(1) r t ds(1) in simp)
    moreover have "digits_le (unat base) ((?digs ! ?d) # ds) = unat v"
      using digit_val_digits[OF dl(2), of upper] ds(3) by simp
    ultimately show ?thesis using ds(2,4) c by (intro exI[of _ "(?digs ! ?d) # ds"]) auto
  qed
qed

lemma pad_loop: "length tb + k \<le> 20 \<Longrightarrow> for_range (\<lambda>_ tb. tb_push c tb) a k tb = Some (tb @ replicate k c)"
  by (induction k arbitrary: a tb) (auto simp: tb_push_def)

lemma render_uint_spec:
  assumes b: "base = 10 \<or> base = 16" and w: "width \<le> 20"
  shows "\<exists>ds. render_uint v base upper width pad = Some (ds @ replicate (width - length ds) pad) \<and>
           length ds \<le> 20 \<and> numeral_val (unat base) (rev ds) = unat v \<and> ds \<noteq> [] \<and>
           set ds \<subseteq> digit_chars (unat base) upper"
proof (cases "v = 0")
  case True
  have "CHR ''0'' \<in> digit_chars (unat base) upper"
    using b by (auto simp: digit_chars_def upper_digits_def lower_digits_def)
  moreover have "numeral_val (unat base) (rev [CHR ''0'']) = 0"
    by (simp add: numeral_val_def digit_val_def)
  ultimately show ?thesis using True w pad_loop[of "[CHR ''0'']" "width - 1" pad 0]
    by (intro exI[of _ "[CHR ''0'']"]) (simp add: render_uint_def tb_push_def)
next
  case False
  have v: "unat v < 10 ^ 20" using unat_u64_less[of v] by (simp del: unat_u64_less)
  have le: "10 \<le> unat base" "unat base \<le> 16" "2 \<le> unat base" using b by auto
  have "unat v < unat base ^ 20" using v power_mono[OF le(1), of 20] by simp
  from digits_loop_spec[OF this _ le(3,2), of "[]" upper] obtain ds where
    ds: "digits_loop v base (if upper then upper_digits else lower_digits) [] = Some ds"
      "length ds \<le> 20" "digits_le (unat base) ds = unat v"
      "set ds \<subseteq> digit_chars (unat base) upper" "ds \<noteq> []" using False by auto
  have "for_range (\<lambda>_ tb. tb_push pad tb) 0 (width - length ds) ds =
        Some (ds @ replicate (width - length ds) pad)"
    using pad_loop[of ds "width - length ds" pad 0] ds(2) w by simp
  then show ?thesis using False ds by (intro exI[of _ ds]) (simp add: render_uint_def numeral_val_rev)
qed

lemma appends_fit:
  "length out + length cs \<le> size1 - 1 \<Longrightarrow> foldl (VSNPRINTF_APPEND size1) out cs = out @ cs"
  by (induction cs arbitrary: out) (auto simp: VSNPRINTF_APPEND_def)

text \<open>
  C15. The unsigned conversions \<open>%u\<close>, \<open>%x\<close>, \<open>%X\<close> of a 64-bit argument, at any field width of at most
  20 and in a buffer of at least 22 bytes, terminate without overrunning the digit buffer, and print
  the padding followed by a nonempty numeral over the right digit alphabet whose value, read back in
  base 10 or 16, is the argument.
\<close>

theorem vsnprintf_unsigned:
  assumes "parse_spec fs = Some (pad, width, m, [f])" "f \<in> {CHR ''u'', CHR ''x'', CHR ''X''}"
    "0 < m" "width \<le> 20" "22 \<le> size1"
  shows "\<exists>ds. vsnprintf size1 (CHR ''%'' # fs) [Arg_long v] = Some (replicate (width - length ds) pad @ ds) \<and>
           ds \<noteq> [] \<and> numeral_val (if f = CHR ''u'' then 10 else 16) ds = unat v \<and>
           set ds \<subseteq> digit_chars (if f = CHR ''u'' then 10 else 16) (f = CHR ''X'')"
proof -
  define b where "b = (if f = CHR ''u'' then 10 else 16 :: u64)"
  have b: "b = 10 \<or> b = 16" and ub: "unat b = (if f = CHR ''u'' then 10 else 16)" by (simp_all add: b_def)
  obtain ds where ds: "render_uint v b (f = CHR ''X'') width pad = Some (ds @ replicate (width - length ds) pad)"
    "length ds \<le> 20" "numeral_val (unat b) (rev ds) = unat v" "ds \<noteq> []"
    "set ds \<subseteq> digit_chars (unat b) (f = CHR ''X'')"
    using render_uint_spec[OF b assms(4), of v "f = CHR ''X''" pad] by blast
  define res where "res = replicate (width - length ds) pad @ rev ds"
  have "foldl (VSNPRINTF_APPEND size1) [] res = res"
    using appends_fit[of "[]" res size1] assms(4,5) ds(2) by (simp add: res_def)
  then have "RENDER_UINT size1 v b (f = CHR ''X'') width pad [] = Some res"
    using ds(1) by (simp add: RENDER_UINT_def res_def del: foldl_append)
  then have "vsn_conv size1 f pad width m [Arg_long v] [] = Some (res, [])"
    using assms(2,3) by (elim insertE) (simp_all add: vsn_conv_def b_def)
  then have "vsnprintf size1 (CHR ''%'' # fs) [Arg_long v] = Some res"
    using vsn_loop_conv[OF _ assms(1), of "[]" size1 "[Arg_long v]"] assms(5)
    by (simp add: vsnprintf_def vsn_loop_Nil)
  then show ?thesis using ds(3-5) unfolding ub res_def by (intro exI[of _ "rev ds"]) simp
qed

theorem vsnprintf_unsigned_witness:
  "\<exists>ds. vsnprintf 32 ''%016llx'' [Arg_long 51966] = Some (replicate (16 - length ds) (CHR ''0'') @ ds) \<and>
        ds \<noteq> [] \<and> numeral_val 16 ds = 51966"
proof -
  have p: "parse_spec ''016llx'' = Some (CHR ''0'', 16, 2, ''x'')" by code_simp
  show ?thesis using vsnprintf_unsigned[OF p, of 32 51966] by auto
qed

section \<open>Well-typed formats\<close>

text \<open>The arguments left after a conversion, when the next argument has the type it fetches.\<close>

definition take_arg :: "char \<Rightarrow> nat \<Rightarrow> va_val list \<Rightarrow> va_val list option" where
  "take_arg f m as =
     (if f = CHR ''d'' \<or> f = CHR ''i'' then
        Option.bind (va_signed m as) (\<lambda>(v, as1). if v = - (2 ^ 63) then None else Some as1)
      else if f = CHR ''u'' \<or> f = CHR ''x'' \<or> f = CHR ''X'' then map_option snd (va_unsigned m as)
      else if f = CHR ''p'' then map_option snd (va_ptr as)
      else if f = CHR ''s'' then map_option snd (va_str as)
      else if f = CHR ''c'' then map_option snd (va_char as)
      else Some as)"

inductive fmt_typed :: "char list \<Rightarrow> va_val list \<Rightarrow> bool" where
  fmt_end: "fmt_typed [] as"
| fmt_plain: "c \<noteq> CHR ''%'' \<Longrightarrow> fmt_typed fs as \<Longrightarrow> fmt_typed (c # fs) as"
| fmt_conv: "parse_spec fs = Some (pad, width, m, f # rest) \<Longrightarrow> width \<le> 20 \<Longrightarrow>
     take_arg f m as = Some as1 \<Longrightarrow> fmt_typed rest as1 \<Longrightarrow> fmt_typed (CHR ''%'' # fs) as"

lemma RENDER_UINT_total:
  assumes "base = 10 \<or> base = 16" "width \<le> 20"
  shows "\<exists>out1. RENDER_UINT size1 v base upper width pad out = Some out1"
  using render_uint_spec[OF assms, of v upper pad] by (auto simp: RENDER_UINT_def)

lemma RENDER_UINT_10: "width \<le> 20 \<Longrightarrow> \<exists>y. RENDER_UINT size1 v 10 upper width pad out = Some y"
  and RENDER_UINT_16: "width \<le> 20 \<Longrightarrow> \<exists>y. RENDER_UINT size1 v 16 upper width pad out = Some y"
  using RENDER_UINT_total by blast+

lemma vsn_conv_typed:
  assumes "take_arg f m as = Some as1" "width \<le> 20"
  shows "\<exists>out1. vsn_conv size1 f pad width m as out = Some (out1, as1)"
proof -
  note R = RENDER_UINT_10[OF assms(2)] RENDER_UINT_16[OF assms(2)]
  consider "f = CHR ''d'' \<or> f = CHR ''i''" | "f = CHR ''u''" | "f = CHR ''x''" | "f = CHR ''X''"
    | "f = CHR ''p''" | "f = CHR ''s''" | "f = CHR ''c''"
    | "f \<notin> {CHR ''d'', CHR ''i'', CHR ''u'', CHR ''x'', CHR ''X'', CHR ''p'', CHR ''s'', CHR ''c''}"
    by blast
  then show ?thesis
  proof cases
    case 1
    then obtain v where v: "va_signed m as = Some (v, as1)" "v \<noteq> - (2 ^ 63)"
      using assms(1) by (auto simp: take_arg_def bind_eq_Some_conv split: if_splits)
    obtain y z where "RENDER_UINT size1 (of_int (- v)) 10 False width pad
        (VSNPRINTF_APPEND size1 out (CHR ''-'')) = Some y"
      "RENDER_UINT size1 (of_int v) 10 False width pad out = Some z" using R(1) by meson
    with 1 v show ?thesis by (simp add: vsn_conv_def Let_def)
  next
    case 2
    then obtain v where v: "va_unsigned m as = Some (v, as1)" using assms(1) by (auto simp: take_arg_def)
    obtain y where "RENDER_UINT size1 v 10 False width pad out = Some y" using R(1) by meson
    with 2 v show ?thesis by (simp add: vsn_conv_def)
  next
    case 3
    then obtain v where v: "va_unsigned m as = Some (v, as1)" using assms(1) by (auto simp: take_arg_def)
    obtain y where "RENDER_UINT size1 v 16 False width pad out = Some y" using R(2) by meson
    with 3 v show ?thesis by (simp add: vsn_conv_def)
  next
    case 4
    then obtain v where v: "va_unsigned m as = Some (v, as1)" using assms(1) by (auto simp: take_arg_def)
    obtain y where "RENDER_UINT size1 v 16 True width pad out = Some y" using R(2) by meson
    with 4 v show ?thesis by (simp add: vsn_conv_def)
  next
    case 5
    then obtain v where v: "va_ptr as = Some (v, as1)" using assms(1) by (auto simp: take_arg_def)
    obtain y where "RENDER_UINT size1 v 16 False 16 (CHR ''0'')
        (VSNPRINTF_APPEND size1 (VSNPRINTF_APPEND size1 out (CHR ''0'')) (CHR ''x'')) = Some y"
      using RENDER_UINT_16[of 16 size1 v False] by fastforce
    with 5 v show ?thesis by (simp add: vsn_conv_def Let_def)
  qed (use assms(1) in \<open>auto simp: vsn_conv_def take_arg_def Let_def\<close>)
qed

lemma vsn_loop_typed: "fmt_typed fmt as \<Longrightarrow> \<exists>res. vsn_loop size1 fmt as out = Some res"
proof (induction fmt as arbitrary: out rule: fmt_typed.induct)
  case (fmt_end as)
  then show ?case by (simp add: vsn_loop_Nil)
next
  case (fmt_plain c fs as)
  then show ?case using vsn_loop_full vsn_loop_plain by metis
next
  case (fmt_conv fs pad width m f rest as as1)
  obtain out1 where "vsn_conv size1 f pad width m as out = Some (out1, as1)"
    using vsn_conv_typed fmt_conv by blast
  then show ?case using fmt_conv vsn_loop_full[of out size1] vsn_loop_conv[OF _ fmt_conv(1), of out size1 as]
    by (cases "length out < size1 - 1") auto
qed

text \<open>
  C16. A format whose conversions fetch arguments of their type and whose widths are at most 20
  always returns, and the text and its terminator fit the buffer, whatever the lengths of the
  strings printed.
\<close>

theorem vsnprintf_typed:
  assumes "fmt_typed fmt as" "0 < size1"
  shows "\<exists>res. vsnprintf size1 fmt as = Some res \<and> length res < size1"
proof -
  obtain res where "vsn_loop size1 fmt as [] = Some res" using vsn_loop_typed[OF assms(1)] by blast
  with vsn_loop_bound[OF this] assms(2) show ?thesis by (simp add: vsnprintf_def)
qed

theorem vsnprintf_typed_witness:
  "\<exists>res. vsnprintf 8 ''%s: %02x'' [Arg_str (Some ''register''), Arg_int 7] = Some res \<and> length res < 8"
proof -
  have "fmt_typed ''%s: %02x'' [Arg_str (Some ''register''), Arg_int 7]"
    by (rule fmt_conv[where m = 0 and width = 0 and pad = "CHR '' ''" and f = "CHR ''s''"
              and rest = "'': %02x''" and ?as1.0 = "[Arg_int 7]"], code_simp, simp, code_simp,
        rule fmt_plain, simp, rule fmt_plain, simp,
        rule fmt_conv[where m = 0 and width = 2 and pad = "CHR ''0''" and f = "CHR ''x''"
              and rest = "[]" and ?as1.0 = "[]"], code_simp, simp, code_simp, rule fmt_end)
  from vsnprintf_typed[OF this, of 8] show ?thesis by simp
qed


end
