(* ===== verification/Terminal.thy ===== *)
theory Terminal
  imports Framebuffer Heap Klog Printf
begin

text \<open>
  The terminal emulator and what sits on it: \<open>kernel/src/display/terminal.c\<close>, \<open>display_manager.c\<close> and
  the kernel's print function of \<open>lib/printf.c\<close>. The state of a terminal holds the framebuffer it draws
  on. Buffers are lists, and every index into them and into the parameter array is checked.
\<close>

section \<open>State\<close>

datatype vt_state = VT_STATE_NORMAL | VT_STATE_ESC | VT_STATE_CSI | VT_STATE_PARAM | VT_STATE_DEC_SPACE

definition VT_MAX_PARAMS :: nat where "VT_MAX_PARAMS = 16"
definition TERM_DEFAULT_FG :: u32 where "TERM_DEFAULT_FG = FB_DEFAULT_FG"
definition TERM_DEFAULT_BG :: u32 where "TERM_DEFAULT_BG = FB_DEFAULT_BG"
definition TERM_COLOR_NEON_GREEN :: u32 where "TERM_COLOR_NEON_GREEN = 0x0039FF14"

definition terminal_palette :: "u32 list" where
  "terminal_palette =
    [0x00000000, 0x00AA0000, 0x0000AA00, 0x00AA5500, 0x000000AA, 0x00AA00AA, 0x0000AAAA, 0x00AAAAAA,
     0x00555555, 0x00FF5555, 0x0055FF55, 0x00FFFF55, 0x005555FF, 0x00FF55FF, 0x0055FFFF, 0x00FFFFFF]"

record terminal =
  cursor_x :: u32
  cursor_y :: u32
  width :: u32
  height :: u32
  fg_color :: u32
  bg_color :: u32
  bold :: bool
  vt_state :: vt_state
  params :: "u32 list"
  param_count :: nat
  private_mode :: bool
  buffer :: "char list option"
  attr_buffer :: "u32 list option"
  cursor_enabled :: bool
  cursor_blink_visible :: bool
  cursor_style :: u32
  cursor_suspended :: nat
  last_rendered_x :: u32
  last_rendered_y :: u32
  last_blink_ms :: u64
  tfb :: fb

definition t_fb :: "(fb \<Rightarrow> fb option) \<Rightarrow> terminal \<Rightarrow> terminal option" where
  "t_fb f t = do { b \<leftarrow> f (tfb t); Some (t\<lparr>tfb := b\<rparr>) }"

text \<open>The cell at column \<open>x\<close> of row \<open>y\<close>, computed in 32 bits.\<close>

definition cell :: "terminal \<Rightarrow> u32 \<Rightarrow> u32 \<Rightarrow> nat" where
  "cell t x y = unat (y * width t + x)"

definition buf_set :: "nat \<Rightarrow> char \<Rightarrow> terminal \<Rightarrow> terminal option" where
  "buf_set i c t = (case buffer t of
      None \<Rightarrow> Some t
    | Some b \<Rightarrow> do { b1 \<leftarrow> wr b i c; Some (t\<lparr>buffer := Some b1\<rparr>) })"

definition attr_set :: "nat \<Rightarrow> u32 \<Rightarrow> terminal \<Rightarrow> terminal option" where
  "attr_set i c t = (case attr_buffer t of
      None \<Rightarrow> Some t
    | Some b \<Rightarrow> do { b1 \<leftarrow> wr b i c; Some (t\<lparr>attr_buffer := Some b1\<rparr>) })"

section \<open>The cursor\<close>

definition draw_cell :: "u32 \<Rightarrow> u32 \<Rightarrow> char \<Rightarrow> u32 \<Rightarrow> terminal \<Rightarrow> terminal option" where
  "draw_cell x y c fg t = t_fb (framebuffer_draw_char (x * FONT_WIDTH) (y * FONT_HEIGHT) c fg (bg_color t)) t"

definition draw_cursor :: "u32 \<Rightarrow> u32 \<Rightarrow> u32 \<Rightarrow> fb \<Rightarrow> fb option" where
  "draw_cursor style px py s =
     (let color = TERM_COLOR_NEON_GREEN in
      if style = 1 \<or> style = 0 then
        for_range (\<lambda>y s. for_range (\<lambda>x s. framebuffer_put_pixel (px + of_nat x) (py + of_nat y) color s) 0 8 s) 0 16 s
      else if style = 2 then Some s
      else if style = 3 \<or> style = 4 then
        for_range (\<lambda>x s. do {
          s1 \<leftarrow> framebuffer_put_pixel (px + of_nat x) (py + FONT_HEIGHT - 1) color s;
          framebuffer_put_pixel (px + of_nat x) (py + FONT_HEIGHT - 2) color s1 }) 0 8 s
      else if style = 5 \<or> style = 6 then
        for_range (\<lambda>y s. do {
          s1 \<leftarrow> framebuffer_put_pixel px (py + of_nat y) color s;
          framebuffer_put_pixel (px + 1) (py + of_nat y) color s1 }) 0 16 s
      else Some s)"

definition terminal_render_cursor :: "bool \<Rightarrow> terminal \<Rightarrow> terminal option" where
  "terminal_render_cursor visible t =
     (if \<not> cursor_enabled t then Some t
      else if 0 < cursor_suspended t \<and> visible then Some t
      else if width t \<le> cursor_x t \<or> height t \<le> cursor_y t then Some t
      else if \<not> visible then do {
        let i = cell t (last_rendered_x t) (last_rendered_y t);
        c \<leftarrow> (case buffer t of None \<Rightarrow> Some (CHR '' '') | Some b \<Rightarrow> rd b i);
        fg \<leftarrow> (case attr_buffer t of None \<Rightarrow> Some (fg_color t) | Some b \<Rightarrow> rd b i);
        draw_cell (last_rendered_x t) (last_rendered_y t) c fg t }
      else do {
        let t1 = t\<lparr>last_rendered_x := cursor_x t, last_rendered_y := cursor_y t\<rparr>;
        t_fb (draw_cursor (cursor_style t1) (cursor_x t1 * FONT_WIDTH) (cursor_y t1 * FONT_HEIGHT)) t1 })"

section \<open>Screen operations\<close>

text \<open>\<open>memset(buf, v, n)\<close> and the two moves of a scroll, on a list.\<close>

definition fill :: "nat \<Rightarrow> 'a \<Rightarrow> 'a list \<Rightarrow> 'a list option" where
  "fill n v xs = (if n \<le> length xs then Some (replicate n v @ drop n xs) else None)"

definition scroll_buf :: "nat \<Rightarrow> nat \<Rightarrow> 'a \<Rightarrow> 'a list \<Rightarrow> 'a list option" where
  "scroll_buf w n v xs =
     (if w + n \<le> length xs then Some (take n (drop w xs) @ replicate w v @ drop (n + w) xs) else None)"

definition terminal_clear :: "terminal \<Rightarrow> terminal option" where
  "terminal_clear t = do {
     t1 \<leftarrow> terminal_render_cursor False t;
     t2 \<leftarrow> t_fb (framebuffer_clear (bg_color t1)) t1;
     let t3 = t2\<lparr>cursor_x := 0, cursor_y := 0\<rparr>;
     t4 \<leftarrow> (case buffer t3 of None \<Rightarrow> Some t3
            | Some b \<Rightarrow> do { b1 \<leftarrow> fill (unat (width t3 * height t3)) (CHR '' '') b; Some (t3\<lparr>buffer := Some b1\<rparr>) });
     let t5 = t4\<lparr>last_rendered_x := 0, last_rendered_y := 0\<rparr>;
     terminal_render_cursor (cursor_blink_visible t5) t5 }"

text \<open>The text dimensions are those of the framebuffer the terminal draws on.\<close>

definition terminal_init :: "terminal \<Rightarrow> terminal option" where
  "terminal_init t =
     (let (cols, rows) = framebuffer_get_text_dimensions (tfb t) in
      terminal_clear (t\<lparr>width := cols, height := rows, cursor_x := 0, cursor_y := 0,
        fg_color := TERM_DEFAULT_FG, bg_color := TERM_DEFAULT_BG, bold := False, vt_state := VT_STATE_NORMAL,
        param_count := 0, private_mode := False, last_rendered_x := 0, last_rendered_y := 0,
        buffer := None, attr_buffer := None, cursor_enabled := True, cursor_blink_visible := True,
        cursor_style := 5, last_blink_ms := 0\<rparr>))"

definition terminal_allocate_backbuffer :: "terminal \<times> heap \<Rightarrow> (terminal \<times> heap) option" where
  "terminal_allocate_backbuffer th = do {
     let (t, h) = th;
     let n = width t * height t;
     (t1, h1) \<leftarrow> (if buffer t = None then do {
                   (p, h1) \<leftarrow> kmalloc (ucast n) h;
                   Some (if p = None then t else t\<lparr>buffer := Some (replicate (unat n) (CHR '' ''))\<rparr>, h1) }
                 else Some (t, h));
     if attr_buffer t1 = None then do {
       (p, h2) \<leftarrow> kmalloc (ucast n * 4) h1;
       Some (if p = None then t1 else t1\<lparr>attr_buffer := Some (replicate (unat n) (fg_color t1))\<rparr>, h2) }
     else Some (t1, h1) }"

definition terminal_scroll :: "terminal \<Rightarrow> terminal option" where
  "terminal_scroll t = do {
     t1 \<leftarrow> t_fb (framebuffer_scroll FONT_HEIGHT) t;
     let t2 = t1\<lparr>cursor_y := (if cursor_y t1 > 0 then cursor_y t1 - 1 else cursor_y t1)\<rparr>;
     let t3 = t2\<lparr>last_rendered_y := (if last_rendered_y t2 > 0 then last_rendered_y t2 - 1 else last_rendered_y t2)\<rparr>;
     let w = unat (width t3);
     let n = unat (width t3 * (height t3 - 1));
     t4 \<leftarrow> (case buffer t3 of None \<Rightarrow> Some t3
            | Some b \<Rightarrow> do { b1 \<leftarrow> scroll_buf w n (CHR '' '') b; Some (t3\<lparr>buffer := Some b1\<rparr>) });
     case attr_buffer t4 of None \<Rightarrow> Some t4
     | Some b \<Rightarrow> do { b1 \<leftarrow> scroll_buf w n (fg_color t4) b; Some (t4\<lparr>attr_buffer := Some b1\<rparr>) } }"

definition terminal_set_colors :: "u32 \<Rightarrow> u32 \<Rightarrow> terminal \<Rightarrow> terminal" where
  "terminal_set_colors fg bg t = t\<lparr>fg_color := fg, bg_color := bg\<rparr>"

text \<open>The line wrap and the scroll at the bottom of the screen.\<close>

definition wrap_line :: "terminal \<Rightarrow> terminal" where
  "wrap_line t = (if width t \<le> cursor_x t then t\<lparr>cursor_x := 0, cursor_y := cursor_y t + 1\<rparr> else t)"

definition wrap_screen :: "terminal \<Rightarrow> terminal option" where
  "wrap_screen t =
     (if height t \<le> cursor_y t then do {
        t1 \<leftarrow> terminal_scroll t;
        Some (t1\<lparr>cursor_y := height t1 - 1\<rparr>) }
      else Some t)"

definition put_glyph :: "char \<Rightarrow> terminal \<Rightarrow> terminal option" where
  "put_glyph c t = do {
     t1 \<leftarrow> wrap_screen (wrap_line t);
     t2 \<leftarrow> draw_cell (cursor_x t1) (cursor_y t1) c (fg_color t1) t1;
     let i = cell t2 (cursor_x t2) (cursor_y t2);
     t3 \<leftarrow> buf_set i c t2;
     t4 \<leftarrow> attr_set i (fg_color t3) t3;
     Some (t4\<lparr>cursor_x := cursor_x t4 + 1\<rparr>) }"

definition terminal_putchar :: "char \<Rightarrow> terminal \<Rightarrow> terminal option" where
  "terminal_putchar c t = do {
     t1 \<leftarrow> (if cursor_suspended t = 0 then terminal_render_cursor False t else Some t);
     t2 \<leftarrow> (if c = CHR 0x0A then Some (t1\<lparr>cursor_x := 0, cursor_y := cursor_y t1 + 1\<rparr>)
            else if c = CHR 0x0D then Some (t1\<lparr>cursor_x := 0\<rparr>)
            else if c = CHR 0x08 then
              (if cursor_x t1 > 0 then do {
                 let t' = t1\<lparr>cursor_x := cursor_x t1 - 1\<rparr>;
                 t'' \<leftarrow> draw_cell (cursor_x t') (cursor_y t') (CHR '' '') (fg_color t') t';
                 buf_set (cell t'' (cursor_x t'') (cursor_y t'')) (CHR '' '') t'' }
               else Some t1)
            else if c = CHR 0x09 then Some (t1\<lparr>cursor_x := (cursor_x t1 + 8) AND NOT 7\<rparr>)
            else put_glyph c t1);
     t3 \<leftarrow> wrap_screen (wrap_line t2);
     if cursor_suspended t3 = 0 then terminal_render_cursor (cursor_blink_visible t3) t3 else Some t3 }"

section \<open>Escape sequences\<close>

definition sgr_param :: "u32 \<Rightarrow> terminal \<Rightarrow> terminal option" where
  "sgr_param p t =
     (if p = 0 then Some (t\<lparr>fg_color := TERM_DEFAULT_FG, bg_color := TERM_DEFAULT_BG, bold := False\<rparr>)
      else if p = 1 then Some (t\<lparr>bold := True\<rparr>)
      else if p = 22 then Some (t\<lparr>bold := False\<rparr>)
      else if 30 \<le> p \<and> p \<le> 37 then do {
        c \<leftarrow> rd terminal_palette (unat (if bold t then p - 30 + 8 else p - 30));
        Some (t\<lparr>fg_color := c\<rparr>) }
      else if 40 \<le> p \<and> p \<le> 47 then do { c \<leftarrow> rd terminal_palette (unat (p - 40)); Some (t\<lparr>bg_color := c\<rparr>) }
      else if 90 \<le> p \<and> p \<le> 97 then do { c \<leftarrow> rd terminal_palette (unat (p - 90 + 8)); Some (t\<lparr>fg_color := c\<rparr>) }
      else if 100 \<le> p \<and> p \<le> 107 then do { c \<leftarrow> rd terminal_palette (unat (p - 100 + 8)); Some (t\<lparr>bg_color := c\<rparr>) }
      else if p = 39 then Some (t\<lparr>fg_color := TERM_DEFAULT_FG\<rparr>)
      else if p = 49 then Some (t\<lparr>bg_color := TERM_DEFAULT_BG\<rparr>)
      else Some t)"

definition terminal_handle_sgr :: "terminal \<Rightarrow> terminal option" where
  "terminal_handle_sgr t =
     (if param_count t = 0 then Some (t\<lparr>fg_color := TERM_DEFAULT_FG, bg_color := TERM_DEFAULT_BG\<rparr>)
      else for_range (\<lambda>i t. do { p \<leftarrow> rd (params t) i; sgr_param p t }) 0 (param_count t) t)"

text \<open>The final character of a control sequence.\<close>

definition csi_final :: "char \<Rightarrow> terminal \<Rightarrow> terminal option" where
  "csi_final c t = do {
     p0 \<leftarrow> rd (params t) 0;
     p1 \<leftarrow> rd (params t) 1;
     t1 \<leftarrow> (if c = CHR ''m'' then terminal_handle_sgr t
            else if c = CHR ''H'' \<or> c = CHR ''f'' then
              (let y0 = (if p0 > 0 then p0 - 1 else p0); x0 = (if p1 > 0 then p1 - 1 else p1);
                   y = (if height t \<le> y0 then height t - 1 else y0);
                   x = (if width t \<le> x0 then width t - 1 else x0)
               in Some (t\<lparr>cursor_x := x, cursor_y := y\<rparr>))
            else if c = CHR ''J'' then terminal_clear t
            else if c = CHR ''K'' then
              for_range (\<lambda>x t. do {
                t' \<leftarrow> buf_set (cell t (of_nat x) (cursor_y t)) (CHR '' '') t;
                draw_cell (of_nat x) (cursor_y t') (CHR '' '') (fg_color t') t' })
                (unat (cursor_x t)) (unat (width t) - unat (cursor_x t)) t
            else if c = CHR ''C'' then
              (let n = (if p0 = 0 then 1 else p0); x = cursor_x t + n
               in Some (t\<lparr>cursor_x := (if width t \<le> x then width t - 1 else x)\<rparr>))
            else if c = CHR ''D'' then
              (let n = (if p0 = 0 then 1 else p0)
               in Some (t\<lparr>cursor_x := (if n \<le> cursor_x t then cursor_x t - n else 0)\<rparr>))
            else if c = CHR ''h'' \<and> private_mode t \<and> p0 = 25 then Some (t\<lparr>cursor_enabled := True\<rparr>)
            else if c = CHR ''l'' \<and> private_mode t \<and> p0 = 25 then Some (t\<lparr>cursor_enabled := False\<rparr>)
            else Some t);
     Some (t1\<lparr>vt_state := VT_STATE_NORMAL\<rparr>) }"

definition is_digit :: "char \<Rightarrow> bool" where
  "is_digit c \<longleftrightarrow> 48 \<le> (of_char c :: nat) \<and> (of_char c :: nat) \<le> 57"

definition digit_of :: "char \<Rightarrow> u32" where
  "digit_of c = of_char c - 48"

text \<open>One iteration of the loop of \<open>terminal_write\<close>; \<open>True\<close> says that the character is processed again.\<close>

definition vt_step :: "char \<Rightarrow> terminal \<Rightarrow> (terminal \<times> bool) option" where
  "vt_step c t = (case vt_state t of
      VT_STATE_NORMAL \<Rightarrow>
        if c = CHR 0x1B then Some (t\<lparr>vt_state := VT_STATE_ESC\<rparr>, False)
        else do { t1 \<leftarrow> terminal_putchar c t; Some (t1, False) }
    | VT_STATE_ESC \<Rightarrow>
        if c = CHR ''['' then
          Some (t\<lparr>vt_state := VT_STATE_CSI, param_count := 0, params := replicate (length (params t)) 0,
                  private_mode := False\<rparr>, False)
        else Some (t\<lparr>vt_state := VT_STATE_NORMAL\<rparr>, False)
    | VT_STATE_CSI \<Rightarrow>
        if c = CHR ''?'' then Some (t\<lparr>private_mode := True\<rparr>, False)
        else if is_digit c then do {
          ps \<leftarrow> wr (params t) (param_count t) (digit_of c);
          Some (t\<lparr>params := ps, vt_state := VT_STATE_PARAM\<rparr>, False) }
        else if c = CHR '';'' then Some (t\<lparr>param_count := param_count t + 1\<rparr>, False)
        else if c = CHR '' '' then Some (t\<lparr>vt_state := VT_STATE_DEC_SPACE\<rparr>, False)
        else do { t1 \<leftarrow> csi_final c t; Some (t1, False) }
    | VT_STATE_DEC_SPACE \<Rightarrow>
        if c = CHR ''q'' then do {
          p0 \<leftarrow> rd (params t) 0;
          Some (t\<lparr>cursor_style := p0, vt_state := VT_STATE_NORMAL\<rparr>, False) }
        else if c \<noteq> CHR '' '' then Some (t\<lparr>vt_state := VT_STATE_NORMAL\<rparr>, False)
        else Some (t, False)
    | VT_STATE_PARAM \<Rightarrow>
        if is_digit c then do {
          p \<leftarrow> rd (params t) (param_count t);
          ps \<leftarrow> wr (params t) (param_count t) (p * 10 + digit_of c);
          Some (t\<lparr>params := ps\<rparr>, False) }
        else if c = CHR '';'' then
          Some (t\<lparr>vt_state := VT_STATE_CSI, param_count := param_count t + 1\<rparr>, False)
        else Some (t\<lparr>param_count := param_count t + 1, vt_state := VT_STATE_CSI\<rparr>, True))"

lemma vt_step_again:
  "vt_step c t = Some (t', True) \<Longrightarrow> vt_state t = VT_STATE_PARAM \<and> vt_state t' = VT_STATE_CSI"
  by (auto simp: vt_step_def bind_eq_Some_conv split: vt_state.splits if_splits)

function vt_loop :: "char list \<Rightarrow> terminal \<Rightarrow> terminal option" where
  "vt_loop [] t = Some t"
| "vt_loop (c # cs) t = (case vt_step c t of
      None \<Rightarrow> None
    | Some (t1, again) \<Rightarrow> if again then vt_loop (c # cs) t1 else vt_loop cs t1)"
  by pat_completeness auto
termination
  by (relation "measure (\<lambda>(cs, t). 2 * length cs + (if vt_state t = VT_STATE_PARAM then 1 else 0))")
    (auto dest: vt_step_again)

text \<open>\<open>now\<close> is \<open>pit_get_ticks()\<close>.\<close>

definition terminal_write :: "u64 \<Rightarrow> char list \<Rightarrow> terminal \<Rightarrow> terminal option" where
  "terminal_write now data t = do {
     t1 \<leftarrow> terminal_render_cursor False (t\<lparr>cursor_blink_visible := True, last_blink_ms := now\<rparr>);
     t2 \<leftarrow> vt_loop data (t1\<lparr>cursor_suspended := cursor_suspended t1 + 1\<rparr>);
     let t3 = t2\<lparr>cursor_suspended := cursor_suspended t2 - 1\<rparr>;
     terminal_render_cursor (cursor_blink_visible t3) t3 }"

definition terminal_blink_tick :: "u64 \<Rightarrow> terminal \<Rightarrow> terminal option" where
  "terminal_blink_tick now t =
     (if 0 < cursor_suspended t then Some t
      else if 500 \<le> now - last_blink_ms t then do {
        let t1 = t\<lparr>cursor_blink_visible := \<not> cursor_blink_visible t\<rparr>;
        t2 \<leftarrow> terminal_render_cursor (cursor_blink_visible t1) t1;
        Some (t2\<lparr>last_blink_ms := now\<rparr>) }
      else Some t)"

section \<open>The display manager and kprintf\<close>

datatype display_mode = DISPLAY_MODE_TERMINAL | DISPLAY_MODE_GUI

record console =
  main_terminal :: terminal
  display_mode :: display_mode
  kernel_log :: klog

definition display_manager_init :: "console \<Rightarrow> console option" where
  "display_manager_init s = do {
     t \<leftarrow> terminal_init (main_terminal s);
     Some (s\<lparr>main_terminal := t, display_mode := DISPLAY_MODE_TERMINAL\<rparr>) }"

definition display_manager_write :: "u64 \<Rightarrow> char list \<Rightarrow> console \<Rightarrow> console option" where
  "display_manager_write now data s =
     (if display_mode s = DISPLAY_MODE_TERMINAL then do {
        t \<leftarrow> terminal_write now data (main_terminal s);
        Some (s\<lparr>main_terminal := t\<rparr>) }
      else Some s)"

definition display_manager_set_mode :: "display_mode \<Rightarrow> console \<Rightarrow> console" where
  "display_manager_set_mode m s = s\<lparr>display_mode := m\<rparr>"

definition display_manager_get_mode :: "console \<Rightarrow> display_mode" where
  "display_manager_get_mode s = display_mode s"

definition kprintf_init :: "console \<Rightarrow> console option" where
  "kprintf_init s = display_manager_init (s\<lparr>kernel_log := klog_init (kernel_log s)\<rparr>)"

definition kputchar :: "u64 \<Rightarrow> char \<Rightarrow> console \<Rightarrow> console option" where
  "kputchar now c s = do {
     l \<leftarrow> klog_putc c (kernel_log s);
     display_manager_write now [c] (s\<lparr>kernel_log := l\<rparr>) }"

definition kputs :: "u64 \<Rightarrow> char list \<Rightarrow> console \<Rightarrow> console option" where
  "kputs now str s = do {
     s1 \<leftarrow> display_manager_write now str s;
     l \<leftarrow> klog_puts str (kernel_log s1);
     Some (s1\<lparr>kernel_log := l\<rparr>) }"

definition kprintf :: "u64 \<Rightarrow> char list \<Rightarrow> va_val list \<Rightarrow> console \<Rightarrow> (nat \<times> console) option" where
  "kprintf now fmt as s = do {
     buf \<leftarrow> vsnprintf 1024 fmt as;
     s1 \<leftarrow> display_manager_write now buf s;
     l \<leftarrow> klog_puts buf (kernel_log s1);
     Some (length buf, s1\<lparr>kernel_log := l\<rparr>) }"

section \<open>Well-formed terminals\<close>

text \<open>
  The buffers have one cell per character of the screen, the position the cursor was last drawn at is on
  the screen, and there are \<open>VT_MAX_PARAMS\<close> parameters. The cursor itself may be past an edge in the middle
  of an operation, so that it is on the screen is a predicate of its own.
\<close>

definition geo :: "terminal \<Rightarrow> bool" where
  "geo t \<longleftrightarrow> 0 < unat (width t) \<and> 0 < unat (height t) \<and> unat (width t) * unat (height t) < 2 ^ 31 \<and>
     (\<forall>b. buffer t = Some b \<longrightarrow> length b = unat (width t) * unat (height t)) \<and>
     (\<forall>b. attr_buffer t = Some b \<longrightarrow> length b = unat (width t) * unat (height t)) \<and>
     last_rendered_x t < width t \<and> last_rendered_y t < height t \<and>
     length (params t) = VT_MAX_PARAMS \<and> fb_wf (tfb t)"

definition cursor_in :: "terminal \<Rightarrow> bool" where
  "cursor_in t \<longleftrightarrow> cursor_x t < width t \<and> cursor_y t < height t"

definition term_wf :: "terminal \<Rightarrow> bool" where
  "term_wf t \<longleftrightarrow> geo t \<and> cursor_in t"

text \<open>The screen operations leave the dimensions and the state of the parser alone.\<close>

definition vsame :: "terminal \<Rightarrow> terminal \<Rightarrow> bool" where
  "vsame t t' \<longleftrightarrow> width t' = width t \<and> height t' = height t \<and> vt_state t' = vt_state t \<and>
     params t' = params t \<and> param_count t' = param_count t \<and> cursor_suspended t' = cursor_suspended t"

definition cursor_same :: "terminal \<Rightarrow> terminal \<Rightarrow> bool" where
  "cursor_same t t' \<longleftrightarrow> cursor_x t' = cursor_x t \<and> cursor_y t' = cursor_y t"

lemma vsame_refl [simp]: "vsame t t"
  by (simp add: vsame_def)

lemma vsame_trans: "vsame a b \<Longrightarrow> vsame b c \<Longrightarrow> vsame a c"
  by (simp add: vsame_def)

lemma cursor_same_refl [simp]: "cursor_same t t"
  by (simp add: cursor_same_def)

lemma cursor_same_in: "cursor_same t t' \<Longrightarrow> vsame t t' \<Longrightarrow> cursor_in t \<Longrightarrow> cursor_in t'"
  by (simp add: cursor_same_def vsame_def cursor_in_def)

lemma cell_bound:
  assumes "geo t" "x < width t" "y < height t"
  shows "cell t x y < unat (width t) * unat (height t)"
proof -
  have x: "unat x < unat (width t)" and y: "Suc (unat y) \<le> unat (height t)"
    using assms(2,3) by (auto simp: word_less_nat_alt)
  have "unat y * unat (width t) + unat x < Suc (unat y) * unat (width t)" using x by simp
  also have "\<dots> \<le> unat (height t) * unat (width t)" using y by (intro mult_right_mono) simp_all
  finally have b: "unat y * unat (width t) + unat x < unat (width t) * unat (height t)" by (simp add: mult.commute)
  then have "cell t x y = unat y * unat (width t) + unat x"
    using assms(1) unfolding cell_def geo_def by (intro unat_mult_add_u32) simp
  then show ?thesis using b by simp
qed

lemma fill_length: "n \<le> length xs \<Longrightarrow> \<exists>ys. fill n v xs = Some ys \<and> length ys = length xs"
  by (simp add: fill_def)

lemma scroll_buf_length: "w + n \<le> length xs \<Longrightarrow> \<exists>ys. scroll_buf w n v xs = Some ys \<and> length ys = length xs"
  by (simp add: scroll_buf_def)

lemma t_fb_ok:
  assumes "geo t" "\<exists>b. f (tfb t) = Some b \<and> fb_same (tfb t) b"
  shows "\<exists>t'. t_fb f t = Some t' \<and> geo t' \<and> vsame t t' \<and> cursor_same t t'"
  using assms fb_same_wf by (auto simp: t_fb_def geo_def vsame_def cursor_same_def)

lemma if_ok:
  "(b \<Longrightarrow> \<exists>t. f = Some t \<and> P t) \<Longrightarrow> (\<not> b \<Longrightarrow> \<exists>t. g = Some t \<and> P t) \<Longrightarrow>
   \<exists>t. (if b then f else g) = Some t \<and> P t"
  by simp

lemma Some_ok: "P t \<Longrightarrow> \<exists>t'. Some t = Some t' \<and> P t'"
  by simp

section \<open>Drawing is safe\<close>

lemma mult_u32_bound:
  fixes x :: u32
  assumes "unat k = 8 \<or> unat k = 16"
  shows "unat (x * k) + unat k \<le> 2 ^ 32"
proof -
  have "unat (x * k) = unat x * unat k mod 2 ^ 32" by (simp add: unat_word_ariths)
  then obtain q where "unat (x * k) = unat k * q" "unat (x * k) < 2 ^ 32"
    using assms by (auto simp: mod_mult_mult2[of _ 8 "2 ^ 29", simplified] mod_mult_mult2[of _ 16 "2 ^ 28", simplified]
        mult.commute)
  then show ?thesis using assms by auto
qed

lemma draw_char_safe:
  fixes x y :: u32
  assumes wf: "fb_wf s"
  shows "\<exists>s'. framebuffer_draw_char (x * FONT_WIDTH) (y * FONT_HEIGHT) c fg bg s = Some s' \<and> fb_same s s'"
proof (cases "fb_initialized s")
  case True
  have "unat (x * FONT_WIDTH) + 8 \<le> 2 ^ 32" "unat (y * FONT_HEIGHT) + 16 \<le> 2 ^ 32"
    using mult_u32_bound[of FONT_WIDTH x] mult_u32_bound[of FONT_HEIGHT y]
    by (simp_all add: FONT_WIDTH_def FONT_HEIGHT_def)
  from draw_char_spec[OF wf True this, of c fg bg] show ?thesis by blast
next
  case False
  then show ?thesis by (simp add: framebuffer_draw_char_def)
qed

lemma draw_cell_ok:
  assumes "geo t"
  shows "\<exists>t'. draw_cell x y c fg t = Some t' \<and> geo t' \<and> vsame t t' \<and> cursor_same t t'"
  unfolding draw_cell_def using assms by (intro t_fb_ok draw_char_safe) (simp_all add: geo_def)

lemma fb_for_safe:
  assumes wf: "fb_wf s" and f: "\<And>i s. fb_wf s \<Longrightarrow> \<exists>s'. f i s = Some s' \<and> fb_same s s'"
  shows "\<exists>s'. for_range f a n s = Some s' \<and> fb_same s s'"
proof (rule for_range_invariant[where P = "\<lambda>_. fb_same s"])
  fix i s1 assume "fb_same s s1"
  then show "\<exists>s'. f i s1 = Some s' \<and> fb_same s s'"
    using f[OF fb_same_wf[OF _ wf], of s1 i] fb_same_trans by blast
qed simp

lemma put_two_safe:
  assumes wf: "fb_wf s"
  shows "\<exists>s'. do { s1 \<leftarrow> framebuffer_put_pixel x y v s; framebuffer_put_pixel x' y' v s1 } = Some s' \<and> fb_same s s'"
proof -
  obtain s1 where s1: "framebuffer_put_pixel x y v s = Some s1" "fb_same s s1" using put_pixel_safe[OF wf] by blast
  obtain s2 where "framebuffer_put_pixel x' y' v s1 = Some s2" "fb_same s1 s2"
    using put_pixel_safe[OF fb_same_wf[OF s1(2) wf]] by blast
  then show ?thesis using s1 fb_same_trans by auto
qed

lemma draw_cursor_safe:
  assumes wf: "fb_wf s"
  shows "\<exists>s'. draw_cursor style px py s = Some s' \<and> fb_same s s'"
  unfolding draw_cursor_def Let_def
  by (simp only: split: if_split) (intro conjI impI fb_for_safe[OF wf] put_two_safe put_pixel_safe; (simp; fail)?;
      (rule exI[of _ s], simp; fail)?; (erule fb_for_safe, erule put_pixel_safe)?)

lemma render_cursor_ok:
  assumes g: "geo t"
  shows "\<exists>t'. terminal_render_cursor visible t = Some t' \<and> geo t' \<and> vsame t t' \<and> cursor_same t t'"
proof (cases "\<not> cursor_enabled t \<or> (0 < cursor_suspended t \<and> visible) \<or> width t \<le> cursor_x t \<or> height t \<le> cursor_y t")
  case True
  then show ?thesis using g by (auto simp: terminal_render_cursor_def)
next
  case on: False
  have fb: "fb_wf (tfb t)" using g by (simp add: geo_def)
  show ?thesis
  proof (cases visible)
    case True
    let ?t1 = "t\<lparr>last_rendered_x := cursor_x t, last_rendered_y := cursor_y t\<rparr>"
    have g1: "geo ?t1" using g on by (auto simp: geo_def)
    have "\<exists>t'. t_fb (draw_cursor (cursor_style ?t1) (cursor_x ?t1 * FONT_WIDTH) (cursor_y ?t1 * FONT_HEIGHT)) ?t1 = Some t' \<and>
        geo t' \<and> vsame ?t1 t' \<and> cursor_same ?t1 t'"
      by (rule t_fb_ok[OF g1]) (simp add: draw_cursor_safe[OF fb])
    then show ?thesis using on True by (simp add: terminal_render_cursor_def vsame_def cursor_same_def)
  next
    case False
    have "cell t (last_rendered_x t) (last_rendered_y t) < unat (width t) * unat (height t)"
      by (rule cell_bound[OF g]) (use g in \<open>simp_all add: geo_def\<close>)
    then obtain c fg where
      "(case buffer t of None \<Rightarrow> Some (CHR '' '') | Some b \<Rightarrow> rd b (cell t (last_rendered_x t) (last_rendered_y t))) = Some c"
      "(case attr_buffer t of None \<Rightarrow> Some (fg_color t) | Some b \<Rightarrow> rd b (cell t (last_rendered_x t) (last_rendered_y t))) = Some fg"
      using g by (fastforce simp: geo_def split: option.splits)
    then show ?thesis using on False draw_cell_ok[OF g, of "last_rendered_x t" "last_rendered_y t" c fg]
      by (simp add: terminal_render_cursor_def)
  qed
qed

section \<open>Screen operations keep the terminal well-formed\<close>

lemma unat_wh: "geo t \<Longrightarrow> unat (width t * height t) = unat (width t) * unat (height t)"
  by (simp add: geo_def unat_word_ariths)

lemma unat_wh1: "geo t \<Longrightarrow> unat (width t * (height t - 1)) + unat (width t) = unat (width t) * unat (height t)"
proof -
  assume g: "geo t"
  then have h: "unat (height t - 1) = unat (height t) - 1"
    by (subst unat_sub) (auto simp: geo_def word_le_nat_alt)
  have "unat (width t) * (unat (height t) - 1) + unat (width t) = unat (width t) * unat (height t)"
    using g by (cases "unat (height t)") (auto simp: geo_def)
  moreover have "unat (width t * (height t - 1)) = unat (width t) * (unat (height t) - 1) mod 2 ^ 32"
    by (simp add: unat_word_ariths h)
  ultimately show ?thesis using g by (simp add: geo_def)
qed

lemma buf_set_ok:
  assumes "geo t" "i < unat (width t) * unat (height t)"
  shows "\<exists>t'. buf_set i c t = Some t' \<and> geo t' \<and> vsame t t' \<and> cursor_same t t'"
  using assms by (cases "buffer t") (auto simp: buf_set_def geo_def vsame_def cursor_same_def)

lemma attr_set_ok:
  assumes "geo t" "i < unat (width t) * unat (height t)"
  shows "\<exists>t'. attr_set i c t = Some t' \<and> geo t' \<and> vsame t t' \<and> cursor_same t t'"
  using assms by (cases "attr_buffer t") (auto simp: attr_set_def geo_def vsame_def cursor_same_def)

lemma cell_on_screen: "geo t \<Longrightarrow> cursor_in t \<Longrightarrow> cell t (cursor_x t) (cursor_y t) < unat (width t) * unat (height t)"
  by (rule cell_bound) (simp_all add: cursor_in_def)

lemma terminal_clear_ok:
  assumes g: "geo t"
  shows "\<exists>t'. terminal_clear t = Some t' \<and> geo t' \<and> vsame t t' \<and> cursor_in t'"
proof -
  obtain t1 where t1: "terminal_render_cursor False t = Some t1" "geo t1" "vsame t t1"
    using render_cursor_ok[OF g] by blast
  obtain t2 where t2: "t_fb (framebuffer_clear (bg_color t1)) t1 = Some t2" "geo t2" "vsame t1 t2"
    using t_fb_ok[OF t1(2), of "framebuffer_clear (bg_color t1)"] clear_safe t1(2) by (auto simp: geo_def)
  let ?t3 = "t2\<lparr>cursor_x := 0, cursor_y := 0\<rparr>"
  let ?b = "case buffer ?t3 of None \<Rightarrow> Some ?t3
            | Some b \<Rightarrow> do { b1 \<leftarrow> fill (unat (width ?t3 * height ?t3)) (CHR '' '') b; Some (?t3\<lparr>buffer := Some b1\<rparr>) }"
  obtain t4 where t4: "?b = Some t4" "geo t4" "vsame t2 t4" "cursor_x t4 = 0" "cursor_y t4 = 0"
    using t2(2) unat_wh[OF t2(2)]
    by (cases "buffer t2") (auto simp: geo_def vsame_def fill_def)
  let ?t5 = "t4\<lparr>last_rendered_x := 0, last_rendered_y := 0\<rparr>"
  have g5: "geo ?t5" "vsame t2 ?t5" "cursor_in ?t5"
    using t4 by (auto simp: geo_def vsame_def cursor_in_def word_less_nat_alt)
  obtain t6 where t6: "terminal_render_cursor (cursor_blink_visible ?t5) ?t5 = Some t6" "geo t6" "vsame ?t5 t6" "cursor_same ?t5 t6"
    using render_cursor_ok[OF g5(1)] by blast
  have "terminal_clear t = Some t6"
    unfolding terminal_clear_def Let_def using t1(1) t2(1) t4(1) t6(1) by simp
  moreover have "vsame t t6" using vsame_trans t1(3) t2(3) g5(2) t6(3) by blast
  ultimately show ?thesis using t6 cursor_same_in[OF t6(4,3) g5(3)] by blast
qed

lemma terminal_scroll_ok:
  assumes g: "geo t"
  shows "\<exists>t'. terminal_scroll t = Some t' \<and> geo t' \<and> vsame t t' \<and> cursor_x t' = cursor_x t"
proof -
  obtain t1 where t1: "t_fb (framebuffer_scroll FONT_HEIGHT) t = Some t1" "geo t1" "vsame t t1" "cursor_same t t1"
    using t_fb_ok[OF g, of "framebuffer_scroll FONT_HEIGHT"] scroll_safe g by (auto simp: geo_def FONT_HEIGHT_def)
  define t2 where "t2 = t1\<lparr>cursor_y := (if cursor_y t1 > 0 then cursor_y t1 - 1 else cursor_y t1)\<rparr>"
  define t3 where "t3 = t2\<lparr>last_rendered_y := (if last_rendered_y t2 > 0 then last_rendered_y t2 - 1 else last_rendered_y t2)\<rparr>"
  have y: "(if last_rendered_y t2 > 0 then last_rendered_y t2 - 1 else last_rendered_y t2) < height t2"
    using t1(2) by (auto simp: t2_def geo_def word_less_nat_alt unat_sub word_le_nat_alt)
  have t3: "geo t3" "vsame t1 t3" "cursor_x t3 = cursor_x t1"
    using t1(2) y by (simp_all add: t3_def geo_def vsame_def t2_def)
  let ?w = "unat (width t3)" and ?n = "unat (width t3 * (height t3 - 1))"
  obtain t4 where t4: "(case buffer t3 of None \<Rightarrow> Some t3
            | Some b \<Rightarrow> do { b1 \<leftarrow> scroll_buf ?w ?n (CHR '' '') b; Some (t3\<lparr>buffer := Some b1\<rparr>) }) = Some t4"
      "geo t4" "vsame t3 t4" "cursor_x t4 = cursor_x t3"
    using t3(1) unat_wh1[OF t3(1)] by (cases "buffer t3") (auto simp: geo_def vsame_def scroll_buf_def)
  have w4: "width t4 = width t3" "height t4 = height t3" using t4(3) by (simp_all add: vsame_def)
  obtain t5 where t5: "(case attr_buffer t4 of None \<Rightarrow> Some t4
            | Some b \<Rightarrow> do { b1 \<leftarrow> scroll_buf ?w ?n (fg_color t4) b; Some (t4\<lparr>attr_buffer := Some b1\<rparr>) }) = Some t5"
      "geo t5" "vsame t4 t5" "cursor_x t5 = cursor_x t4"
    using t4(2) unat_wh1[OF t3(1)] w4 by (cases "attr_buffer t4") (auto simp: geo_def vsame_def scroll_buf_def)
  have "terminal_scroll t = Some t5"
    unfolding terminal_scroll_def t1(1) Option.bind.bind_lunit Let_def t2_def[symmetric] t3_def[symmetric] t4(1) t5(1) ..
  moreover have "vsame t t5" using vsame_trans t1(3) t3(2) t4(3) t5(3) by blast
  ultimately show ?thesis using t5(2,4) t4(4) t3(3) t1(4) by (auto simp: cursor_same_def)
qed

lemma wrap_ok:
  assumes g: "geo t"
  shows "\<exists>t'. wrap_screen (wrap_line t) = Some t' \<and> geo t' \<and> vsame t t' \<and> cursor_in t'"
proof -
  have l: "geo (wrap_line t)" "vsame t (wrap_line t)" "cursor_x (wrap_line t) < width (wrap_line t)"
    using g by (auto simp: wrap_line_def geo_def vsame_def not_le word_less_nat_alt[of 0])
  show ?thesis
  proof (cases "height (wrap_line t) \<le> cursor_y (wrap_line t)")
    case True
    obtain t1 where t1: "terminal_scroll (wrap_line t) = Some t1" "geo t1" "vsame (wrap_line t) t1"
        "cursor_x t1 = cursor_x (wrap_line t)" using terminal_scroll_ok[OF l(1)] by blast
    let ?t2 = "t1\<lparr>cursor_y := height t1 - 1\<rparr>"
    have "height t1 - 1 < height t1" using t1(2) by (simp add: geo_def word_less_nat_alt unat_sub word_le_nat_alt)
    then have "geo ?t2" "vsame t ?t2" "cursor_in ?t2"
      using t1 l by (auto simp: geo_def vsame_def cursor_in_def)
    then show ?thesis using True t1(1) by (simp add: wrap_screen_def)
  next
    case False
    then show ?thesis using l by (auto simp: wrap_screen_def cursor_in_def)
  qed
qed

lemma put_glyph_ok:
  assumes g: "geo t"
  shows "\<exists>t'. put_glyph c t = Some t' \<and> geo t' \<and> vsame t t'"
proof -
  obtain t1 where t1: "wrap_screen (wrap_line t) = Some t1" "geo t1" "vsame t t1" "cursor_in t1"
    using wrap_ok[OF g] by blast
  obtain t2 where t2: "draw_cell (cursor_x t1) (cursor_y t1) c (fg_color t1) t1 = Some t2" "geo t2" "vsame t1 t2" "cursor_same t1 t2"
    using draw_cell_ok[OF t1(2)] by blast
  let ?i = "cell t2 (cursor_x t2) (cursor_y t2)"
  have i: "?i < unat (width t2) * unat (height t2)"
    by (rule cell_on_screen[OF t2(2) cursor_same_in[OF t2(4,3) t1(4)]])
  obtain t3 where t3: "buf_set ?i c t2 = Some t3" "geo t3" "vsame t2 t3" using buf_set_ok[OF t2(2) i] by blast
  have i3: "?i < unat (width t3) * unat (height t3)" using i t3(3) by (simp add: vsame_def)
  obtain t4 where t4: "attr_set ?i (fg_color t3) t3 = Some t4" "geo t4" "vsame t3 t4" using attr_set_ok[OF t3(2) i3] by blast
  have "put_glyph c t = Some (t4\<lparr>cursor_x := cursor_x t4 + 1\<rparr>)"
    using t1(1) t2(1) t3(1) t4(1) by (simp add: put_glyph_def Let_def)
  moreover have "geo (t4\<lparr>cursor_x := cursor_x t4 + 1\<rparr>)" using t4(2) by (simp add: geo_def)
  moreover have "vsame t t4" using vsame_trans t1(3) t2(3) t3(3) t4(3) by blast
  then have "vsame t (t4\<lparr>cursor_x := cursor_x t4 + 1\<rparr>)" by (simp add: vsame_def)
  ultimately show ?thesis by blast
qed

lemma backspace_ok:
  assumes g: "geo t" and c: "cursor_in t" and x: "cursor_x t > 0"
  shows "\<exists>t'. do { let t1 = t\<lparr>cursor_x := cursor_x t - 1\<rparr>;
                 t2 \<leftarrow> draw_cell (cursor_x t1) (cursor_y t1) (CHR '' '') (fg_color t1) t1;
                 buf_set (cell t2 (cursor_x t2) (cursor_y t2)) (CHR '' '') t2 } = Some t' \<and> geo t' \<and> vsame t t'"
proof -
  let ?t1 = "t\<lparr>cursor_x := cursor_x t - 1\<rparr>"
  have x1: "cursor_x t - 1 < width t"
    using c x by (auto simp: cursor_in_def word_less_nat_alt unat_sub word_le_nat_alt)
  have t1: "geo ?t1" "vsame t ?t1" "cursor_in ?t1"
    using g c x1 by (simp_all add: geo_def vsame_def cursor_in_def)
  obtain t2 where t2: "draw_cell (cursor_x ?t1) (cursor_y ?t1) (CHR '' '') (fg_color ?t1) ?t1 = Some t2" "geo t2" "vsame ?t1 t2" "cursor_same ?t1 t2"
    using draw_cell_ok[OF t1(1)] by blast
  obtain t3 where t3: "buf_set (cell t2 (cursor_x t2) (cursor_y t2)) (CHR '' '') t2 = Some t3" "geo t3" "vsame t2 t3"
    using buf_set_ok[OF t2(2) cell_on_screen[OF t2(2) cursor_same_in[OF t2(4,3) t1(3)]]] by blast
  have "vsame t t3" using vsame_trans t1(2) t2(3) t3(3) by blast
  then show ?thesis using t2(1) t3(1,2) by (simp add: Let_def)
qed

lemma render_if_ok:
  assumes g: "geo t" and c: "cursor_in t"
  shows "\<exists>t'. (if cursor_suspended t = 0 then terminal_render_cursor v t else Some t) = Some t' \<and>
     geo t' \<and> vsame t t' \<and> cursor_in t'"
proof (cases "cursor_suspended t = 0")
  case True
  obtain t' where "terminal_render_cursor v t = Some t'" "geo t'" "vsame t t'" "cursor_same t t'"
    using render_cursor_ok[OF g] by blast
  then show ?thesis using True cursor_same_in[OF _ _ c] by simp
next
  case False
  then show ?thesis using g c by simp
qed

lemma terminal_putchar_ok:
  assumes w: "term_wf t"
  shows "\<exists>t'. terminal_putchar c t = Some t' \<and> term_wf t' \<and> vsame t t'"
proof -
  obtain t1 where t1: "(if cursor_suspended t = 0 then terminal_render_cursor False t else Some t) = Some t1"
      "geo t1" "vsame t t1" "cursor_in t1"
    using render_if_ok[of t False] w unfolding term_wf_def by metis
  let ?m = "if c = CHR 0x0A then Some (t1\<lparr>cursor_x := 0, cursor_y := cursor_y t1 + 1\<rparr>)
            else if c = CHR 0x0D then Some (t1\<lparr>cursor_x := 0\<rparr>)
            else if c = CHR 0x08 then
              (if cursor_x t1 > 0 then do {
                 let t' = t1\<lparr>cursor_x := cursor_x t1 - 1\<rparr>;
                 t'' \<leftarrow> draw_cell (cursor_x t') (cursor_y t') (CHR '' '') (fg_color t') t';
                 buf_set (cell t'' (cursor_x t'') (cursor_y t'')) (CHR '' '') t'' }
               else Some t1)
            else if c = CHR 0x09 then Some (t1\<lparr>cursor_x := (cursor_x t1 + 8) AND NOT 7\<rparr>)
            else put_glyph c t1"
  have upd: "geo (t1\<lparr>cursor_x := x, cursor_y := y\<rparr>)" "vsame t1 (t1\<lparr>cursor_x := x, cursor_y := y\<rparr>)"
       "geo (t1\<lparr>cursor_x := x\<rparr>)" "vsame t1 (t1\<lparr>cursor_x := x\<rparr>)" for x y
    using t1(2) by (simp_all add: geo_def vsame_def)
  have "\<exists>t2. ?m = Some t2 \<and> geo t2 \<and> vsame t1 t2"
    by (intro if_ok Some_ok backspace_ok put_glyph_ok conjI t1(2,4) upd vsame_refl)
  then obtain t2 where t2: "?m = Some t2" "geo t2" "vsame t1 t2" by blast
  obtain t3 where t3: "wrap_screen (wrap_line t2) = Some t3" "geo t3" "vsame t2 t3" "cursor_in t3"
    using wrap_ok[OF t2(2)] by blast
  obtain t4 where t4: "(if cursor_suspended t3 = 0 then terminal_render_cursor (cursor_blink_visible t3) t3 else Some t3) = Some t4"
      "geo t4" "vsame t3 t4" "cursor_in t4"
    using render_if_ok[OF t3(2,4), of "cursor_blink_visible t3"] by metis
  have "terminal_putchar c t = Some t4"
    unfolding terminal_putchar_def by (simp only: t1(1) t2(1) t3(1) t4(1) Option.bind.bind_lunit)
  moreover have "vsame t t4" by (rule vsame_trans[OF t1(3) vsame_trans[OF t2(3) vsame_trans[OF t3(3) t4(3)]]])
  ultimately show ?thesis using t4(2,4) by (simp add: term_wf_def)
qed

section \<open>The parser keeps the terminal well-formed\<close>

lemma palette_length [simp]: "length terminal_palette = 16"
  by (simp add: terminal_palette_def)

lemma unat_range_less:
  fixes p a :: u32
  assumes "a \<le> p" "p \<le> a + 7" "unat a < 200"
  shows "unat (p - a) < 8" "unat (p - a + 8) < 16"
proof -
  have le: "unat a \<le> unat p" "unat p \<le> unat a + 7"
    using assms by (auto simp: word_le_nat_alt unat_word_ariths)
  have "unat (p - a) = unat p - unat a" using assms(1) by (rule unat_sub)
  then show "unat (p - a) < 8" using le by linarith
  then show "unat (p - a + 8) < 16" by (simp add: unat_word_ariths)
qed

lemma palette_rd:
  fixes p :: u32
  shows "30 \<le> p \<Longrightarrow> p \<le> 37 \<Longrightarrow> \<exists>c. rd terminal_palette (unat (if b then p - 30 + 8 else p - 30)) = Some c"
    and "40 \<le> p \<Longrightarrow> p \<le> 47 \<Longrightarrow> \<exists>c. rd terminal_palette (unat (p - 40)) = Some c"
    and "90 \<le> p \<Longrightarrow> p \<le> 97 \<Longrightarrow> \<exists>c. rd terminal_palette (unat (p - 90 + 8)) = Some c"
    and "100 \<le> p \<Longrightarrow> p \<le> 107 \<Longrightarrow> \<exists>c. rd terminal_palette (unat (p - 100 + 8)) = Some c"
  using unat_range_less[of 30 p] unat_range_less[of 40 p] unat_range_less[of 90 p] unat_range_less[of 100 p]
  by (auto simp: rd_def)

lemma color_ok:
  assumes "\<exists>c. m = Some c" "geo t"
  shows "\<exists>t'. do { c \<leftarrow> m; Some (t\<lparr>fg_color := c\<rparr>) } = Some t' \<and> geo t' \<and> vsame t t' \<and> cursor_same t t'"
    and "\<exists>t'. do { c \<leftarrow> m; Some (t\<lparr>bg_color := c\<rparr>) } = Some t' \<and> geo t' \<and> vsame t t' \<and> cursor_same t t'"
  using assms by (auto simp: geo_def vsame_def cursor_same_def)

lemma sgr_param_ok:
  assumes g: "geo t"
  shows "\<exists>t'. sgr_param p t = Some t' \<and> geo t' \<and> vsame t t' \<and> cursor_same t t'"
  unfolding sgr_param_def
  by (intro if_ok Some_ok color_ok palette_rd g; (elim conjE)?; (assumption)?;
      use g in \<open>simp add: geo_def vsame_def cursor_same_def\<close>)

lemma handle_sgr_ok:
  assumes g: "geo t" and n: "param_count t \<le> VT_MAX_PARAMS"
  shows "\<exists>t'. terminal_handle_sgr t = Some t' \<and> geo t' \<and> vsame t t' \<and> cursor_same t t'"
proof (cases "param_count t = 0")
  case True
  then show ?thesis using g by (simp add: terminal_handle_sgr_def geo_def vsame_def cursor_same_def)
next
  case False
  let ?f = "\<lambda>i t. do { p \<leftarrow> rd (params t) i; sgr_param p t }"
  let ?P = "\<lambda>t'. geo t' \<and> vsame t t' \<and> cursor_same t t'"
  have "\<exists>t'. for_range ?f 0 (param_count t) t = Some t' \<and> ?P t'"
  proof (rule for_range_invariant[where P = "\<lambda>_. ?P"])
    fix i t1 assume i: "i < 0 + param_count t" and t1: "?P t1"
    then have "rd (params t1) i = Some (params t1 ! i)" using n by (simp add: geo_def)
    moreover obtain t2 where "sgr_param (params t1 ! i) t1 = Some t2" "geo t2" "vsame t1 t2" "cursor_same t1 t2"
      using sgr_param_ok[of t1] t1 by blast
    ultimately show "\<exists>t2. ?f i t1 = Some t2 \<and> ?P t2" using t1 by (simp add: vsame_def cursor_same_def)
  qed (use g in simp)
  then show ?thesis using False by (simp add: terminal_handle_sgr_def)
qed

lemma erase_line_ok:
  assumes w: "term_wf t"
  shows "\<exists>t'. for_range (\<lambda>x t. do {
                t' \<leftarrow> buf_set (cell t (of_nat x) (cursor_y t)) (CHR '' '') t;
                draw_cell (of_nat x) (cursor_y t') (CHR '' '') (fg_color t') t' })
                (unat (cursor_x t)) (unat (width t) - unat (cursor_x t)) t = Some t' \<and> term_wf t' \<and> vsame t t'"
proof -
  let ?f = "\<lambda>x t. do {
                t' \<leftarrow> buf_set (cell t (of_nat x) (cursor_y t)) (CHR '' '') t;
                draw_cell (of_nat x) (cursor_y t') (CHR '' '') (fg_color t') t' }"
  let ?P = "\<lambda>t'. term_wf t' \<and> vsame t t'"
  show ?thesis
  proof (rule for_range_invariant[where P = "\<lambda>_. ?P"])
    fix i t1 assume i: "i < unat (cursor_x t) + (unat (width t) - unat (cursor_x t))" and t1: "?P t1"
    have "i < unat (width t1)" using i w t1 by (auto simp: term_wf_def cursor_in_def word_less_nat_alt vsame_def)
    moreover from this have "i < 2 ^ 32" using unsigned_less[of "width t1", where ?'a = nat] by simp
    ultimately have x: "(of_nat i :: u32) < width t1"
      by (simp add: word_less_nat_alt unsigned_of_nat take_bit_nat_eq_self)
    have g1: "geo t1" and y: "cursor_y t1 < height t1" using t1 by (auto simp: term_wf_def cursor_in_def)
    obtain t2 where t2: "buf_set (cell t1 (of_nat i) (cursor_y t1)) (CHR '' '') t1 = Some t2" "geo t2" "vsame t1 t2" "cursor_same t1 t2"
      using buf_set_ok[OF g1 cell_bound[OF g1 x y]] by blast
    obtain t3 where t3: "draw_cell (of_nat i) (cursor_y t2) (CHR '' '') (fg_color t2) t2 = Some t3" "geo t3" "vsame t2 t3" "cursor_same t2 t3"
      using draw_cell_ok[OF t2(2)] by blast
    have "?f i t1 = Some t3" using t2(1) t3(1) by simp
    moreover have "cursor_in t1" using t1 by (simp add: term_wf_def)
    then have "cursor_in t3" by (intro cursor_same_in[OF t3(4,3) cursor_same_in[OF t2(4,3)]])
    moreover have "vsame t t3" using vsame_trans t1 t2(3) t3(3) by blast
    ultimately show "\<exists>t2. ?f i t1 = Some t2 \<and> ?P t2" using t3(2) by (simp add: term_wf_def)
  qed (use w in simp)
qed

lemma clamp_less:
  fixes w :: u32
  shows "0 < unat w \<Longrightarrow> (if w \<le> x then w - 1 else x) < w"
  by (auto simp: not_le word_less_nat_alt unat_sub word_le_nat_alt)

lemma move_ok:
  assumes "geo t" "x < width t" "y < height t"
  shows "term_wf (t\<lparr>cursor_x := x, cursor_y := y\<rparr>) \<and> vsame t (t\<lparr>cursor_x := x, cursor_y := y\<rparr>)"
  using assms by (simp add: term_wf_def geo_def cursor_in_def vsame_def)

lemma move_x_ok:
  assumes "term_wf t" "x < width t"
  shows "term_wf (t\<lparr>cursor_x := x\<rparr>) \<and> vsame t (t\<lparr>cursor_x := x\<rparr>)"
  using assms by (simp add: term_wf_def geo_def cursor_in_def vsame_def)

lemma term_wf_upd [simp]:
  "term_wf (t\<lparr>vt_state := v\<rparr>) = term_wf t" "term_wf (t\<lparr>param_count := n\<rparr>) = term_wf t"
  "term_wf (t\<lparr>private_mode := b\<rparr>) = term_wf t" "term_wf (t\<lparr>cursor_enabled := b\<rparr>) = term_wf t"
  "term_wf (t\<lparr>cursor_style := k\<rparr>) = term_wf t" "term_wf (t\<lparr>cursor_suspended := n\<rparr>) = term_wf t"
  "term_wf (t\<lparr>cursor_blink_visible := b\<rparr>) = term_wf t" "term_wf (t\<lparr>last_blink_ms := m\<rparr>) = term_wf t"
  "term_wf t \<Longrightarrow> length ps = VT_MAX_PARAMS \<Longrightarrow> term_wf (t\<lparr>params := ps\<rparr>)"
  by (auto simp: term_wf_def geo_def cursor_in_def)

lemma csi_final_ok:
  assumes w: "term_wf t" and n: "param_count t \<le> VT_MAX_PARAMS"
  shows "\<exists>t'. csi_final c t = Some t' \<and> term_wf t' \<and> vt_state t' = VT_STATE_NORMAL \<and> cursor_suspended t' = cursor_suspended t"
proof -
  have g: "geo t" and c: "cursor_in t" using w by (auto simp: term_wf_def)
  have wh: "0 < unat (width t)" "0 < unat (height t)" using g by (auto simp: geo_def)
  obtain p0 p1 where p: "rd (params t) 0 = Some p0" "rd (params t) 1 = Some p1"
    using g by (simp add: geo_def VT_MAX_PARAMS_def)
  have sgr: "\<exists>t'. terminal_handle_sgr t = Some t' \<and> term_wf t' \<and> vsame t t'"
    using handle_sgr_ok[OF g n] cursor_same_in c unfolding term_wf_def by blast
  have clr: "\<exists>t'. terminal_clear t = Some t' \<and> term_wf t' \<and> vsame t t'"
    using terminal_clear_ok[OF g] unfolding term_wf_def by blast
  have lft: "(if k \<le> cursor_x t then cursor_x t - k else 0) < width t" for k
    using c wh by (auto simp: cursor_in_def word_less_nat_alt unat_sub)
  have en: "term_wf (t\<lparr>cursor_enabled := b\<rparr>) \<and> vsame t (t\<lparr>cursor_enabled := b\<rparr>)" for b
    using w by (simp add: vsame_def)
  have step: "\<exists>t'. m = Some t' \<and> term_wf t' \<and> vsame t t' \<Longrightarrow>
     \<exists>t'. do { t1 \<leftarrow> m; Some (t1\<lparr>vt_state := VT_STATE_NORMAL\<rparr>) } = Some t' \<and> term_wf t' \<and> vt_state t' = VT_STATE_NORMAL \<and>
        cursor_suspended t' = cursor_suspended t" for m
    by (auto simp: vsame_def)
  show ?thesis unfolding csi_final_def p Option.bind.bind_lunit Let_def
    by (rule step) (intro if_ok Some_ok sgr clr erase_line_ok[OF w] move_ok[OF g] move_x_ok[OF w] clamp_less wh lft en conjI w vsame_refl)
qed

text \<open>The characters that move on to another parameter.\<close>

definition seps :: "char list \<Rightarrow> nat" where
  "seps cs = length (filter (\<lambda>c. c = CHR '';'' \<or> c = CHR ''?'') cs)"

lemma seps_simps [simp]:
  "seps [] = 0" "seps (c # cs) = (if c = CHR '';'' \<or> c = CHR ''?'' then Suc (seps cs) else seps cs)"
  by (simp_all add: seps_def)

definition vt_ok :: "char list \<Rightarrow> terminal \<Rightarrow> bool" where
  "vt_ok cs t \<longleftrightarrow> seps cs < VT_MAX_PARAMS \<and>
     (vt_state t = VT_STATE_CSI \<or> vt_state t = VT_STATE_PARAM \<longrightarrow> param_count t + seps cs < VT_MAX_PARAMS)"

lemma is_digit_sep [simp]: "\<not> is_digit (CHR '';'')" "\<not> is_digit (CHR ''?'')"
  by (simp_all add: is_digit_def)

lemma wf_params: "term_wf t \<Longrightarrow> length (params t) = VT_MAX_PARAMS"
  by (simp add: term_wf_def geo_def)

lemma csi_step_ok:
  assumes w: "term_wf t" and st: "vt_state t = VT_STATE_CSI"
    and n: "param_count t \<le> VT_MAX_PARAMS" "seps cs < VT_MAX_PARAMS"
    and d: "is_digit c \<or> c = CHR ''?'' \<Longrightarrow> param_count t + seps cs < VT_MAX_PARAMS"
    and s: "c = CHR '';'' \<Longrightarrow> Suc (param_count t + seps cs) < VT_MAX_PARAMS"
  shows "\<exists>t'. vt_step c t = Some (t', False) \<and> term_wf t' \<and> vt_ok cs t' \<and> cursor_suspended t' = cursor_suspended t"
proof (cases "c = CHR ''?'' \<or> is_digit c \<or> c = CHR '';'' \<or> c = CHR '' ''")
  case True
  then show ?thesis using w n d s wf_params[OF w]
    by (auto simp: vt_step_def st vt_ok_def)
next
  case False
  then show ?thesis using csi_final_ok[OF w n(1), of c] n(2) by (auto simp: vt_step_def st vt_ok_def)
qed

lemma vt_loop_step:
  assumes w: "term_wf t" and ok: "vt_ok (c # cs) t"
  shows "\<exists>t'. vt_loop (c # cs) t = vt_loop cs t' \<and> term_wf t' \<and> vt_ok cs t' \<and> cursor_suspended t' = cursor_suspended t"
proof (cases "vt_state t")
  case VT_STATE_NORMAL
  show ?thesis
  proof (cases "c = CHR 0x1B")
    case True
    then show ?thesis using w ok VT_STATE_NORMAL by (auto simp: vt_step_def vt_ok_def)
  next
    case False
    obtain t' where "terminal_putchar c t = Some t'" "term_wf t'" "vsame t t'" using terminal_putchar_ok[OF w] by blast
    then show ?thesis using False ok VT_STATE_NORMAL
      by (intro exI[of _ t']) (auto simp: vt_step_def vt_ok_def vsame_def split: if_splits)
  qed
next
  case VT_STATE_ESC
  then show ?thesis using w ok wf_params[OF w] by (auto simp: vt_step_def vt_ok_def split: if_splits)
next
  case VT_STATE_DEC_SPACE
  have "rd (params t) 0 = Some (params t ! 0)" using wf_params[OF w] by (simp add: VT_MAX_PARAMS_def)
  then show ?thesis using w ok VT_STATE_DEC_SPACE by (auto simp: vt_step_def vt_ok_def split: if_splits)
next
  case VT_STATE_CSI
  obtain t' where "vt_step c t = Some (t', False)" "term_wf t'" "vt_ok cs t'" "cursor_suspended t' = cursor_suspended t"
    using csi_step_ok[OF w VT_STATE_CSI, of cs c] ok VT_STATE_CSI by (auto simp: vt_ok_def split: if_splits)
  then show ?thesis by (intro exI[of _ t']) simp
next
  case VT_STATE_PARAM
  have n: "param_count t + seps (c # cs) < VT_MAX_PARAMS" using ok VT_STATE_PARAM by (simp add: vt_ok_def)
  show ?thesis
  proof (cases "is_digit c \<or> c = CHR '';''")
    case True
    then show ?thesis using w ok VT_STATE_PARAM wf_params[OF w] n by (auto simp: vt_step_def vt_ok_def split: if_splits)
  next
    case False
    let ?t1 = "t\<lparr>param_count := param_count t + 1, vt_state := VT_STATE_CSI\<rparr>"
    have 1: "vt_step c t = Some (?t1, True)" using False VT_STATE_PARAM by (simp add: vt_step_def)
    have "\<exists>t'. vt_step c ?t1 = Some (t', False) \<and> term_wf t' \<and> vt_ok cs t' \<and> cursor_suspended t' = cursor_suspended ?t1"
      by (rule csi_step_ok) (use w n False in \<open>auto split: if_splits\<close>)
    then obtain t' where "vt_step c ?t1 = Some (t', False)" "term_wf t'" "vt_ok cs t'" "cursor_suspended t' = cursor_suspended t"
      by auto
    then show ?thesis by (intro exI[of _ t']) (simp add: 1)
  qed
qed

lemma vt_loop_ok:
  "term_wf t \<Longrightarrow> vt_ok cs t \<Longrightarrow> \<exists>t'. vt_loop cs t = Some t' \<and> term_wf t' \<and> cursor_suspended t' = cursor_suspended t"
proof (induction cs arbitrary: t)
  case (Cons c cs)
  from vt_loop_step[OF Cons.prems] Cons.IH show ?case by metis
qed simp

lemma render_wf:
  assumes "term_wf t"
  shows "\<exists>t'. terminal_render_cursor v t = Some t' \<and> term_wf t' \<and> vsame t t'"
  using render_cursor_ok[of t v] assms cursor_same_in unfolding term_wf_def by blast

text \<open>What \<open>terminal_write\<close> does before its loop.\<close>

lemma terminal_write_start:
  assumes w: "term_wf t"
  obtains t1 where "term_wf t1" "vt_state t1 = vt_state t" "param_count t1 = param_count t"
    "cursor_suspended t1 = Suc (cursor_suspended t)"
    "terminal_write now data t = do { t2 \<leftarrow> vt_loop data t1;
       let t3 = t2\<lparr>cursor_suspended := cursor_suspended t2 - 1\<rparr>;
       terminal_render_cursor (cursor_blink_visible t3) t3 }"
proof -
  let ?t0 = "t\<lparr>cursor_blink_visible := True, last_blink_ms := now\<rparr>"
  obtain t1 where t1: "terminal_render_cursor False ?t0 = Some t1" "term_wf t1" "vsame ?t0 t1"
    using render_wf[of ?t0 False] w by auto
  show thesis
    by (rule that[of "t1\<lparr>cursor_suspended := cursor_suspended t1 + 1\<rparr>"])
      (use t1 in \<open>simp_all add: vsame_def terminal_write_def\<close>)
qed

text \<open>Plain text, without an escape character, keeps the parser in its normal state.\<close>

lemma vt_loop_plain:
  "term_wf t \<Longrightarrow> vt_state t = VT_STATE_NORMAL \<Longrightarrow> CHR 0x1B \<notin> set cs \<Longrightarrow>
   \<exists>t'. vt_loop cs t = Some t' \<and> term_wf t' \<and> vt_state t' = VT_STATE_NORMAL \<and> cursor_suspended t' = cursor_suspended t"
proof (induction cs arbitrary: t)
  case (Cons c cs)
  obtain t1 where t1: "terminal_putchar c t = Some t1" "term_wf t1" "vsame t t1"
    using terminal_putchar_ok[OF Cons.prems(1)] by blast
  then have "vt_loop (c # cs) t = vt_loop cs t1" using Cons.prems(2,3) by (auto simp: vt_step_def)
  then show ?case using Cons.IH[of t1] t1(2,3) Cons.prems(2,3) by (simp add: vsame_def)
qed simp

lemma terminal_write_plain:
  assumes "term_wf t" "vt_state t = VT_STATE_NORMAL" "CHR 0x1B \<notin> set data"
  shows "\<exists>t'. terminal_write now data t = Some t' \<and> term_wf t' \<and> vt_state t' = VT_STATE_NORMAL"
proof -
  obtain t1 where t1: "term_wf t1" "vt_state t1 = vt_state t" "terminal_write now data t = do { t2 \<leftarrow> vt_loop data t1;
       let t3 = t2\<lparr>cursor_suspended := cursor_suspended t2 - 1\<rparr>;
       terminal_render_cursor (cursor_blink_visible t3) t3 }" by (rule terminal_write_start[OF assms(1)])
  obtain t2 where t2: "vt_loop data t1 = Some t2" "term_wf t2" "vt_state t2 = VT_STATE_NORMAL"
    using vt_loop_plain[OF t1(1), of data] t1(2) assms(2,3) by auto
  let ?t3 = "t2\<lparr>cursor_suspended := cursor_suspended t2 - 1\<rparr>"
  obtain t4 where "terminal_render_cursor (cursor_blink_visible ?t3) ?t3 = Some t4" "term_wf t4" "vsame ?t3 t4"
    using render_wf[of ?t3] t2(2) by auto
  then show ?thesis using t1(3) t2 by (simp add: vsame_def)
qed

text \<open>A console that prints plain text: its terminal is well-formed and not inside an escape sequence, and the log has its size.\<close>

definition con_ok :: "console \<Rightarrow> bool" where
  "con_ok c \<longleftrightarrow> term_wf (main_terminal c) \<and> vt_state (main_terminal c) = VT_STATE_NORMAL \<and> klog_wf (kernel_log c)"

lemma klog_puts_wf: "klog_wf l \<Longrightarrow> \<exists>l'. klog_puts cs l = Some l' \<and> klog_wf l'"
proof (induction cs arbitrary: l)
  case (Cons c cs)
  obtain l1 where l1: "klog_putc c l = Some l1" "klog_wf l1"
  proof (cases "klog_active l")
    case True
    then show ?thesis using klog_putc_content[OF Cons.prems True] that by blast
  next
    case False
    then show ?thesis using Cons.prems that[of l] by (simp add: klog_putc_def)
  qed
  obtain l2 where "klog_puts cs l1 = Some l2" "klog_wf l2" using Cons.IH[OF l1(2)] by blast
  then show ?case using l1(1) by simp
qed simp

lemma kprintf_plain:
  assumes "con_ok c" "vsnprintf 1024 fmt as = Some buf" "CHR 0x1B \<notin> set buf"
  shows "\<exists>c'. kprintf now fmt as c = Some (length buf, c') \<and> con_ok c'"
proof -
  obtain c1 where c1: "display_manager_write now buf c = Some c1" "con_ok c1" "kernel_log c1 = kernel_log c"
  proof (cases "display_mode c = DISPLAY_MODE_TERMINAL")
    case True
    have "term_wf (main_terminal c)" "vt_state (main_terminal c) = VT_STATE_NORMAL" using assms(1) by (simp_all add: con_ok_def)
    from terminal_write_plain[OF this assms(3)] obtain t' where
      t': "terminal_write now buf (main_terminal c) = Some t'" "term_wf t'" "vt_state t' = VT_STATE_NORMAL" by blast
    show ?thesis
      by (rule that[of "c\<lparr>main_terminal := t'\<rparr>"]) (use t' True assms(1) in \<open>simp_all add: display_manager_write_def con_ok_def\<close>)
  next
    case False
    show ?thesis by (rule that[of c]) (use False assms(1) in \<open>simp_all add: display_manager_write_def\<close>)
  qed
  have "klog_wf (kernel_log c1)" using c1(2) by (simp add: con_ok_def)
  from klog_puts_wf[OF this, of buf] obtain l where l: "klog_puts buf (kernel_log c1) = Some l" "klog_wf l" by blast
  have "kprintf now fmt as c = Some (length buf, c1\<lparr>kernel_log := l\<rparr>)" using assms(2) c1(1) l(1) by (simp add: kprintf_def)
  moreover have "con_ok (c1\<lparr>kernel_log := l\<rparr>)" using c1(2) l(2) by (simp add: con_ok_def)
  ultimately show ?thesis by blast
qed

lemma csi_separators:
  assumes "vt_state t = VT_STATE_CSI"
  shows "vt_loop (replicate n (CHR '';'') @ cs) t = vt_loop cs (t\<lparr>param_count := param_count t + n\<rparr>)"
  using assms by (induction n arbitrary: t) (simp_all add: vt_step_def is_digit_def)

text \<open>
  C26. Writing to a well-formed terminal returns, so no index leaves the back buffers, the palette, the
  parameter array or the framebuffer, and leaves the terminal well-formed with the cursor on the screen, for
  any bytes with fewer than \<open>VT_MAX_PARAMS\<close> parameter separators and any state of the parser that has room
  for them. The bound is what the code needs: a control sequence with \<open>VT_MAX_PARAMS\<close> separators and then
  a digit writes past the parameter array.
\<close>

theorem terminal_write_safe:
  assumes w: "term_wf t"
  shows "(vt_ok data t \<longrightarrow> (\<exists>t'. terminal_write now data t = Some t' \<and> term_wf t' \<and> cursor_suspended t' = cursor_suspended t)) \<and>
    (vt_state t = VT_STATE_NORMAL \<longrightarrow>
       terminal_write now ([CHR 0x1B, CHR ''[''] @ replicate VT_MAX_PARAMS (CHR '';'') @ [CHR ''1'']) t = None)"
proof (intro conjI impI)
  assume ok: "vt_ok data t"
  obtain t1 where t1: "term_wf t1" "vt_state t1 = vt_state t" "param_count t1 = param_count t"
    "cursor_suspended t1 = Suc (cursor_suspended t)"
    "terminal_write now data t = do { t2 \<leftarrow> vt_loop data t1;
       let t3 = t2\<lparr>cursor_suspended := cursor_suspended t2 - 1\<rparr>;
       terminal_render_cursor (cursor_blink_visible t3) t3 }" by (rule terminal_write_start[OF w])
  obtain t2 where t2: "vt_loop data t1 = Some t2" "term_wf t2" "cursor_suspended t2 = cursor_suspended t1"
    using vt_loop_ok[OF t1(1), of data] ok t1(2,3) by (auto simp: vt_ok_def)
  let ?t3 = "t2\<lparr>cursor_suspended := cursor_suspended t2 - 1\<rparr>"
  obtain t4 where "terminal_render_cursor (cursor_blink_visible ?t3) ?t3 = Some t4" "term_wf t4" "vsame ?t3 t4"
    using render_wf[of ?t3] t2(2) by auto
  then show "\<exists>t'. terminal_write now data t = Some t' \<and> term_wf t' \<and> cursor_suspended t' = cursor_suspended t"
    using t1(4,5) t2 by (simp add: vsame_def)
next
  assume st: "vt_state t = VT_STATE_NORMAL"
  let ?d = "[CHR 0x1B, CHR ''[''] @ replicate VT_MAX_PARAMS (CHR '';'') @ [CHR ''1'']"
  obtain t1 where t1: "term_wf t1" "vt_state t1 = vt_state t"
    "terminal_write now ?d t = do { t2 \<leftarrow> vt_loop ?d t1;
       let t3 = t2\<lparr>cursor_suspended := cursor_suspended t2 - 1\<rparr>;
       terminal_render_cursor (cursor_blink_visible t3) t3 }" by (rule terminal_write_start[OF w])
  have "vt_loop ?d t1 = None"
    using wf_params[OF t1(1)] by (simp add: vt_step_def t1(2) st csi_separators is_digit_def wr_def)
  then show "terminal_write now ?d t = None" using t1(3) by simp
qed

definition demo_term :: terminal where
  "demo_term = \<lparr>cursor_x = 0, cursor_y = 0, width = 2, height = 1, fg_color = 7, bg_color = 0, bold = False,
     vt_state = VT_STATE_NORMAL, params = replicate 16 0, param_count = 0, private_mode = False,
     buffer = Some ''  '', attr_buffer = Some [7, 7], cursor_enabled = True, cursor_blink_visible = True,
     cursor_style = 5, cursor_suspended = 0, last_rendered_x = 0, last_rendered_y = 0, last_blink_ms = 0,
     tfb = demo_fb\<rparr>"

lemma demo_term_wf: "term_wf demo_term"
  using demo_fb_wf by (simp add: term_wf_def geo_def cursor_in_def demo_term_def VT_MAX_PARAMS_def)

theorem terminal_write_safe_witness:
  "term_wf demo_term \<and> vt_ok [CHR ''A'', CHR 0x1B, CHR ''['', CHR ''3'', CHR ''1'', CHR ''m'', CHR ''B'', CHR ''C''] demo_term \<and>
   vt_state demo_term = VT_STATE_NORMAL \<and>
   (\<exists>t'. terminal_write 5 [CHR ''A'', CHR 0x1B, CHR ''['', CHR ''3'', CHR ''1'', CHR ''m'', CHR ''B'', CHR ''C''] demo_term = Some t' \<and>
      term_wf t' \<and> cursor_suspended t' = cursor_suspended demo_term) \<and>
   terminal_write 5 ([CHR 0x1B, CHR ''[''] @ replicate VT_MAX_PARAMS (CHR '';'') @ [CHR ''1'']) demo_term = None"
proof -
  have ok: "vt_ok [CHR ''A'', CHR 0x1B, CHR ''['', CHR ''3'', CHR ''1'', CHR ''m'', CHR ''B'', CHR ''C''] demo_term"
    and st: "vt_state demo_term = VT_STATE_NORMAL"
    by (simp_all add: vt_ok_def demo_term_def VT_MAX_PARAMS_def)
  from terminal_write_safe[OF demo_term_wf, of "[CHR ''A'', CHR 0x1B, CHR ''['', CHR ''3'', CHR ''1'', CHR ''m'', CHR ''B'', CHR ''C'']" 5]
  show ?thesis using demo_term_wf ok st by blast
qed

end
