(* ===== verification/Input.thy ===== *)
theory Input
  imports Klog Spinlock
begin

text \<open>
  Keyboard and mouse input: the event ring of \<open>drivers/input/input_manager.c\<close> and the interrupt handlers
  of \<open>ps2_keyboard.c\<close> and \<open>ps2_mouse.c\<close>. The byte that a handler reads from the data port is its
  argument; what it tells the interrupt controller is kept in a list.
\<close>

section \<open>Events and state\<close>

definition INPUT_EVENT_KEY_PRESS :: u8 where "INPUT_EVENT_KEY_PRESS = 1"
definition INPUT_EVENT_KEY_RELEASE :: u8 where "INPUT_EVENT_KEY_RELEASE = 2"
definition INPUT_EVENT_MOUSE_MOVE :: u8 where "INPUT_EVENT_MOUSE_MOVE = 3"
definition INPUT_EVENT_MOUSE_BUTTON :: u8 where "INPUT_EVENT_MOUSE_BUTTON = 4"
definition INPUT_EVENT_MOUSE_SCROLL :: u8 where "INPUT_EVENT_MOUSE_SCROLL = 5"

definition MOD_SHIFT :: u8 where "MOD_SHIFT = 1"
definition MOD_CTRL :: u8 where "MOD_CTRL = 2"
definition MOD_ALT :: u8 where "MOD_ALT = 4"
definition MOD_CAPSLOCK :: u8 where "MOD_CAPSLOCK = 8"

definition KEY_UP :: u8 where "KEY_UP = 0x80"
definition KEY_DOWN :: u8 where "KEY_DOWN = 0x81"
definition KEY_LEFT :: u8 where "KEY_LEFT = 0x82"
definition KEY_RIGHT :: u8 where "KEY_RIGHT = 0x83"
definition KEY_DELETE :: u8 where "KEY_DELETE = 0x7F"

record input_event =
  ev_type :: u8
  scancode :: u8
  ascii :: u8
  ev_modifiers :: u8
  mouse_dx :: u16
  mouse_dy :: u16
  mouse_dz :: u8
  mouse_buttons :: u8

definition zero_event :: input_event where
  "zero_event = \<lparr>ev_type = 0, scancode = 0, ascii = 0, ev_modifiers = 0, mouse_dx = 0, mouse_dy = 0,
     mouse_dz = 0, mouse_buttons = 0\<rparr>"

definition INPUT_QUEUE_SIZE :: nat where "INPUT_QUEUE_SIZE = 256"

record input =
  event_queue :: "input_event list"
  queue_head :: u32
  queue_tail :: u32
  input_cpu :: cpu
  modifiers :: u8
  extended :: bool
  released :: bool
  mouse_packet :: "u8 list"
  packet_index :: nat
  has_scroll_wheel :: bool
  prev_buttons :: u8
  eois :: "nat list"

section \<open>The event ring\<close>

definition input_push_event :: "input_event \<Rightarrow> input \<Rightarrow> input option" where
  "input_push_event e s = do {
     let nxt = (queue_head s + 1) mod of_nat INPUT_QUEUE_SIZE;
     let s1 = (if nxt = queue_tail s then s\<lparr>queue_tail := (queue_tail s + 1) mod of_nat INPUT_QUEUE_SIZE\<rparr> else s);
     q \<leftarrow> wr (event_queue s1) (unat (queue_head s1)) e;
     Some (s1\<lparr>event_queue := q, queue_head := nxt\<rparr>) }"

text \<open>The result holds the event that \<open>*out\<close> gets, if any.\<close>

definition input_poll_event :: "input \<Rightarrow> (input_event option \<times> input) option" where
  "input_poll_event s =
     (if queue_head s = queue_tail s then Some (None, s)
      else do {
        c \<leftarrow> spinlock_acquire (input_cpu s);
        let s1 = s\<lparr>input_cpu := c\<rparr>;
        if queue_head s1 = queue_tail s1 then Some (None, s1\<lparr>input_cpu := spinlock_release (input_cpu s1)\<rparr>)
        else do {
          e \<leftarrow> rd (event_queue s1) (unat (queue_tail s1));
          let s2 = s1\<lparr>queue_tail := (queue_tail s1 + 1) mod of_nat INPUT_QUEUE_SIZE\<rparr>;
          Some (Some e, s2\<lparr>input_cpu := spinlock_release (input_cpu s2)\<rparr>) } })"

definition input_has_event :: "input \<Rightarrow> bool" where
  "input_has_event s \<longleftrightarrow> queue_head s \<noteq> queue_tail s"

definition input_manager_init :: "input \<Rightarrow> input" where
  "input_manager_init s = s\<lparr>queue_head := 0, queue_tail := 0, event_queue := replicate INPUT_QUEUE_SIZE zero_event\<rparr>"

section \<open>Keyboard\<close>

definition sc2_ascii :: "u8 list" where
  "sc2_ascii = [
     0, 0, 0, 0, 0, 0, 0, 0, 0, 0, 0, 0, 0, 9, 96, 0,
     0, 0, 0, 0, 0, 113, 49, 0, 0, 0, 122, 115, 97, 119, 50, 0,
     0, 99, 120, 100, 101, 52, 51, 0, 0, 32, 118, 102, 116, 114, 53, 0,
     0, 110, 98, 104, 103, 121, 54, 0, 0, 0, 109, 106, 117, 55, 56, 0,
     0, 44, 107, 105, 111, 48, 57, 0, 0, 46, 47, 108, 59, 112, 45, 0,
     0, 0, 39, 0, 91, 61, 0, 0, 0, 0, 10, 93, 0, 92, 0, 0,
     0, 0, 0, 0, 0, 0, 8, 0, 0, 0, 0, 0, 0, 0, 0, 0,
     0, 0, 0, 0, 0, 0, 27, 0, 0, 0, 0, 0, 0, 0, 0, 0,
     0, 0, 0, 0, 0, 0, 0, 0, 0, 0, 0, 0, 0, 0, 0, 0,
     0, 0, 0, 0, 0, 0, 0, 0, 0, 0, 0, 0, 0, 0, 0, 0,
     0, 0, 0, 0, 0, 0, 0, 0, 0, 0, 0, 0, 0, 0, 0, 0,
     0, 0, 0, 0, 0, 0, 0, 0, 0, 0, 0, 0, 0, 0, 0, 0,
     0, 0, 0, 0, 0, 0, 0, 0, 0, 0, 0, 0, 0, 0, 0, 0,
     0, 0, 0, 0, 0, 0, 0, 0, 0, 0, 0, 0, 0, 0, 0, 0,
     0, 0, 0, 0, 0, 0, 0, 0, 0, 0, 0, 0, 0, 0, 0, 0,
     0, 0, 0, 0, 0, 0, 0, 0, 0, 0, 0, 0, 0, 0, 0, 0]"

definition sc2_ascii_shift :: "u8 list" where
  "sc2_ascii_shift = [
     0, 0, 0, 0, 0, 0, 0, 0, 0, 0, 0, 0, 0, 9, 126, 0,
     0, 0, 0, 0, 0, 81, 33, 0, 0, 0, 90, 83, 65, 87, 64, 0,
     0, 67, 88, 68, 69, 36, 35, 0, 0, 32, 86, 70, 84, 82, 37, 0,
     0, 78, 66, 72, 71, 89, 94, 0, 0, 0, 77, 74, 85, 38, 42, 0,
     0, 60, 75, 73, 79, 41, 40, 0, 0, 62, 63, 76, 58, 80, 95, 0,
     0, 0, 34, 0, 123, 43, 0, 0, 0, 0, 10, 125, 0, 124, 0, 0,
     0, 0, 0, 0, 0, 0, 8, 0, 0, 0, 0, 0, 0, 0, 0, 0,
     0, 0, 0, 0, 0, 0, 27, 0, 0, 0, 0, 0, 0, 0, 0, 0,
     0, 0, 0, 0, 0, 0, 0, 0, 0, 0, 0, 0, 0, 0, 0, 0,
     0, 0, 0, 0, 0, 0, 0, 0, 0, 0, 0, 0, 0, 0, 0, 0,
     0, 0, 0, 0, 0, 0, 0, 0, 0, 0, 0, 0, 0, 0, 0, 0,
     0, 0, 0, 0, 0, 0, 0, 0, 0, 0, 0, 0, 0, 0, 0, 0,
     0, 0, 0, 0, 0, 0, 0, 0, 0, 0, 0, 0, 0, 0, 0, 0,
     0, 0, 0, 0, 0, 0, 0, 0, 0, 0, 0, 0, 0, 0, 0, 0,
     0, 0, 0, 0, 0, 0, 0, 0, 0, 0, 0, 0, 0, 0, 0, 0,
     0, 0, 0, 0, 0, 0, 0, 0, 0, 0, 0, 0, 0, 0, 0, 0]"

definition sc2_get_modifier_flag :: "u8 \<Rightarrow> bool \<Rightarrow> u8" where
  "sc2_get_modifier_flag sc is_extended =
     (if \<not> is_extended then
        if sc = 0x12 then MOD_SHIFT else if sc = 0x59 then MOD_SHIFT
        else if sc = 0x14 then MOD_CTRL else if sc = 0x11 then MOD_ALT
        else if sc = 0x58 then MOD_CAPSLOCK else 0
      else if sc = 0x14 then MOD_CTRL else if sc = 0x11 then MOD_ALT else 0)"

definition pic_send_eoi :: "nat \<Rightarrow> input \<Rightarrow> input" where
  "pic_send_eoi irq s = s\<lparr>eois := irq # eois s\<rparr>"

definition key_char :: "u8 \<Rightarrow> bool \<Rightarrow> u8 \<Rightarrow> u8 option" where
  "key_char sc is_ext mods =
     (if \<not> is_ext then do {
        let use_shift = (mods AND MOD_SHIFT \<noteq> 0);
        let caps = (mods AND MOD_CAPSLOCK \<noteq> 0);
        ch \<leftarrow> (if use_shift then rd sc2_ascii_shift (unat sc) else rd sc2_ascii (unat sc));
        Some (if caps \<and> 0x61 \<le> ch \<and> ch \<le> 0x7A then ch - 32
              else if caps \<and> 0x41 \<le> ch \<and> ch \<le> 0x5A then ch + 32 else ch) }
      else Some (if sc = 0x6B then KEY_LEFT else if sc = 0x74 then KEY_RIGHT else if sc = 0x75 then KEY_UP
                 else if sc = 0x72 then KEY_DOWN else if sc = 0x71 then KEY_DELETE else 0))"

definition keyboard_irq_handler :: "u8 \<Rightarrow> input \<Rightarrow> input option" where
  "keyboard_irq_handler sc s =
     (if sc = 0xE0 then Some (pic_send_eoi 1 (s\<lparr>extended := True\<rparr>))
      else if sc = 0xE1 then Some (pic_send_eoi 1 (s\<lparr>extended := False, released := False\<rparr>))
      else if sc = 0xF0 then Some (pic_send_eoi 1 (s\<lparr>released := True\<rparr>))
      else do {
        let is_ext = extended s;
        let is_rel = released s;
        let s1 = s\<lparr>extended := False, released := False\<rparr>;
        let mod_flag = sc2_get_modifier_flag sc is_ext;
        if mod_flag \<noteq> 0 then
          Some (pic_send_eoi 1 (s1\<lparr>modifiers :=
            (if mod_flag = MOD_CAPSLOCK then (if \<not> is_rel then modifiers s1 XOR MOD_CAPSLOCK else modifiers s1)
             else if is_rel then modifiers s1 AND NOT mod_flag else modifiers s1 OR mod_flag)\<rparr>))
        else do {
          ch \<leftarrow> key_char sc is_ext (modifiers s1);
          let e = zero_event\<lparr>scancode := sc, ev_modifiers := modifiers s1\<rparr>;
          s2 \<leftarrow> input_push_event
                 (if is_rel then e\<lparr>ev_type := INPUT_EVENT_KEY_RELEASE, ascii := 0\<rparr>
                  else e\<lparr>ev_type := INPUT_EVENT_KEY_PRESS, ascii := ch\<rparr>) s1;
          Some (pic_send_eoi 1 s2) } })"

definition ps2_keyboard_get_modifiers :: "input \<Rightarrow> u8" where
  "ps2_keyboard_get_modifiers s = modifiers s"

section \<open>Mouse\<close>

definition mouse_decode :: "u8 \<Rightarrow> u8 \<Rightarrow> u8 \<Rightarrow> u16 \<times> u16" where
  "mouse_decode flags x y =
     (let dx = (ucast x :: u16); dy = (ucast y :: u16);
          dx1 = (if flags AND 0x10 \<noteq> 0 then dx OR 0xFF00 else dx);
          dy1 = (if flags AND 0x20 \<noteq> 0 then dy OR 0xFF00 else dy)
      in (dx1, - dy1))"

definition mouse_packet_events :: "u8 \<Rightarrow> u16 \<Rightarrow> u16 \<Rightarrow> u8 \<Rightarrow> input \<Rightarrow> input option" where
  "mouse_packet_events flags dx dy dz s = do {
     s1 \<leftarrow> (if dx \<noteq> 0 \<or> dy \<noteq> 0 then
              input_push_event (zero_event\<lparr>ev_type := INPUT_EVENT_MOUSE_MOVE, mouse_dx := dx, mouse_dy := dy,
                mouse_buttons := flags AND 7\<rparr>) s
            else Some s);
     let buttons = flags AND 7;
     s2 \<leftarrow> (if buttons \<noteq> prev_buttons s1 then do {
              s' \<leftarrow> input_push_event (zero_event\<lparr>ev_type := INPUT_EVENT_MOUSE_BUTTON, mouse_buttons := buttons\<rparr>) s1;
              Some (s'\<lparr>prev_buttons := buttons\<rparr>) }
            else Some s1);
     if dz \<noteq> 0 then
       input_push_event (zero_event\<lparr>ev_type := INPUT_EVENT_MOUSE_SCROLL, mouse_dz := dz, mouse_buttons := buttons\<rparr>) s2
     else Some s2 }"

definition mouse_irq_handler :: "u8 \<Rightarrow> input \<Rightarrow> input option" where
  "mouse_irq_handler data s =
     (if packet_index s = 0 \<and> data AND 0x08 = 0 then Some (pic_send_eoi 12 s)
      else do {
        p \<leftarrow> wr (mouse_packet s) (packet_index s) data;
        let s1 = s\<lparr>mouse_packet := p, packet_index := packet_index s + 1\<rparr>;
        let packet_size = (if has_scroll_wheel s1 then 4 else 3);
        if packet_size \<le> packet_index s1 then do {
          let s2 = s1\<lparr>packet_index := 0\<rparr>;
          flags \<leftarrow> rd (mouse_packet s2) 0;
          x \<leftarrow> rd (mouse_packet s2) 1;
          y \<leftarrow> rd (mouse_packet s2) 2;
          let (dx, dy) = mouse_decode flags x y;
          dz \<leftarrow> (if has_scroll_wheel s2 then rd (mouse_packet s2) 3 else Some 0);
          if flags AND 0x40 \<noteq> 0 \<or> flags AND 0x80 \<noteq> 0 then Some (pic_send_eoi 12 s2)
          else do { s3 \<leftarrow> mouse_packet_events flags dx dy dz s2; Some (pic_send_eoi 12 s3) } }
        else Some (pic_send_eoi 12 s1) })"

section \<open>Rings\<close>

text \<open>The elements of a ring of size \<open>N\<close> from the tail \<open>t\<close> on, and their number.\<close>

definition ring_list :: "nat \<Rightarrow> 'a list \<Rightarrow> nat \<Rightarrow> nat \<Rightarrow> 'a list" where
  "ring_list N xs t n = map (\<lambda>i. xs ! ((t + i) mod N)) [0..<n]"

definition ring_count :: "nat \<Rightarrow> nat \<Rightarrow> nat \<Rightarrow> nat" where
  "ring_count N h t = (h + N - t) mod N"

lemma ring_count_head: "h < N \<Longrightarrow> t < N \<Longrightarrow> (t + ring_count N h t) mod N = h"
  unfolding ring_count_def by (simp add: mod_add_right_eq)

lemma ring_count_less: "0 < N \<Longrightarrow> ring_count N h t < N"
  by (simp add: ring_count_def)

lemma mod_add_inj:
  assumes "a < N" "b < N" "(t + a) mod N = (t + b) mod (N :: nat)"
  shows "a = b"
  using assms
proof (induction a b rule: linorder_wlog)
  case (le a b)
  then have "N dvd (t + b) - (t + a)" using mod_eq_dvd_iff_nat[of "t + a" "t + b" N] by simp
  then have "N dvd b - a" by simp
  then show ?case using le by (auto dest: dvd_imp_le)
next
  case (sym a b)
  then show ?case by metis
qed

lemma ring_count_unique:
  assumes "t < N" "n < N" "(t + n) mod N = h"
  shows "ring_count N h t = n"
  using assms ring_count_head[of h N t] ring_count_less[of N h t] mod_add_inj[of "ring_count N h t" N n t] by auto

lemma ring_list_length [simp]: "length (ring_list N xs t n) = n"
  by (simp add: ring_list_def)

lemma ring_list_snoc:
  assumes "n < N" "(t + n) mod N < length xs"
  shows "ring_list N (xs[(t + n) mod N := e]) t (Suc n) = ring_list N xs t n @ [e]"
proof -
  have "xs[(t + n) mod N := e] ! ((t + i) mod N) = xs ! ((t + i) mod N)" if "i < n" for i
    using that assms mod_add_inj[of i N n t] by (auto simp: nth_list_update)
  then show ?thesis using assms by (simp add: ring_list_def)
qed

lemma ring_list_tl: "ring_list N xs t (Suc n) = xs ! (t mod N) # ring_list N xs ((t + 1) mod N) n"
proof -
  have "ring_list N xs t (Suc n) = map (\<lambda>i. xs ! ((t + i) mod N)) (0 # map Suc [0..<n])"
    by (simp add: ring_list_def upt_conv_Cons map_Suc_upt del: upt_Suc)
  then show ?thesis by (simp add: ring_list_def mod_add_left_eq)
qed

section \<open>The event ring is a bounded queue\<close>

lemma last_n_append: "last_n n (last_n n xs @ ys) = last_n n (xs @ ys)"
proof (induction ys rule: rev_induct)
  case Nil
  then show ?case by (simp add: last_n_def)
next
  case (snoc y ys)
  then show ?case using last_n_snoc[of n "last_n n xs @ ys" y] last_n_snoc[of n "xs @ ys" y] by simp
qed

definition pending :: "input \<Rightarrow> input_event list" where
  "pending s = ring_list INPUT_QUEUE_SIZE (event_queue s) (unat (queue_tail s))
     (ring_count INPUT_QUEUE_SIZE (unat (queue_head s)) (unat (queue_tail s)))"

definition inq_inv :: "input \<Rightarrow> bool" where
  "inq_inv s \<longleftrightarrow> length (event_queue s) = INPUT_QUEUE_SIZE \<and> unat (queue_head s) < INPUT_QUEUE_SIZE \<and>
     unat (queue_tail s) < INPUT_QUEUE_SIZE"

text \<open>A queue that forgets the oldest elements when it is full.\<close>

locale dropping_queue =
  fixes elems :: "'s \<Rightarrow> 'e list" and push :: "'e \<Rightarrow> 's \<Rightarrow> 's option" and inv :: "'s \<Rightarrow> bool" and cap :: nat
  assumes push_ok: "inv s \<Longrightarrow> \<exists>s'. push e s = Some s' \<and> inv s' \<and> elems s' = last_n cap (elems s @ [e])"
begin

primrec push_all :: "'e list \<Rightarrow> 's \<Rightarrow> 's option" where
  "push_all [] s = Some s"
| "push_all (e # es) s = Option.bind (push e s) (push_all es)"

lemma push_all_ok:
  "inv s \<Longrightarrow> length (elems s) \<le> cap \<Longrightarrow>
   \<exists>s'. push_all es s = Some s' \<and> inv s' \<and> elems s' = last_n cap (elems s @ es)"
proof (induction es arbitrary: s)
  case Nil
  then show ?case by (simp add: last_n_def)
next
  case (Cons e es)
  obtain s1 where s1: "push e s = Some s1" "inv s1" "elems s1 = last_n cap (elems s @ [e])"
    using push_ok[OF Cons.prems(1)] by blast
  have "length (elems s1) \<le> cap" using s1(3) by (simp add: last_n_def)
  from Cons.IH[OF s1(2) this] s1 show ?case by (simp add: last_n_append)
qed

end

lemma unat_succ_mod:
  fixes h :: u32
  assumes "unat h < INPUT_QUEUE_SIZE"
  shows "unat ((h + 1) mod of_nat INPUT_QUEUE_SIZE) = (unat h + 1) mod INPUT_QUEUE_SIZE"
proof -
  have "unat (h + 1) = unat h + 1" using assms by (simp add: INPUT_QUEUE_SIZE_def unat_word_ariths)
  then show ?thesis by (simp add: INPUT_QUEUE_SIZE_def unat_mod_distrib)
qed

lemma input_push_ok:
  assumes inv: "inq_inv s"
  shows "\<exists>s'. input_push_event e s = Some s' \<and> inq_inv s' \<and> pending s' = last_n 255 (pending s @ [e]) \<and>
    (\<exists>q h t. s' = s\<lparr>event_queue := q, queue_head := h, queue_tail := t\<rparr>)"
proof -
  let ?N = INPUT_QUEUE_SIZE
  define h t n where "h = unat (queue_head s)" "t = unat (queue_tail s)" "n = ring_count ?N h t"
  let ?nxt = "(queue_head s + 1) mod of_nat ?N"
  have b: "h < ?N" "t < ?N" "length (event_queue s) = ?N" "n < ?N"
    using inv by (auto simp: inq_inv_def h_t_n_def intro!: ring_count_less simp: INPUT_QUEUE_SIZE_def)
  have nxt: "unat ?nxt = (h + 1) mod ?N" using unat_succ_mod b(1) by (simp add: h_t_n_def(1))
  have tn: "(t + n) mod ?N = h" using ring_count_head[OF b(1,2)] by (simp add: h_t_n_def(3))
  have p: "pending s = ring_list ?N (event_queue s) t n" by (simp add: pending_def h_t_n_def)
  have snoc: "ring_list ?N ((event_queue s)[h := e]) t (Suc n) = pending s @ [e]"
    using ring_list_snoc[of n ?N t "event_queue s" e] b tn by (simp add: p)
  have full: "?nxt = queue_tail s \<longleftrightarrow> n = 255"
  proof -
    have "?nxt = queue_tail s \<longleftrightarrow> (t + (n + 1)) mod ?N = t mod ?N"
      using nxt tn b(2) by (simp add: word_unat_eq_iff mod_Suc_eq h_t_n_def(2)[symmetric]) (metis mod_Suc_eq)
    also have "\<dots> \<longleftrightarrow> n = 255"
    proof (cases "n = 255")
      case True
      then show ?thesis by (simp add: INPUT_QUEUE_SIZE_def)
    next
      case False
      then have "n + 1 < ?N" using b(4) by (simp add: INPUT_QUEUE_SIZE_def)
      moreover have "0 < ?N" by (simp add: INPUT_QUEUE_SIZE_def)
      ultimately have "(t + (n + 1)) mod ?N \<noteq> (t + 0) mod ?N" using mod_add_inj[of "n + 1" ?N 0 t] by linarith
      then show ?thesis using False by simp
    qed
    finally show ?thesis .
  qed
  show ?thesis
  proof (cases "n = 255")
    case True
    let ?t1 = "(queue_tail s + 1) mod of_nat ?N"
    let ?s = "s\<lparr>queue_tail := ?t1, event_queue := (event_queue s)[h := e], queue_head := ?nxt\<rparr>"
    have t1: "unat ?t1 = (t + 1) mod ?N" using unat_succ_mod b(2) by (simp add: h_t_n_def(2))
    have "ring_count ?N (unat ?nxt) (unat ?t1) = 255"
    proof (rule ring_count_unique)
      show "(unat ?t1 + 255) mod ?N = unat ?nxt"
      proof -
        have "(unat ?t1 + 255) mod ?N = ((t + n) + 1) mod ?N"
          unfolding t1 mod_add_left_eq using True by (simp add: ac_simps)
        then show ?thesis unfolding nxt using tn mod_add_left_eq[of "t + n" ?N 1] by metis
      qed
      show "unat ?t1 < ?N" unfolding t1 by (simp add: INPUT_QUEUE_SIZE_def)
    qed (simp add: INPUT_QUEUE_SIZE_def)
    then have "pending ?s = ring_list ?N ((event_queue s)[h := e]) ((t + 1) mod ?N) 255"
      by (simp add: pending_def t1)
    also have "\<dots> = tl (ring_list ?N ((event_queue s)[h := e]) t (Suc 255))" unfolding ring_list_tl by simp
    also have "\<dots> = last_n 255 (pending s @ [e])" 
    proof -
      have "length (pending s) = 255" using p True by simp
      then show ?thesis unfolding last_n_def using snoc True by (cases "pending s") auto
    qed
    finally have "pending ?s = last_n 255 (pending s @ [e])" .
    moreover have "input_push_event e s = Some ?s" using full True b by (simp add: input_push_event_def h_t_n_def(1)[symmetric] Let_def)
    moreover have "inq_inv ?s" using b by (simp add: inq_inv_def t1 nxt)
    moreover have "\<exists>q h t. ?s = s\<lparr>event_queue := q, queue_head := h, queue_tail := t\<rparr>"
      by (rule exI[of _ "(event_queue s)[h := e]"], rule exI[of _ ?nxt], rule exI[of _ ?t1]) simp
    ultimately show ?thesis by (intro exI[of _ ?s] conjI)
  next
    case False
    let ?s = "s\<lparr>event_queue := (event_queue s)[h := e], queue_head := ?nxt\<rparr>"
    have "ring_count ?N (unat ?nxt) t = Suc n"
    proof (rule ring_count_unique[OF b(2)])
      show "Suc n < ?N" using b(4) False by (simp add: INPUT_QUEUE_SIZE_def)
      have "(t + Suc n) mod ?N = ((t + n) mod ?N + 1) mod ?N" unfolding mod_add_left_eq by simp
      then show "(t + Suc n) mod ?N = unat ?nxt" unfolding nxt tn .
    qed
    then have "pending ?s = pending s @ [e]" using snoc by (simp add: pending_def h_t_n_def(2)[symmetric])
    moreover have "length (pending s) < 255" using b(4) False by (simp add: p INPUT_QUEUE_SIZE_def)
    moreover have "input_push_event e s = Some ?s"
      using full False b by (simp add: input_push_event_def h_t_n_def(1)[symmetric] Let_def)
    moreover have "inq_inv ?s" using b by (simp add: inq_inv_def nxt h_t_n_def)
    moreover have "\<exists>q h t. ?s = s\<lparr>event_queue := q, queue_head := h, queue_tail := t\<rparr>"
      by (rule exI[of _ "(event_queue s)[h := e]"], rule exI[of _ ?nxt], rule exI[of _ "queue_tail s"]) simp
    moreover have "last_n 255 (pending s @ [e]) = pending s @ [e]" if "length (pending s) < 255"
      using that by (simp add: last_n_def)
    ultimately show ?thesis by (intro exI[of _ ?s] conjI) simp_all
  qed
qed

lemma pending_bound: "length (pending s) \<le> 255"
  using ring_count_less[of INPUT_QUEUE_SIZE "unat (queue_head s)" "unat (queue_tail s)"]
  by (simp add: pending_def INPUT_QUEUE_SIZE_def)

interpretation events: dropping_queue pending input_push_event inq_inv 255
  by unfold_locales (use input_push_ok in blast)

lemma acquire_free:
  assumes "lock (slock c) = 0"
  shows "\<exists>c1. spinlock_acquire c = Some c1 \<and> rflags (spinlock_release c1) = rflags c \<and> lock (slock (spinlock_release c1)) = 0"
proof -
  let ?c1 = "(cli c)\<lparr>slock := (slock c)\<lparr>lock := 1, saved_flags := rflags c\<rparr>\<rparr>"
  have acq: "spinlock_acquire c = Some ?c1"
    using spin_free[of "cli c"] assms by (simp add: spinlock_acquire_def read_rflags_def cli_def)
  have b: "bit IF_BIT k \<longleftrightarrow> k = 9" for k
    using bit_exp_iff[of 9 k, where ?'a = u64] by (auto simp: IF_BIT_def)
  have "rflags (spinlock_release ?c1) = rflags c"
    by (rule bit_word_eqI) (use if_bit[of "rflags c"] in
      \<open>auto simp: spinlock_release_def cli_def sti_def bit_or_iff bit_and_iff bit_not_iff b\<close>)
  then show ?thesis using acq by (auto simp: spinlock_release_def sti_def Let_def)
qed

lemma pending_empty:
  assumes "inq_inv s"
  shows "pending s = [] \<longleftrightarrow> queue_head s = queue_tail s"
proof
  assume "queue_head s = queue_tail s"
  then show "pending s = []" by (simp add: pending_def ring_count_def ring_list_def)
next
  assume "pending s = []"
  then have "ring_count INPUT_QUEUE_SIZE (unat (queue_head s)) (unat (queue_tail s)) = 0"
    by (simp add: pending_def ring_list_def)
  then have "unat (queue_tail s) mod INPUT_QUEUE_SIZE = unat (queue_head s)"
    using ring_count_head assms by (metis inq_inv_def add_0_right)
  then show "queue_head s = queue_tail s" using assms by (simp add: inq_inv_def word_unat_eq_iff)
qed

lemma input_poll_pending:
  assumes inv: "inq_inv s" and free: "lock (slock (input_cpu s)) = 0" and Cons: "pending s = x # xs"
  shows "\<exists>s'. input_poll_event s = Some (Some x, s') \<and> inq_inv s' \<and> pending s' = xs \<and>
     rflags (input_cpu s') = rflags (input_cpu s) \<and> lock (slock (input_cpu s')) = 0"
proof -
  let ?N = INPUT_QUEUE_SIZE and ?t = "unat (queue_tail s)" and ?h = "unat (queue_head s)"
  obtain c where c: "spinlock_acquire (input_cpu s) = Some c" "rflags (spinlock_release c) = rflags (input_cpu s)"
      "lock (slock (spinlock_release c)) = 0" using acquire_free[OF free] by blast
  have b: "?h < ?N" "?t < ?N" "length (event_queue s) = ?N" using inv by (auto simp: inq_inv_def)
  obtain n where n: "ring_count ?N ?h ?t = Suc n"
    using Cons by (cases "ring_count ?N ?h ?t") (auto simp: pending_def ring_list_def)
  have x: "x = event_queue s ! ?t" "xs = ring_list ?N (event_queue s) ((?t + 1) mod ?N) n"
    using Cons b by (simp_all add: pending_def n ring_list_tl)
  have t1: "unat ((queue_tail s + 1) mod of_nat ?N) = (?t + 1) mod ?N" by (rule unat_succ_mod[OF b(2)])
  have "ring_count ?N ?h ((?t + 1) mod ?N) = n"
  proof (rule ring_count_unique)
    show "((?t + 1) mod ?N + n) mod ?N = ?h" using ring_count_head[OF b(1,2)] n by (simp add: mod_add_left_eq)
    show "n < ?N" using n ring_count_less[of ?N ?h ?t] b by simp
  qed (use b in simp)
  then show ?thesis using Cons pending_empty[OF inv] b c x
    by (simp add: input_poll_event_def) (simp add: inq_inv_def pending_def t1)
qed

text \<open>
  C27. The input ring is a first-in first-out queue of at most 255 events. A push adds the event at the
  end and forgets the oldest when the ring is full; a poll returns the oldest event, takes it off, and
  gives back the lock and the interrupt flag as it found them; a poll of the empty queue changes nothing.
  No access leaves the ring.
\<close>

theorem input_queue_correct:
  assumes inv: "inq_inv s" and free: "lock (slock (input_cpu s)) = 0"
  shows "(\<exists>s'. input_push_event e s = Some s' \<and> inq_inv s' \<and> pending s' = last_n 255 (pending s @ [e])) \<and>
    input_has_event s = (pending s \<noteq> []) \<and>
    (case pending s of
       [] \<Rightarrow> input_poll_event s = Some (None, s)
     | x # xs \<Rightarrow> \<exists>s'. input_poll_event s = Some (Some x, s') \<and> inq_inv s' \<and> pending s' = xs \<and>
         rflags (input_cpu s') = rflags (input_cpu s) \<and> lock (slock (input_cpu s')) = 0)"
proof (intro conjI)
  show "\<exists>s'. input_push_event e s = Some s' \<and> inq_inv s' \<and> pending s' = last_n 255 (pending s @ [e])"
    by (rule events.push_ok[OF inv])
  show "input_has_event s = (pending s \<noteq> [])" using pending_empty[OF inv] by (simp add: input_has_event_def)
  show "case pending s of
       [] \<Rightarrow> input_poll_event s = Some (None, s)
     | x # xs \<Rightarrow> \<exists>s'. input_poll_event s = Some (Some x, s') \<and> inq_inv s' \<and> pending s' = xs \<and>
         rflags (input_cpu s') = rflags (input_cpu s) \<and> lock (slock (input_cpu s')) = 0"
  proof (cases "pending s")
    case Nil
    then show ?thesis using pending_empty[OF inv] by (simp add: input_poll_event_def)
  next
    case (Cons x xs)
    then show ?thesis using input_poll_pending[OF inv free Cons] by simp
  qed
qed

definition demo_input :: input where
  "demo_input = \<lparr>event_queue = replicate 256 zero_event, queue_head = 0, queue_tail = 255,
     input_cpu = \<lparr>rflags = 0x202, slock = \<lparr>lock = 0, saved_flags = 0\<rparr>\<rparr>, modifiers = 0, extended = False,
     released = False, mouse_packet = [0, 0, 0, 0], packet_index = 0, has_scroll_wheel = False,
     prev_buttons = 0, eois = []\<rparr>"

lemma demo_input_inv: "inq_inv demo_input" "lock (slock (input_cpu demo_input)) = 0" "pending demo_input = [zero_event]"
  by (simp_all add: inq_inv_def demo_input_def INPUT_QUEUE_SIZE_def pending_def ring_list_def ring_count_def)

theorem input_queue_witness:
  "\<exists>s'. input_poll_event demo_input = Some (Some zero_event, s') \<and> pending s' = [] \<and> rflags (input_cpu s') = 0x202"
proof -
  have "rflags (input_cpu demo_input) = 0x202" by (simp add: demo_input_def)
  then show ?thesis using input_queue_correct[OF demo_input_inv(1,2), of zero_event] demo_input_inv(3) by auto
qed

section \<open>Typing\<close>

text \<open>
  The keys of the printable ASCII characters on a US keyboard in scan code set 2: the character, whether it
  needs the shift key, and the make code.
\<close>

definition us_layout :: "(u8 \<times> bool \<times> u8) list" where
  "us_layout = [
     (32, False, 0x29), (33, True, 0x16), (34, True, 0x52), (35, True, 0x26), (36, True, 0x25), (37, True, 0x2E),
     (38, True, 0x3D), (39, False, 0x52), (40, True, 0x46), (41, True, 0x45), (42, True, 0x3E), (43, True, 0x55),
     (44, False, 0x41), (45, False, 0x4E), (46, False, 0x49), (47, False, 0x4A), (48, False, 0x45), (49, False, 0x16),
     (50, False, 0x1E), (51, False, 0x26), (52, False, 0x25), (53, False, 0x2E), (54, False, 0x36), (55, False, 0x3D),
     (56, False, 0x3E), (57, False, 0x46), (58, True, 0x4C), (59, False, 0x4C), (60, True, 0x41), (61, False, 0x55),
     (62, True, 0x49), (63, True, 0x4A), (64, True, 0x1E), (65, True, 0x1C), (66, True, 0x32), (67, True, 0x21),
     (68, True, 0x23), (69, True, 0x24), (70, True, 0x2B), (71, True, 0x34), (72, True, 0x33), (73, True, 0x43),
     (74, True, 0x3B), (75, True, 0x42), (76, True, 0x4B), (77, True, 0x3A), (78, True, 0x31), (79, True, 0x44),
     (80, True, 0x4D), (81, True, 0x15), (82, True, 0x2D), (83, True, 0x1B), (84, True, 0x2C), (85, True, 0x3C),
     (86, True, 0x2A), (87, True, 0x1D), (88, True, 0x22), (89, True, 0x35), (90, True, 0x1A), (91, False, 0x54),
     (92, False, 0x5D), (93, False, 0x5B), (94, True, 0x36), (95, True, 0x4E), (96, False, 0x0E), (97, False, 0x1C),
     (98, False, 0x32), (99, False, 0x21), (100, False, 0x23), (101, False, 0x24), (102, False, 0x2B), (103, False, 0x34),
     (104, False, 0x33), (105, False, 0x43), (106, False, 0x3B), (107, False, 0x42), (108, False, 0x4B), (109, False, 0x3A),
     (110, False, 0x31), (111, False, 0x44), (112, False, 0x4D), (113, False, 0x15), (114, False, 0x2D), (115, False, 0x1B),
     (116, False, 0x2C), (117, False, 0x3C), (118, False, 0x2A), (119, False, 0x1D), (120, False, 0x22), (121, False, 0x35),
     (122, False, 0x1A), (123, True, 0x54), (124, True, 0x5D), (125, True, 0x5B), (126, True, 0x0E)]"

definition key_of :: "u8 \<Rightarrow> bool \<times> u8" where
  "key_of c = (case map_of us_layout c of Some k \<Rightarrow> k | None \<Rightarrow> (False, 0))"

text \<open>What a keyboard sends for a character, and the events expected for it.\<close>

definition type_char :: "u8 \<Rightarrow> u8 list" where
  "type_char c = (case key_of c of (shift, sc) \<Rightarrow>
     (if shift then [0x12] else []) @ [sc, 0xF0, sc] @ (if shift then [0xF0, 0x12] else []))"

definition char_events :: "u8 \<Rightarrow> input_event list" where
  "char_events c = (case key_of c of (shift, sc) \<Rightarrow>
     let e = zero_event\<lparr>scancode := sc, ev_modifiers := (if shift then MOD_SHIFT else 0)\<rparr>
     in [e\<lparr>ev_type := INPUT_EVENT_KEY_PRESS, ascii := c\<rparr>, e\<lparr>ev_type := INPUT_EVENT_KEY_RELEASE\<rparr>])"

primrec kbd_bytes :: "u8 list \<Rightarrow> input \<Rightarrow> input option" where
  "kbd_bytes [] s = Some s"
| "kbd_bytes (b # bs) s = Option.bind (keyboard_irq_handler b s) (kbd_bytes bs)"

lemma kbd_bytes_append: "kbd_bytes (xs @ ys) s = Option.bind (kbd_bytes xs s) (kbd_bytes ys)"
proof (induction xs arbitrary: s)
  case (Cons x xs)
  then show ?case by (cases "keyboard_irq_handler x s") simp_all
qed simp

definition kbd_idle :: "u8 \<Rightarrow> input \<Rightarrow> bool" where
  "kbd_idle m s \<longleftrightarrow> \<not> extended s \<and> \<not> released s \<and> modifiers s = m \<and> inq_inv s"

definition printable :: "u8 list" where
  "printable = map of_nat [32..<127]"

definition plain_key :: "u8 \<Rightarrow> bool" where
  "plain_key sc \<longleftrightarrow> sc \<noteq> 0xE0 \<and> sc \<noteq> 0xE1 \<and> sc \<noteq> 0xF0 \<and> sc2_get_modifier_flag sc False = 0"

definition key_ok :: "u8 \<times> bool \<times> u8 \<Rightarrow> bool" where
  "key_ok k = (case k of (c, shift, sc) \<Rightarrow>
     plain_key sc \<and> key_char sc False (if shift then MOD_SHIFT else 0) = Some c)"

lemma us_layout_ok: "list_all key_ok us_layout"
  by code_simp

lemma printable_layout: "set printable \<subseteq> fst ` set us_layout"
  by (simp add: printable_def us_layout_def upt_rec)

lemma printable_keys:
  assumes "c \<in> set printable"
  shows "case key_of c of (shift, sc) \<Rightarrow> plain_key sc \<and> key_char sc False (if shift then MOD_SHIFT else 0) = Some c"
proof -
  have "map_of us_layout c \<noteq> None" using assms printable_layout by (auto simp: map_of_eq_None_iff)
  then obtain shift sc where m: "map_of us_layout c = Some (shift, sc)" by auto
  then have "key_ok (c, shift, sc)" using us_layout_ok map_of_SomeD by (fastforce simp: list_all_iff)
  then show ?thesis using m by (simp add: key_of_def key_ok_def)
qed

lemma kbd_press:
  assumes idle: "kbd_idle m s" and k: "plain_key sc" and c: "key_char sc False m = Some c"
  shows "\<exists>s'. keyboard_irq_handler sc s = Some s' \<and> kbd_idle m s' \<and>
     pending s' = last_n 255 (pending s @ [zero_event\<lparr>scancode := sc, ev_modifiers := m, ev_type := INPUT_EVENT_KEY_PRESS, ascii := c\<rparr>])"
proof -
  let ?s1 = "s\<lparr>extended := False, released := False\<rparr>"
  let ?e = "zero_event\<lparr>scancode := sc, ev_modifiers := m, ev_type := INPUT_EVENT_KEY_PRESS, ascii := c\<rparr>"
  have "inq_inv ?s1" and p: "pending ?s1 = pending s" using idle by (simp_all add: kbd_idle_def inq_inv_def pending_def)
  from input_push_ok[OF this(1), of ?e] obtain s2 where
    s2: "input_push_event ?e ?s1 = Some s2" "inq_inv s2" "pending s2 = last_n 255 (pending s @ [?e])"
      "\<exists>q h t. s2 = ?s1\<lparr>event_queue := q, queue_head := h, queue_tail := t\<rparr>" unfolding p by blast
  have "keyboard_irq_handler sc s = Some (pic_send_eoi 1 s2)"
    using idle k c s2(1) by (simp add: keyboard_irq_handler_def kbd_idle_def plain_key_def)
  moreover have "kbd_idle m (pic_send_eoi 1 s2)" "pending (pic_send_eoi 1 s2) = pending s2"
    using idle s2(2,4) by (auto simp: kbd_idle_def pic_send_eoi_def inq_inv_def pending_def)
  ultimately show ?thesis using s2(3) by auto
qed

lemma kbd_release:
  assumes idle: "kbd_idle m s" and k: "plain_key sc" and c: "key_char sc False m = Some c"
  shows "\<exists>s'. kbd_bytes [0xF0, sc] s = Some s' \<and> kbd_idle m s' \<and>
     pending s' = last_n 255 (pending s @ [zero_event\<lparr>scancode := sc, ev_modifiers := m, ev_type := INPUT_EVENT_KEY_RELEASE\<rparr>])"
proof -
  let ?s0 = "pic_send_eoi 1 (s\<lparr>released := True\<rparr>)"
  let ?s1 = "?s0\<lparr>extended := False, released := False\<rparr>"
  let ?e = "zero_event\<lparr>scancode := sc, ev_modifiers := m, ev_type := INPUT_EVENT_KEY_RELEASE, ascii := 0\<rparr>"
  have inv: "inq_inv ?s1" and p: "pending ?s1 = pending s"
    using idle by (simp_all add: kbd_idle_def inq_inv_def pending_def pic_send_eoi_def)
  from input_push_ok[OF inv, of ?e] obtain s2 where
    s2: "input_push_event ?e ?s1 = Some s2" "inq_inv s2" "pending s2 = last_n 255 (pending s @ [?e])"
      "\<exists>q h t. s2 = ?s1\<lparr>event_queue := q, queue_head := h, queue_tail := t\<rparr>" unfolding p by blast
  have "keyboard_irq_handler 0xF0 s = Some ?s0" by (simp add: keyboard_irq_handler_def)
  moreover have "keyboard_irq_handler sc ?s0 = Some (pic_send_eoi 1 s2)"
    using idle k c s2(1) by (simp add: keyboard_irq_handler_def kbd_idle_def plain_key_def pic_send_eoi_def)
  ultimately have "kbd_bytes [0xF0, sc] s = Some (pic_send_eoi 1 s2)" by simp
  moreover have "kbd_idle m (pic_send_eoi 1 s2)" "pending (pic_send_eoi 1 s2) = pending s2"
    using idle s2(2,4) by (auto simp: kbd_idle_def pic_send_eoi_def inq_inv_def pending_def)
  moreover have "?e = zero_event\<lparr>scancode := sc, ev_modifiers := m, ev_type := INPUT_EVENT_KEY_RELEASE\<rparr>"
    by (simp add: zero_event_def)
  ultimately show ?thesis using s2(3) by auto
qed

lemma kbd_shift:
  assumes "kbd_idle 0 s"
  shows "\<exists>s'. keyboard_irq_handler 0x12 s = Some s' \<and> kbd_idle MOD_SHIFT s' \<and> pending s' = pending s"
  using assms by (simp add: keyboard_irq_handler_def kbd_idle_def sc2_get_modifier_flag_def pic_send_eoi_def
      MOD_SHIFT_def MOD_CAPSLOCK_def inq_inv_def pending_def)

lemma kbd_unshift:
  assumes "kbd_idle MOD_SHIFT s"
  shows "\<exists>s'. kbd_bytes [0xF0, 0x12] s = Some s' \<and> kbd_idle 0 s' \<and> pending s' = pending s"
  using assms by (simp add: keyboard_irq_handler_def kbd_idle_def sc2_get_modifier_flag_def pic_send_eoi_def
      MOD_SHIFT_def MOD_CAPSLOCK_def inq_inv_def pending_def)

lemma kbd_stroke:
  assumes idle: "kbd_idle m s" and k: "plain_key sc" and c: "key_char sc False m = Some c"
  shows "\<exists>s'. kbd_bytes [sc, 0xF0, sc] s = Some s' \<and> kbd_idle m s' \<and>
     pending s' = last_n 255 (pending s @
       [zero_event\<lparr>scancode := sc, ev_modifiers := m, ev_type := INPUT_EVENT_KEY_PRESS, ascii := c\<rparr>,
        zero_event\<lparr>scancode := sc, ev_modifiers := m, ev_type := INPUT_EVENT_KEY_RELEASE\<rparr>])"
proof -
  obtain s1 where s1: "keyboard_irq_handler sc s = Some s1" "kbd_idle m s1"
    "pending s1 = last_n 255 (pending s @ [zero_event\<lparr>scancode := sc, ev_modifiers := m, ev_type := INPUT_EVENT_KEY_PRESS, ascii := c\<rparr>])"
    using kbd_press[OF assms] by blast
  obtain s2 where "kbd_bytes [0xF0, sc] s1 = Some s2" "kbd_idle m s2"
    "pending s2 = last_n 255 (pending s1 @ [zero_event\<lparr>scancode := sc, ev_modifiers := m, ev_type := INPUT_EVENT_KEY_RELEASE\<rparr>])"
    using kbd_release[OF s1(2) k c] by blast
  moreover have "kbd_bytes [sc, 0xF0, sc] s = kbd_bytes [0xF0, sc] s1" using s1(1) by simp
  ultimately show ?thesis using s1(3) by (simp add: last_n_append)
qed

lemma type_char_ok:
  assumes idle: "kbd_idle 0 s" and c: "c \<in> set printable"
  shows "\<exists>s'. kbd_bytes (type_char c) s = Some s' \<and> kbd_idle 0 s' \<and> pending s' = last_n 255 (pending s @ char_events c)"
proof -
  obtain shift sc where k: "key_of c = (shift, sc)" by force
  have key: "plain_key sc" "key_char sc False (if shift then MOD_SHIFT else 0) = Some c"
    using printable_keys[OF c] k by auto
  show ?thesis
  proof (cases shift)
    case False
    then show ?thesis using kbd_stroke[OF idle key(1)] key(2) by (simp add: type_char_def char_events_def k Let_def)
  next
    case True
    obtain s1 where s1: "keyboard_irq_handler 0x12 s = Some s1" "kbd_idle MOD_SHIFT s1" "pending s1 = pending s"
      using kbd_shift[OF idle] by blast
    obtain s2 where s2: "kbd_bytes [sc, 0xF0, sc] s1 = Some s2" "kbd_idle MOD_SHIFT s2"
        "pending s2 = last_n 255 (pending s1 @ char_events c)"
      using kbd_stroke[OF s1(2) key(1)] key(2) True by (auto simp: char_events_def k Let_def)
    obtain s3 where s3: "kbd_bytes [0xF0, 0x12] s2 = Some s3" "kbd_idle 0 s3" "pending s3 = pending s2"
      using kbd_unshift[OF s2(2)] by blast
    have t: "type_char c = [0x12] @ [sc, 0xF0, sc] @ [0xF0, 0x12]" by (simp add: type_char_def k True)
    have "kbd_bytes [0x12] s = Some s1" using s1(1) by simp
    then have "kbd_bytes (type_char c) s = Some s3"
      unfolding t kbd_bytes_append s2(1) s3(1) by (simp only: Option.bind.bind_lunit s2(1) s3(1))
    then show ?thesis using s1(3) s2(3) s3(2,3) by simp
  qed
qed

lemma keyboard_cpu: "keyboard_irq_handler b s = Some s' \<Longrightarrow> input_cpu s' = input_cpu s"
  by (auto simp: keyboard_irq_handler_def input_push_event_def pic_send_eoi_def Let_def bind_eq_Some_conv split: if_splits)

lemma kbd_bytes_cpu: "kbd_bytes bs s = Some s' \<Longrightarrow> input_cpu s' = input_cpu s"
proof (induction bs arbitrary: s)
  case (Cons b bs)
  then obtain s1 where "keyboard_irq_handler b s = Some s1" "kbd_bytes bs s1 = Some s'" by (auto simp: bind_eq_Some_conv)
  then show ?case using Cons.IH keyboard_cpu by metis
qed simp

lemma kbd_text:
  "kbd_idle 0 s \<Longrightarrow> set cs \<subseteq> set printable \<Longrightarrow>
   \<exists>s'. kbd_bytes (concat (map type_char cs)) s = Some s' \<and> kbd_idle 0 s' \<and>
     pending s' = last_n 255 (pending s @ concat (map char_events cs))"
proof (induction cs arbitrary: s)
  case Nil
  then show ?case using pending_bound[of s] by (simp add: last_n_def)
next
  case (Cons c cs)
  obtain s1 where s1: "kbd_bytes (type_char c) s = Some s1" "kbd_idle 0 s1" "pending s1 = last_n 255 (pending s @ char_events c)"
    using type_char_ok[OF Cons.prems(1), of c] Cons.prems(2) by auto
  obtain s2 where "kbd_bytes (concat (map type_char cs)) s1 = Some s2" "kbd_idle 0 s2"
      "pending s2 = last_n 255 (pending s1 @ concat (map char_events cs))"
    using Cons.IH[OF s1(2)] Cons.prems(2) by auto
  then show ?case using s1 by (simp add: kbd_bytes_append last_n_append)
qed

text \<open>
  C28. Typing. From the idle state of the decoder, the bytes a keyboard sends for a text of printable ASCII
  characters, with the shift key where a character needs it, put exactly one press event with the
  character and one release event per character on the input queue, in order, and leave the decoder
  idle. Every printable ASCII character has a key.
\<close>

theorem keyboard_types_text:
  assumes "kbd_idle 0 s" "set cs \<subseteq> set printable"
  shows "\<exists>s'. kbd_bytes (concat (map type_char cs)) s = Some s' \<and> kbd_idle 0 s' \<and>
     pending s' = last_n 255 (pending s @ concat (map char_events cs))"
  by (rule kbd_text[OF assms])

theorem keyboard_types_text_witness:
  "\<exists>s'. kbd_bytes [0x12, 0x33, 0xF0, 0x33, 0xF0, 0x12, 0x43, 0xF0, 0x43] demo_input = Some s' \<and>
     map ascii (filter (\<lambda>e. ev_type e = INPUT_EVENT_KEY_PRESS) (pending s')) = [72, 105]"
proof -
  have idle: "kbd_idle 0 demo_input" using demo_input_inv(1) by (simp add: kbd_idle_def demo_input_def)
  have p: "set [72, 105] \<subseteq> set printable" by code_simp
  have b: "concat (map type_char [72, 105]) = [0x12, 0x33, 0xF0, 0x33, 0xF0, 0x12, 0x43, 0xF0, 0x43]" by code_simp
  have e: "map ascii (filter (\<lambda>e. ev_type e = INPUT_EVENT_KEY_PRESS) (last_n 255 ([zero_event] @ concat (map char_events [72, 105])))) = [72, 105]"
    by code_simp
  from keyboard_types_text[OF idle p] show ?thesis unfolding b demo_input_inv(3) using e by metis
qed

section \<open>Mouse packets\<close>

definition mouse_inv :: "input \<Rightarrow> bool" where
  "mouse_inv s \<longleftrightarrow> inq_inv s \<and> length (mouse_packet s) = 4 \<and> packet_index s < (if has_scroll_wheel s then 4 else 3)"

lemma push_mouse_inv:
  assumes "mouse_inv s"
  shows "\<exists>s'. input_push_event e s = Some s' \<and> mouse_inv s'"
proof -
  obtain s' where "input_push_event e s = Some s'" "inq_inv s'"
      "\<exists>q h t. s' = s\<lparr>event_queue := q, queue_head := h, queue_tail := t\<rparr>"
    using input_push_ok[of s e] assms unfolding mouse_inv_def by blast
  then show ?thesis using assms by (auto simp: mouse_inv_def)
qed

lemma mouse_events_inv:
  assumes "mouse_inv s"
  shows "\<exists>s'. mouse_packet_events flags dx dy dz s = Some s' \<and> mouse_inv s'"
proof -
  let ?e1 = "zero_event\<lparr>ev_type := INPUT_EVENT_MOUSE_MOVE, mouse_dx := dx, mouse_dy := dy, mouse_buttons := flags AND 7\<rparr>"
  obtain s1 where s1: "(if dx \<noteq> 0 \<or> dy \<noteq> 0 then input_push_event ?e1 s else Some s) = Some s1" "mouse_inv s1"
    using push_mouse_inv[OF assms, of ?e1] assms by (cases "dx \<noteq> 0 \<or> dy \<noteq> 0") auto
  let ?e2 = "zero_event\<lparr>ev_type := INPUT_EVENT_MOUSE_BUTTON, mouse_buttons := flags AND 7\<rparr>"
  let ?m2 = "if flags AND 7 \<noteq> prev_buttons s1 then do { s' \<leftarrow> input_push_event ?e2 s1; Some (s'\<lparr>prev_buttons := flags AND 7\<rparr>) } else Some s1"
  obtain s2 where s2: "?m2 = Some s2" "mouse_inv s2"
    using push_mouse_inv[OF s1(2), of ?e2] s1(2)
    by (cases "flags AND 7 \<noteq> prev_buttons s1") (auto simp: mouse_inv_def inq_inv_def)
  let ?e3 = "zero_event\<lparr>ev_type := INPUT_EVENT_MOUSE_SCROLL, mouse_dz := dz, mouse_buttons := flags AND 7\<rparr>"
  obtain s3 where "(if dz \<noteq> 0 then input_push_event ?e3 s2 else Some s2) = Some s3" "mouse_inv s3"
    using push_mouse_inv[OF s2(2), of ?e3] s2(2) by (cases "dz \<noteq> 0") auto
  then show ?thesis unfolding mouse_packet_events_def Let_def s1(1) Option.bind.bind_lunit s2(1) by auto
qed

text \<open>No byte from the mouse takes the packet index out of the packet buffer.\<close>

lemma mouse_irq_safe:
  assumes "mouse_inv s"
  shows "\<exists>s'. mouse_irq_handler data s = Some s' \<and> mouse_inv s'"
proof (cases "packet_index s = 0 \<and> data AND 0x08 = 0")
  case True
  then show ?thesis using assms by (auto simp: mouse_irq_handler_def pic_send_eoi_def mouse_inv_def inq_inv_def)
next
  case False
  let ?s1 = "s\<lparr>mouse_packet := (mouse_packet s)[packet_index s := data], packet_index := packet_index s + 1\<rparr>"
  have i: "packet_index s < 4" "length (mouse_packet s) = 4" using assms by (auto simp: mouse_inv_def split: if_splits)
  have eoi: "mouse_inv (pic_send_eoi 12 t) = mouse_inv t" for t
    by (simp add: mouse_inv_def inq_inv_def pic_send_eoi_def)
  show ?thesis
  proof (cases "(if has_scroll_wheel s then 4 else 3) \<le> packet_index s + 1")
    case full: True
    let ?s2 = "?s1\<lparr>packet_index := 0\<rparr>"
    have inv2: "mouse_inv ?s2" using assms by (auto simp: mouse_inv_def inq_inv_def)
    obtain flags x y where f: "rd (mouse_packet ?s2) 0 = Some flags" "rd (mouse_packet ?s2) 1 = Some x"
        "rd (mouse_packet ?s2) 2 = Some y" using i by simp
    obtain dx dy where d: "mouse_decode flags x y = (dx, dy)" by force
    obtain dz where z: "(if has_scroll_wheel ?s2 then rd (mouse_packet ?s2) 3 else Some 0) = Some dz" using i by (cases "has_scroll_wheel s") simp_all
    obtain s3 where s3: "mouse_packet_events flags dx dy dz ?s2 = Some s3" "mouse_inv s3"
      using mouse_events_inv[OF inv2] by blast
    have w: "wr (mouse_packet s) (packet_index s) data = Some ((mouse_packet s)[packet_index s := data])"
      and size: "(if has_scroll_wheel ?s1 then 4 else 3) \<le> packet_index ?s1" using i full by simp_all
    have "mouse_irq_handler data s =
        (if flags AND 0x40 \<noteq> 0 \<or> flags AND 0x80 \<noteq> 0 then Some (pic_send_eoi 12 ?s2) else Some (pic_send_eoi 12 s3))"
      unfolding mouse_irq_handler_def Let_def if_not_P[OF False] w Option.bind.bind_lunit if_P[OF size] f d z
        prod.case s3(1) ..
    then show ?thesis using inv2 s3(2) eoi by auto
  next
    case part: False
    then have "mouse_inv ?s1" using assms by (auto simp: mouse_inv_def inq_inv_def split: if_splits)
    then show ?thesis using False part i by (auto simp: mouse_irq_handler_def eoi)
  qed
qed

end
