(* ===== verification/Devfs.thy ===== *)
theory Devfs
  imports Ntfs Terminal Input
begin

text \<open>
  The device file system of \<open>kernel/src/fs/devfs.c\<close>: the registry of nodes, the null, zero, terminal and block
  devices. The terminal device reads from the input manager and echoes to the console, whose states are part of
  the state here. While it waits for a key it calls \<open>schedule\<close>; what the other threads and the interrupt
  handlers do until it runs again is the argument \<open>others\<close>. The argument \<open>now\<close> is the clock that the console reads.
\<close>

section \<open>State\<close>

record devfs_block_impl =
  bl_drive :: u64
  bl_lba_start :: u64
  bl_size_sectors :: u64

record devfs = ntfs +
  devfs_nodes :: "(string \<times> u64) list"
  devfs_ready :: bool
  devfs_root :: "u64 option"
  blk_impls :: "u64 \<Rightarrow> devfs_block_impl option"
  dev_console :: console
  dev_input :: input

definition DEVFS_MAX_NODES :: nat where "DEVFS_MAX_NODES = 32"
definition SIZEOF_BLOCK_IMPL :: u64 where "SIZEOF_BLOCK_IMPL = 24"

text \<open>The addresses of the static tables.\<close>

definition NULL_OPS :: u64 where "NULL_OPS = 5"
definition ZERO_OPS :: u64 where "ZERO_OPS = 6"
definition TTY0_OPS :: u64 where "TTY0_OPS = 7"
definition BLOCK_OPS :: u64 where "BLOCK_OPS = 8"
definition DEVFS_DIR_OPS :: u64 where "DEVFS_DIR_OPS = 9"

definition no_ops :: "'s vfs_ops" where
  "no_ops = \<lparr>ops_read = None, ops_write = None, ops_open = None, ops_close = None,
     ops_readdir = None, ops_finddir = None, ops_mkdir = None, ops_create = None\<rparr>"

text \<open>A message on the console.\<close>

definition dev_print :: "u64 \<Rightarrow> string \<Rightarrow> va_val list \<Rightarrow> 'a devfs_scheme \<Rightarrow> 'a devfs_scheme option" where
  "dev_print now fmt as s = do {
     (k, c) \<leftarrow> kprintf now fmt as (dev_console s);
     Some (s\<lparr>dev_console := c\<rparr>) }"

definition devfs_make_node :: "string \<Rightarrow> u32 \<Rightarrow> u64 \<Rightarrow> u64 option \<Rightarrow> 'a devfs_scheme \<Rightarrow> (u64 option \<times> 'a devfs_scheme) option" where
  "devfs_make_node name flags ops impl s = do {
     (np, h1) \<leftarrow> kmalloc SIZEOF_VFS_NODE (rheap s);
     (case np of
        None \<Rightarrow> Some (None, s\<lparr>rheap := h1\<rparr>)
      | Some n \<Rightarrow> Some (Some n, s\<lparr>rheap := h1, nodes := (nodes s)(n \<mapsto> zero_node\<lparr>nname := take 127 name,
          nflags := flags, nmask := FS_PERM_R OR FS_PERM_W, nops := Some ops, nimpl := impl\<rparr>)\<rparr>)) }"

section \<open>Null and zero\<close>

definition null_read :: "u64 \<Rightarrow> u64 \<Rightarrow> u64 \<Rightarrow> 's \<Rightarrow> (u64 \<times> u8 list \<times> 's) option" where
  "null_read n off sz s = Some (0, [], s)"

definition null_write :: "u64 \<Rightarrow> u64 \<Rightarrow> u8 list \<Rightarrow> 's \<Rightarrow> (u64 \<times> 's) option" where
  "null_write n off buf s = Some (of_nat (length buf), s)"

definition null_ops :: "'s vfs_ops" where
  "null_ops = no_ops\<lparr>ops_read := Some null_read, ops_write := Some null_write\<rparr>"

definition zero_read :: "u64 \<Rightarrow> u64 \<Rightarrow> u64 \<Rightarrow> 's \<Rightarrow> (u64 \<times> u8 list \<times> 's) option" where
  "zero_read n off sz s = Some (sz, replicate (unat sz) 0, s)"

definition zero_write :: "u64 \<Rightarrow> u64 \<Rightarrow> u8 list \<Rightarrow> 's \<Rightarrow> (u64 \<times> 's) option" where
  "zero_write n off buf s = Some (of_nat (length buf), s)"

definition zero_ops :: "'s vfs_ops" where
  "zero_ops = no_ops\<lparr>ops_read := Some zero_read, ops_write := Some zero_write\<rparr>"

section \<open>The terminal device\<close>

primrec put_bytes :: "u64 \<Rightarrow> u8 list \<Rightarrow> console \<Rightarrow> console option" where
  "put_bytes now [] c = Some c"
| "put_bytes now (x # xs) c = do { c1 \<leftarrow> kputchar now (char_of (unat x)) c; put_bytes now xs c1 }"

definition tty0_write :: "u64 \<Rightarrow> u64 \<Rightarrow> u64 \<Rightarrow> u8 list \<Rightarrow> 'a devfs_scheme \<Rightarrow> (u64 \<times> 'a devfs_scheme) option" where
  "tty0_write now n off buf s = do {
     c \<leftarrow> put_bytes now buf (dev_console s);
     Some (of_nat (length buf), s\<lparr>dev_console := c\<rparr>) }"

text \<open>
  What one event does to the line typed so far: the new line, the format and arguments of the echo, and whether the line is complete.
\<close>

definition tty_key :: "input_event \<Rightarrow> u8 list \<Rightarrow> u8 list \<times> (string \<times> va_val list) option \<times> bool" where
  "tty_key ev filled =
     (if ev_type ev = INPUT_EVENT_KEY_PRESS \<and> ascii ev \<noteq> 0 then
        if ascii ev = 8 \<or> ascii ev = KEY_DELETE then
          if filled \<noteq> [] then (butlast filled, Some ([CHR 0x08, CHR '' '', CHR 0x08], []), False) else (filled, None, False)
        else if ascii ev = 10 then (filled @ [10], Some ([CHR 0x0A], []), True)
        else if 32 \<le> ascii ev \<and> ascii ev \<le> 126 then (filled @ [ascii ev], Some (''%c'', [Arg_int (ucast (ascii ev))]), False)
        else (filled, None, False)
      else (filled, None, False))"

definition tty_echo :: "u64 \<Rightarrow> (string \<times> va_val list) option \<Rightarrow> console \<Rightarrow> console option" where
  "tty_echo now e c = (case e of None \<Rightarrow> Some c | Some (fmt, as) \<Rightarrow> map_option snd (kprintf now fmt as c))"

partial_function (option) tty0_loop :: "('a devfs_scheme \<Rightarrow> 'a devfs_scheme option) \<Rightarrow> u64 \<Rightarrow> u64 \<Rightarrow> u8 list \<Rightarrow>
    'a devfs_scheme \<Rightarrow> (u8 list \<times> 'a devfs_scheme) option" where
  "tty0_loop others now sz filled s =
     (if length filled < unat sz then
        Option.bind (input_poll_event (dev_input s)) (\<lambda>(ev, i1).
          let s1 = s\<lparr>dev_input := i1\<rparr> in
          case ev of
            None \<Rightarrow> Option.bind (others s1) (tty0_loop others now sz filled)
          | Some e \<Rightarrow> (case tty_key e filled of (filled1, echo, finished) \<Rightarrow>
              Option.bind (tty_echo now echo (dev_console s1)) (\<lambda>c.
                if finished then Some (filled1, s1\<lparr>dev_console := c\<rparr>)
                else tty0_loop others now sz filled1 (s1\<lparr>dev_console := c\<rparr>))))
      else Some (filled, s))"

declare tty0_loop.simps [code]

definition tty0_read :: "('a devfs_scheme \<Rightarrow> 'a devfs_scheme option) \<Rightarrow> u64 \<Rightarrow> u64 \<Rightarrow> u64 \<Rightarrow> u64 \<Rightarrow> 'a devfs_scheme \<Rightarrow>
    (u64 \<times> u8 list \<times> 'a devfs_scheme) option" where
  "tty0_read others now n off sz s = do {
     (filled, s1) \<leftarrow> tty0_loop others now sz [] s;
     Some (of_nat (length filled), filled, s1) }"

definition tty0_ops :: "('a devfs_scheme \<Rightarrow> 'a devfs_scheme option) \<Rightarrow> u64 \<Rightarrow> 'a devfs_scheme vfs_ops" where
  "tty0_ops others now = no_ops\<lparr>ops_read := Some (tty0_read others now), ops_write := Some (tty0_write now)\<rparr>"

section \<open>Block devices\<close>

text \<open>The count of sectors is cut to 8 bits, and the sectors are stored whole into a buffer of \<open>sz\<close> bytes.\<close>

definition block_read :: "u64 \<Rightarrow> u64 \<Rightarrow> u64 \<Rightarrow> 'a devfs_scheme \<Rightarrow> (u64 \<times> u8 list \<times> 'a devfs_scheme) option" where
  "block_read n off sz s = do {
     nd \<leftarrow> nodes s n;
     (case nimpl nd of
        None \<Rightarrow> Some (0, [], s)
      | Some q \<Rightarrow> do {
          impl \<leftarrow> blk_impls s q;
          d \<leftarrow> drives s (bl_drive impl);
          if \<not> present d then Some (0, [], s)
          else if sz = 0 then Some (0, [], s)
          else do {
            let lba = bl_lba_start impl + off div 512;
            let count = (ucast ((sz + 511) div 512) :: u8);
            if bl_size_sectors impl < (lba - bl_lba_start impl) + ucast count then Some (0, [], s)
            else do {
              r0 \<leftarrow> disk_read_sectors (bl_drive impl) lba count s;
              r \<leftarrow> read_into True (unat sz) r0;
              (case r of None \<Rightarrow> Some (0, [], s) | Some b \<Rightarrow> Some (sz, b, s)) } } }) }"

definition block_write :: "u64 \<Rightarrow> u64 \<Rightarrow> u8 list \<Rightarrow> 's \<Rightarrow> (u64 \<times> 's) option" where
  "block_write n off buf s = Some (0, s)"

definition block_ops :: "'a devfs_scheme vfs_ops" where
  "block_ops = no_ops\<lparr>ops_read := Some block_read, ops_write := Some block_write\<rparr>"

section \<open>The directory\<close>

text \<open>The index is compared as a signed number.\<close>

definition devfs_readdir :: "u64 \<Rightarrow> u32 \<Rightarrow> 'a devfs_scheme \<Rightarrow> (dirent option \<times> 'a devfs_scheme) option" where
  "devfs_readdir node index s =
     (if int (length (devfs_nodes s)) \<le> sint index then Some (None, s)
      else do {
        (name, child) \<leftarrow> rd (devfs_nodes s) (unat index);
        c \<leftarrow> nodes s child;
        Some (Some \<lparr>d_name = nname c, d_ino = ninode c, d_type = nflags c\<rparr>, s) })"

definition devfs_finddir :: "u64 \<Rightarrow> string \<Rightarrow> 'a devfs_scheme \<Rightarrow> (u64 option \<times> 'a devfs_scheme) option" where
  "devfs_finddir node name s = Some (map_of (devfs_nodes s) name, s)"

definition devfs_dir_ops :: "'a devfs_scheme vfs_ops" where
  "devfs_dir_ops = no_ops\<lparr>ops_readdir := Some devfs_readdir, ops_finddir := Some devfs_finddir\<rparr>"

definition devfs_append :: "string \<Rightarrow> u64 \<Rightarrow> 'a devfs_scheme \<Rightarrow> 'a devfs_scheme" where
  "devfs_append name vnode s =
     (if DEVFS_MAX_NODES \<le> length (devfs_nodes s) then s
      else s\<lparr>devfs_nodes := devfs_nodes s @ [(take 31 name, vnode)]\<rparr>)"

text \<open>One of the standard devices of \<open>devfs_init\<close>: the node and its entry, if there is memory for it.\<close>

definition devfs_standard :: "string \<Rightarrow> u32 \<Rightarrow> u64 \<Rightarrow> 'a devfs_scheme \<Rightarrow> 'a devfs_scheme option" where
  "devfs_standard name flags ops s = do {
     (np, s1) \<leftarrow> devfs_make_node name flags ops None s;
     Some (case np of None \<Rightarrow> s1 | Some n \<Rightarrow> devfs_append name n s1) }"

definition devfs_init :: "'a devfs_scheme tables \<Rightarrow> u64 \<Rightarrow> 'a devfs_scheme \<Rightarrow> 'a devfs_scheme option" where
  "devfs_init tabs now s = do {
     (rp, h1) \<leftarrow> kmalloc SIZEOF_VFS_NODE (rheap s);
     let s0 = s\<lparr>rheap := h1, devfs_root := rp\<rparr>;
     (case rp of
        None \<Rightarrow> Some s0
      | Some root \<Rightarrow> do {
          let s1 = s0\<lparr>nodes := (nodes s0)(root \<mapsto> zero_node\<lparr>nname := ''dev'', nflags := FS_DIRECTORY,
            nmask := FS_PERM_R OR FS_PERM_W OR FS_PERM_X, nops := Some DEVFS_DIR_OPS\<rparr>)\<rparr>;
          s2 \<leftarrow> devfs_standard ''null'' FS_FILE NULL_OPS s1;
          s3 \<leftarrow> devfs_standard ''zero'' FS_FILE ZERO_OPS s2;
          s4 \<leftarrow> devfs_standard ''tty0'' FS_CHARDEVICE TTY0_OPS s3;
          (r, s5) \<leftarrow> vfs_mount tabs (Some ''/dev'') rp s4;
          if r \<noteq> 0 then dev_print now (''[DevFS] ERROR: vfs_mount('' @ [CHR 0x22] @ ''/dev'' @ [CHR 0x22] @ '') failed'' @ [CHR 0x0A]) [] s5
          else do {
            s6 \<leftarrow> dev_print now ''[DevFS] '' [] (s5\<lparr>devfs_ready := True\<rparr>);
            dev_print now (''Mounted at /dev (null, zero, tty0 ready)'' @ [CHR 0x0A]) [] s6 } }) }"

definition devfs_register_block :: "u64 \<Rightarrow> string \<Rightarrow> u64 \<Rightarrow> u64 \<Rightarrow> u64 \<Rightarrow> 'a devfs_scheme \<Rightarrow> 'a devfs_scheme option" where
  "devfs_register_block now name drive lba nsectors s =
     (if \<not> devfs_ready s \<or> DEVFS_MAX_NODES \<le> length (devfs_nodes s) then Some s
      else do {
        (ip, h1) \<leftarrow> kmalloc SIZEOF_BLOCK_IMPL (rheap s);
        let s1 = s\<lparr>rheap := h1\<rparr>;
        (case ip of
           None \<Rightarrow> Some s1
         | Some impl \<Rightarrow> do {
             let s2 = s1\<lparr>blk_impls := (blk_impls s1)(impl \<mapsto> \<lparr>bl_drive = drive, bl_lba_start = lba, bl_size_sectors = nsectors\<rparr>)\<rparr>;
             (bp, s3) \<leftarrow> devfs_make_node name FS_BLOCKDEVICE BLOCK_OPS ip s2;
             (case bp of
                None \<Rightarrow> do { h4 \<leftarrow> kfree ip (rheap s3); Some (s3\<lparr>rheap := h4\<rparr>) }
              | Some bnode \<Rightarrow> do {
                  bn \<leftarrow> nodes s3 bnode;
                  let s4 = s3\<lparr>nodes := (nodes s3)(bnode \<mapsto> bn\<lparr>nlength := nsectors * 512\<rparr>)\<rparr>;
                  s5 \<leftarrow> dev_print now ''[DevFS] '' [] (devfs_append name bnode s4);
                  dev_print now (''/dev/%s registered (%llu sectors)'' @ [CHR 0x0A]) [Arg_str (Some name), Arg_long nsectors] s5 }) }) })"

section \<open>Reading a line\<close>

lemma echo_formats:
  "vsnprintf 1024 [CHR 0x08, CHR '' '', CHR 0x08] [] = Some [CHR 0x08, CHR '' '', CHR 0x08]"
  "vsnprintf 1024 [CHR 0x0A] [] = Some [CHR 0x0A]"
  "vsnprintf 1024 ''%c'' [Arg_int x] = Some [char_of (unat x)]"
  by (simp_all add: vsnprintf_def vsn_loop.simps VSNPRINTF_APPEND_def parse_spec_def parse_flag_def parse_len_def vsn_conv_def Let_def)

text \<open>The echo of any key is plain text.\<close>

lemma tty_echo_ok:
  assumes "con_ok c" "tty_key e f = (f1, echo, fin)"
  shows "\<exists>c'. tty_echo now echo c = Some c' \<and> con_ok c'"
proof (cases echo)
  case None
  then show ?thesis using assms(1) by (simp add: tty_echo_def)
next
  case (Some fa)
  then obtain fmt as where fa: "echo = Some (fmt, as)" by (cases fa) auto
  have "\<exists>buf. vsnprintf 1024 fmt as = Some buf \<and> CHR 0x1B \<notin> set buf"
  proof -
    consider "fmt = [CHR 0x08, CHR '' '', CHR 0x08]" "as = []" | "fmt = [CHR 0x0A]" "as = []"
      | "fmt = ''%c''" "as = [Arg_int (ucast (ascii e))]" "32 \<le> ascii e"
      using assms(2) fa unfolding tty_key_def by (auto split: if_splits)
    then show ?thesis
    proof cases
      case 3
      have "char_of (unat (ucast (ascii e) :: u32)) \<noteq> CHR 0x1B"
      proof
        assume "char_of (unat (ucast (ascii e) :: u32)) = CHR 0x1B"
        moreover have "unat (ucast (ascii e) :: u32) = unat (ascii e)"
          by (simp add: unsigned_ucast_eq take_bit_nat_eq_self order_less_le_trans[OF unsigned_less])
        moreover have "unat (ascii e) < 256" using unsigned_less[of "ascii e"] by simp
        ultimately have "unat (ascii e) = of_char (CHR 0x1B)" by (metis char_of_mod_256 mod_less of_char_of)
        then show False using 3(3) by (simp add: word_le_nat_alt)
      qed
      then show ?thesis using 3 by (simp add: echo_formats)
    qed (simp_all add: echo_formats)
  qed
  then obtain buf where "vsnprintf 1024 fmt as = Some buf" "CHR 0x1B \<notin> set buf" by blast
  from kprintf_plain[OF assms(1) this, of now] obtain c' where "kprintf now fmt as c = Some (length buf, c')" "con_ok c'"
    by blast
  then show ?thesis using fa by (simp add: tty_echo_def)
qed

definition tty_ok :: "'a devfs_scheme \<Rightarrow> bool" where
  "tty_ok s \<longleftrightarrow> con_ok (dev_console s) \<and> inq_inv (dev_input s) \<and> lock (slock (input_cpu (dev_input s))) = 0"

lemma tty0_loop_step:
  assumes "tty_ok s" "pending (dev_input s) = e # es" "length f < unat sz" "tty_key e f = (f1, echo, fin)"
  shows "\<exists>s'. tty_ok s' \<and> pending (dev_input s') = es \<and>
    tty0_loop others now sz f s = (if fin then Some (f1, s') else tty0_loop others now sz f1 s')"
proof -
  obtain i where i: "input_poll_event (dev_input s) = Some (Some e, i)" "inq_inv i" "pending i = es" "lock (slock (input_cpu i)) = 0"
    using input_poll_pending[OF _ _ assms(2)] assms(1) by (auto simp: tty_ok_def)
  obtain c where c: "tty_echo now echo (dev_console s) = Some c" "con_ok c"
    using tty_echo_ok[OF _ assms(4)] assms(1) by (auto simp: tty_ok_def)
  let ?s = "s\<lparr>dev_input := i, dev_console := c\<rparr>"
  have "tty0_loop others now sz f s = (if fin then Some (f1, ?s) else tty0_loop others now sz f1 ?s)"
    using assms(3,4) i(1) c(1) by (subst tty0_loop.simps) simp
  moreover have "tty_ok ?s" "pending (dev_input ?s) = es" using i c by (simp_all add: tty_ok_def)
  ultimately show ?thesis by blast
qed

text \<open>The keys of a printable character add it to the line.\<close>

lemma tty_char_keys:
  assumes "c \<in> set printable"
  obtains e1 e2 echo where "char_events c = [e1, e2]" "\<And>f. tty_key e1 f = (f @ [c], echo, False)" "\<And>f. tty_key e2 f = (f, None, False)"
proof -
  obtain shift sc where k: "key_of c = (shift, sc)" by force
  have c: "c \<noteq> 0" "c \<noteq> 8" "c \<noteq> KEY_DELETE" "c \<noteq> 10" "32 \<le> c" "c \<le> 126"
  proof -
    obtain n where n: "c = of_nat n" "32 \<le> n" "n < 127" 
      using assms unfolding printable_def set_map set_upt image_iff by (metis atLeastLessThan_iff)
    have "unat c = n" using n by (simp add: unsigned_of_nat take_bit_nat_eq_self)
    then show "c \<noteq> 0" "c \<noteq> 8" "c \<noteq> KEY_DELETE" "c \<noteq> 10" "32 \<le> c" "c \<le> 126"
      using n by (auto simp: KEY_DELETE_def word_le_nat_alt)
  qed
  show thesis
    by (rule that[of "char_events c ! 0" "char_events c ! 1" "Some (''%c'', [Arg_int (ucast c)])"])
      (use c in \<open>simp_all add: char_events_def k Let_def tty_key_def zero_event_def
         INPUT_EVENT_KEY_PRESS_def INPUT_EVENT_KEY_RELEASE_def\<close>)
qed

lemma tty0_loop_text:
  "tty_ok s \<Longrightarrow> pending (dev_input s) = concat (map char_events cs) @ es \<Longrightarrow> set cs \<subseteq> set printable \<Longrightarrow>
   length f + length cs < unat sz \<Longrightarrow>
   \<exists>s'. tty_ok s' \<and> pending (dev_input s') = es \<and> tty0_loop others now sz f s = tty0_loop others now sz (f @ cs) s'"
proof (induction cs arbitrary: f s)
  case Nil
  then show ?case by auto
next
  case (Cons c cs)
  obtain e1 e2 echo where e: "char_events c = [e1, e2]" "\<And>f. tty_key e1 f = (f @ [c], echo, False)" "\<And>f. tty_key e2 f = (f, None, False)"
    using tty_char_keys[of c] Cons.prems(3) by auto
  have p: "pending (dev_input s) = e1 # e2 # concat (map char_events cs) @ es" using Cons.prems(2) e(1) by simp
  obtain s1 where s1: "tty_ok s1" "pending (dev_input s1) = e2 # concat (map char_events cs) @ es"
      "tty0_loop others now sz f s = tty0_loop others now sz (f @ [c]) s1"
    using tty0_loop_step[OF Cons.prems(1) p _ e(2)[of f], of sz others now] Cons.prems(4) by auto
  obtain s2 where s2: "tty_ok s2" "pending (dev_input s2) = concat (map char_events cs) @ es"
      "tty0_loop others now sz (f @ [c]) s1 = tty0_loop others now sz (f @ [c]) s2"
    using tty0_loop_step[OF s1(1,2) _ e(3)[of "f @ [c]"], of sz others now] Cons.prems(4) by auto
  show ?case using Cons.IH[OF s2(1,2), of "f @ [c]"] s1(3) s2(3) Cons.prems(3,4) by auto
qed

text \<open>The bytes of a line: the keys of its characters and the enter key.\<close>

definition type_line :: "u8 list \<Rightarrow> u8 list" where
  "type_line cs = concat (map type_char cs) @ [0x5A, 0xF0, 0x5A]"

definition enter_press :: input_event where
  "enter_press = zero_event\<lparr>scancode := 0x5A, ev_modifiers := 0, ev_type := INPUT_EVENT_KEY_PRESS, ascii := 10\<rparr>"

definition enter_release :: input_event where
  "enter_release = zero_event\<lparr>scancode := 0x5A, ev_modifiers := 0, ev_type := INPUT_EVENT_KEY_RELEASE\<rparr>"

lemma enter_key: "plain_key 0x5A" "key_char 0x5A False 0 = Some 10"
  by code_simp+

lemma char_events_length: "length (concat (map char_events cs)) = 2 * length cs"
  by (induction cs) (simp_all add: char_events_def split_def Let_def)

lemma kbd_line:
  assumes "kbd_idle 0 i" "pending i = []" "set cs \<subseteq> set printable" "length cs \<le> 126"
  obtains i' where "kbd_bytes (type_line cs) i = Some i'" "kbd_idle 0 i'" "input_cpu i' = input_cpu i"
    "pending i' = concat (map char_events cs) @ [enter_press, enter_release]"
proof -
  obtain i1 where i1: "kbd_bytes (concat (map type_char cs)) i = Some i1" "kbd_idle 0 i1"
      "pending i1 = last_n 255 (concat (map char_events cs))"
    using kbd_text[OF assms(1,3)] assms(2) by auto
  obtain i2 where i2: "kbd_bytes [0x5A, 0xF0, 0x5A] i1 = Some i2" "kbd_idle 0 i2"
      "pending i2 = last_n 255 (pending i1 @ [enter_press, enter_release])"
    using kbd_stroke[OF i1(2) enter_key] unfolding enter_press_def enter_release_def by blast
  have b: "kbd_bytes (type_line cs) i = Some i2"
    unfolding type_line_def kbd_bytes_append i1(1) by (simp only: Option.bind.bind_lunit i2(1))
  have p: "pending i2 = concat (map char_events cs) @ [enter_press, enter_release]"
    unfolding i2(3) i1(3) last_n_def using char_events_length[of cs] assms(4) by simp
  show thesis by (rule that[OF b i2(2) kbd_bytes_cpu[OF b] p])
qed

lemma tty0_read_line:
  assumes "tty_ok s" "pending (dev_input s) = concat (map char_events cs) @ enter_press # es" "set cs \<subseteq> set printable"
    "length cs < unat sz"
  shows "\<exists>s'. tty0_read others now n off sz s = Some (of_nat (length cs + 1), cs @ [10], s') \<and> tty_ok s' \<and> pending (dev_input s') = es"
proof -
  obtain s1 where s1: "tty_ok s1" "pending (dev_input s1) = enter_press # es"
      "tty0_loop others now sz [] s = tty0_loop others now sz cs s1"
    using tty0_loop_text[OF assms(1-3), of "[]" sz others now] assms(4) by auto
  have "tty_key enter_press cs = (cs @ [10], Some ([CHR 0x0A], []), True)"
    by (simp add: tty_key_def enter_press_def KEY_DELETE_def)
  from tty0_loop_step[OF s1(1,2) assms(4) this, of others now] obtain s2 where
    "tty_ok s2" "pending (dev_input s2) = es" "tty0_loop others now sz cs s1 = Some (cs @ [10], s2)" by auto
  then show ?thesis using s1(3) by (simp add: tty0_read_def)
qed

text \<open>A kernel with one terminal device, an idle keyboard and an empty log.\<close>

definition demo_dev :: devfs where
  "demo_dev = ntfs.extend (ext4.extend (demo_e4\<lparr>nodes := [5 \<mapsto> zero_node\<lparr>nops := Some TTY0_OPS\<rparr>]\<rparr>)
       (ntfs.fields (\<lambda>_. None) (\<lambda>_. None)))
     (devfs.fields [(''tty0'', 5)] True None (\<lambda>_. None)
       \<lparr>main_terminal = demo_term, display_mode = DISPLAY_MODE_TERMINAL,
        kernel_log = \<lparr>klog_buffer = replicate KLOG_BUFFER_SIZE (CHR 0x00), klog_head = 0, klog_wrapped = False, klog_active = True\<rparr>\<rparr>
       (demo_input\<lparr>queue_tail := 0\<rparr>))"

lemma demo_dev_input: "dev_input demo_dev = demo_input\<lparr>queue_tail := 0\<rparr>"
  by (simp add: demo_dev_def ntfs.defs devfs.defs)

lemma demo_dev_ready: "tty_ok demo_dev" "kbd_idle 0 (dev_input demo_dev)" "pending (dev_input demo_dev) = []"
proof -
  have i: "inq_inv (dev_input demo_dev)" "lock (slock (input_cpu (dev_input demo_dev))) = 0" "pending (dev_input demo_dev) = []"
    by (simp_all add: demo_dev_input inq_inv_def demo_input_def INPUT_QUEUE_SIZE_def pending_def ring_list_def ring_count_def)
  have "con_ok (dev_console demo_dev)"
    using demo_term_wf by (simp add: demo_dev_def ntfs.defs devfs.defs con_ok_def klog_wf_def KLOG_BUFFER_SIZE_def demo_term_def)
  then show "tty_ok demo_dev" using i by (simp add: tty_ok_def)
  show "kbd_idle 0 (dev_input demo_dev)" using i(1) by (simp add: kbd_idle_def demo_dev_input demo_input_def)
  show "pending (dev_input demo_dev) = []" by (rule i(3))
qed

end
