(* ===== verification/Partition.thy ===== *)
theory Partition
  imports Devfs
begin

text \<open>
  Partition tables: \<open>kernel/src/fs/partition.c\<close> reads the master boot record or the GPT of a drive, records the
  partitions it finds, mounts those with a known file system and registers all of them as block
  devices. This is where the file systems, the VFS and the device file system meet.
\<close>

section \<open>Probing\<close>

definition index_char :: "u8 \<Rightarrow> char" where
  "index_char i = char_of (49 + unat i)"

definition probe_fs :: "nat \<Rightarrow> disk_partition \<Rightarrow> 'a devfs_scheme \<Rightarrow> (u64 option \<times> 'a devfs_scheme) option" where
  "probe_fs pi part s =
     (if os_type part = 0x0B \<or> os_type part = 0x0C \<or> os_type part = 0x0E \<or> os_type part = 0xEF then fat32_mount pi s
      else if os_type part = 0x07 then ntfs_mount pi s
      else if os_type part = 0x83 then ext4_mount pi s
      else Some (None, s))"

definition vfs_probe_and_mount :: "'a devfs_scheme tables \<Rightarrow> u64 \<Rightarrow> nat \<Rightarrow> 'a devfs_scheme \<Rightarrow> 'a devfs_scheme option" where
  "vfs_probe_and_mount tabs now pi s = do {
     part \<leftarrow> rd (partitions s) pi;
     (fs_root, s1) \<leftarrow> probe_fs pi part s;
     d \<leftarrow> drives s1 (part_drive part);
     s3 \<leftarrow> (case fs_root of
        None \<Rightarrow> Some s1
      | Some root \<Rightarrow> do {
          let mount_path = ''/mnt/'' @ drive_name d @ [index_char (partition_index part)];
          if 31 < length mount_path then None
          else do {
            (r1, s2) \<leftarrow> vfs_mkdir tabs (Some mount_path) s1;
            (r2, s3) \<leftarrow> vfs_mount tabs (Some mount_path) fs_root s2;
            Some s3 } });
     let dev_name = take 3 (drive_name d) @ [index_char (partition_index part)];
     devfs_register_block now dev_name (part_drive part) (lba_start part) (size_sectors part) s3 }"

section \<open>The master boot record\<close>

record mbr_partition_entry =
  mbr_os_type :: u8
  mbr_lba_start :: u32
  mbr_size_in_sectors :: u32

definition mbr_entry :: "u8 list \<Rightarrow> nat \<Rightarrow> mbr_partition_entry option" where
  "mbr_entry sector i = do {
     t \<leftarrow> rd sector (0x1BE + 16 * i + 4);
     l \<leftarrow> le32 sector (0x1BE + 16 * i + 8);
     n \<leftarrow> le32 sector (0x1BE + 16 * i + 12);
     Some \<lparr>mbr_os_type = t, mbr_lba_start = l, mbr_size_in_sectors = n\<rparr> }"

text \<open>The loop over the entries from \<open>i\<close> on, with the number of partitions found.\<close>

primrec mbr_loop :: "'a devfs_scheme tables \<Rightarrow> u64 \<Rightarrow> u64 \<Rightarrow> u8 list \<Rightarrow> nat \<Rightarrow> nat \<Rightarrow> int \<Rightarrow> 'a devfs_scheme \<Rightarrow> (int \<times> 'a devfs_scheme) option" where
  "mbr_loop tabs now drive sector i 0 found s = Some (found, s)"
| "mbr_loop tabs now drive sector i (Suc n) found s = do {
     e \<leftarrow> mbr_entry sector i;
     if mbr_os_type e = 0 then mbr_loop tabs now drive sector (Suc i) n found s
     else if MAX_PARTITIONS \<le> length (partitions s) then Some (found, s)
     else do {
       let s1 = s\<lparr>partitions := partitions s @ [\<lparr>part_drive = drive, partition_index = of_nat i, os_type = mbr_os_type e,
         lba_start = ucast (mbr_lba_start e), size_sectors = ucast (mbr_size_in_sectors e)\<rparr>]\<rparr>;
       d \<leftarrow> drives s1 drive;
       s2 \<leftarrow> dev_print now ''[PART] '' [] s1;
       s3 \<leftarrow> dev_print now (''Drive %s, Part %d: TYPE=0x%02x, LBA=0x%lx, SIZE=%u'' @ [CHR 0x0A])
         [Arg_str (Some (drive_name d)), Arg_int (of_nat i), Arg_int (ucast (mbr_os_type e)), Arg_long (ucast (mbr_lba_start e)),
          Arg_int (mbr_size_in_sectors e)] s2;
       s4 \<leftarrow> vfs_probe_and_mount tabs now (length (partitions s)) s3;
       mbr_loop tabs now drive sector (Suc i) n (found + 1) s4 } }"

definition partition_parse_mbr :: "'a devfs_scheme tables \<Rightarrow> u64 \<Rightarrow> u64 option \<Rightarrow> 'a devfs_scheme \<Rightarrow> (int \<times> 'a devfs_scheme) option" where
  "partition_parse_mbr tabs now drive s = (case drive of
      None \<Rightarrow> Some (- 1, s)
    | Some d \<Rightarrow> do {
        dr \<leftarrow> drives s d;
        if \<not> present dr then Some (- 1, s)
        else do {
          (sp, h1) \<leftarrow> kmalloc 4096 (rheap s);
          p \<leftarrow> sp;
          let s1 = s\<lparr>rheap := h1\<rparr>;
          r0 \<leftarrow> disk_read_sectors d 0 1 s1;
          r \<leftarrow> read_into True 4096 r0;
          (case r of
             None \<Rightarrow> do { h2 \<leftarrow> kfree sp h1; Some (- 1, s1\<lparr>rheap := h2\<rparr>) }
           | Some b \<Rightarrow> do {
               let sector = b @ replicate (4096 - length b) 0;
               x \<leftarrow> rd sector 510;
               y \<leftarrow> rd sector 511;
               if x \<noteq> 0x55 \<or> y \<noteq> 0xAA then do {
                 s2 \<leftarrow> dev_print now (''       [PART] Warning: Invalid MBR signature on %s (0x%02x%02x)'' @ [CHR 0x0A])
                   [Arg_str (Some (drive_name dr)), Arg_int (ucast y), Arg_int (ucast x)] s1;
                 h2 \<leftarrow> kfree sp (rheap s2);
                 Some (0, s2\<lparr>rheap := h2\<rparr>) }
               else do {
                 (found, s2) \<leftarrow> mbr_loop tabs now d sector 0 4 0 s1;
                 h2 \<leftarrow> kfree sp (rheap s2);
                 Some (found, s2\<lparr>rheap := h2\<rparr>) } }) } })"

section \<open>The GUID partition table\<close>

definition EFI_PART :: "u8 list" where
  "EFI_PART = [0x45, 0x46, 0x49, 0x20, 0x50, 0x41, 0x52, 0x54]"

definition gpt_used :: "u8 list \<Rightarrow> nat \<Rightarrow> bool option" where
  "gpt_used b i = (if 128 * i + 16 \<le> length b then Some (\<exists>x \<in> set (take 16 (drop (128 * i) b)). x \<noteq> 0) else None)"

text \<open>The entries are taken to have 128 bytes, whatever size the header gives.\<close>

primrec gpt_loop :: "'a devfs_scheme tables \<Rightarrow> u64 \<Rightarrow> u64 \<Rightarrow> u8 list \<Rightarrow> nat \<Rightarrow> nat \<Rightarrow> int \<Rightarrow> 'a devfs_scheme \<Rightarrow> (int \<times> 'a devfs_scheme) option" where
  "gpt_loop tabs now drive b i 0 found s = Some (found, s)"
| "gpt_loop tabs now drive b i (Suc n) found s = do {
     used \<leftarrow> gpt_used b i;
     if \<not> used then gpt_loop tabs now drive b (Suc i) n found s
     else if MAX_PARTITIONS \<le> length (partitions s) then Some (found, s)
     else do {
       starting_lba \<leftarrow> le64 b (128 * i + 32);
       ending_lba \<leftarrow> le64 b (128 * i + 40);
       let s1 = s\<lparr>partitions := partitions s @ [\<lparr>part_drive = drive, partition_index = of_nat i, os_type = 0xEE,
         lba_start = starting_lba, size_sectors = ending_lba - starting_lba + 1\<rparr>]\<rparr>;
       d \<leftarrow> drives s1 drive;
       s2 \<leftarrow> dev_print now ''[PART] '' [] s1;
       s3 \<leftarrow> dev_print now (''Drive %s, Part %d: LBA=0x%lx, SIZE=%u'' @ [CHR 0x0A])
         [Arg_str (Some (drive_name d)), Arg_int (of_nat i), Arg_long starting_lba, Arg_int (ucast (ending_lba - starting_lba + 1))] s2;
       s4 \<leftarrow> vfs_probe_and_mount tabs now (length (partitions s)) s3;
       gpt_loop tabs now drive b (Suc i) n (found + 1) s4 } }"

definition partition_parse_gpt :: "'a devfs_scheme tables \<Rightarrow> u64 \<Rightarrow> u64 option \<Rightarrow> 'a devfs_scheme \<Rightarrow> (int \<times> 'a devfs_scheme) option" where
  "partition_parse_gpt tabs now drive s = (case drive of
      None \<Rightarrow> Some (- 1, s)
    | Some d \<Rightarrow> do {
        dr \<leftarrow> drives s d;
        if \<not> present dr then Some (- 1, s)
        else do {
          (sp, h1) \<leftarrow> kmalloc 512 (rheap s);
          r0 \<leftarrow> disk_read_sectors d 1 1 s;
          r \<leftarrow> read_into (sp \<noteq> None) 512 r0;
          h2 \<leftarrow> kfree sp h1;
          let s1 = s\<lparr>rheap := h2\<rparr>;
          (case r of
             None \<Rightarrow> Some (- 1, s1)
           | Some header \<Rightarrow>
               if take 8 header \<noteq> EFI_PART then Some (0, s1)
               else do {
                 count \<leftarrow> le32 header 80;
                 entry_size \<leftarrow> le32 header 84;
                 entry_lba \<leftarrow> le64 header 72;
                 (ep, h3) \<leftarrow> kmalloc 512 (rheap s1);
                 let s2 = s1\<lparr>rheap := h3\<rparr>;
                 e0 \<leftarrow> disk_read_sectors d entry_lba 1 s2;
                 e \<leftarrow> read_into (ep \<noteq> None) 512 e0;
                 (case e of
                    None \<Rightarrow> do { h4 \<leftarrow> kfree ep h3; Some (- 1, s2\<lparr>rheap := h4\<rparr>) }
                  | Some entries_buf \<Rightarrow>
                      if entry_size = 0 then None
                      else do {
                        (found, s3) \<leftarrow> gpt_loop tabs now d entries_buf 0 (min (512 div unat entry_size) (unat count)) 0 s2;
                        h4 \<leftarrow> kfree ep (rheap s3);
                        Some (found, s3\<lparr>rheap := h4\<rparr>) }) }) } })"

definition partition_get_list :: "'a devfs_scheme \<Rightarrow> disk_partition list \<times> nat" where
  "partition_get_list s = (partitions s, length (partitions s))"

text \<open>The dispatch of the VFS over all tables of the kernel.\<close>

definition kernel_tables :: "('a devfs_scheme \<Rightarrow> 'a devfs_scheme option) \<Rightarrow> u64 \<Rightarrow> 'a devfs_scheme tables" where
  "kernel_tables others now t =
     (if t = RAMFS_OPS then ramfs_ops else if t = FAT32_OPS then fat32_ops else if t = EXT4_OPS then ext4_ops
      else if t = NTFS_OPS then ntfs_ops else if t = NULL_OPS then null_ops else if t = ZERO_OPS then zero_ops
      else if t = TTY0_OPS then tty0_ops others now else if t = BLOCK_OPS then block_ops
      else if t = DEVFS_DIR_OPS then devfs_dir_ops else no_ops)"

end
