(* ===== verification/Shell.thy ===== *)
theory Shell
  imports Partition
begin

text \<open>
  The kernel shell: \<open>kernel/src/shell/shell_core.c\<close> with its path normalisation, tokenizer, command dispatch and line
  editor, and the commands of \<open>shell/cmds\<close> that work on files. The state adds the working directory and the
  history to the state of the file systems, the console and the input queue. The registered commands, which the linker
  collects, are the argument \<open>cmds\<close>. Output to the serial debug log is not modelled.
\<close>

section \<open>State\<close>

definition SHELL_MAX_LINE_LEN :: nat where "SHELL_MAX_LINE_LEN = 256"
definition SHELL_MAX_ARGS :: nat where "SHELL_MAX_ARGS = 16"
definition SHELL_MAX_HISTORY :: nat where "SHELL_MAX_HISTORY = 32"

record shell = devfs +
  shell_cwd :: string
  cwd_node :: "u64 option"
  shell_history :: "string list"
  history_count :: nat

record 's shell_command =
  cmd_name :: string
  usage_help :: string
  no_h_help :: bool
  handler :: "string list \<Rightarrow> 's \<Rightarrow> (int \<times> 's) option"

definition shell_get_cwd :: "'a shell_scheme \<Rightarrow> string" where
  "shell_get_cwd s = shell_cwd s"

definition shell_set_cwd :: "string \<Rightarrow> u64 option \<Rightarrow> 'a shell_scheme \<Rightarrow> 'a shell_scheme" where
  "shell_set_cwd path node s = s\<lparr>shell_cwd := take (SHELL_MAX_LINE_LEN - 1) path, cwd_node := node\<rparr>"

section \<open>Path normalisation\<close>

text \<open>The loop over the tokens of \<open>temp\<close>, with the stack of parts.\<close>

function norm_loop :: "string \<Rightarrow> string list \<Rightarrow> string list" where
  "norm_loop rest parts =
     (if rest = [] \<or> 32 \<le> length parts then parts
      else
        let token = takeWhile (\<lambda>c. c \<noteq> CHR ''/'') rest;
            after = dropWhile (\<lambda>c. c \<noteq> CHR ''/'') rest;
            parts1 = (if token = ''..'' then butlast parts
                      else if token \<noteq> ''.'' \<and> token \<noteq> [] then parts @ [token] else parts)
        in if after = [] then parts1 else norm_loop (tl after) parts1)"
  by pat_completeness auto
termination
proof (relation "measure (\<lambda>(rest, parts). length rest)", goal_cases)
  case (2 rest parts token after parts1)
  then have "length (dropWhile (\<lambda>c. c \<noteq> CHR ''/'') rest) \<le> length rest" "rest \<noteq> []" by (simp_all add: length_dropWhile_le)
  then show ?case using 2 by (cases "dropWhile (\<lambda>c. c \<noteq> CHR ''/'') rest") simp_all
qed simp

declare norm_loop.simps [simp del]

primrec join_parts :: "string list \<Rightarrow> string" where
  "join_parts [] = []"
| "join_parts (p # ps) = p @ (if ps = [] then [] else CHR ''/'' # join_parts ps)"

definition skip_slash :: "string \<Rightarrow> string" where
  "skip_slash t = (case t of [] \<Rightarrow> [] | c # cs \<Rightarrow> if c = CHR ''/'' then cs else t)"

text \<open>The buffers \<open>temp\<close> and \<open>output\<close> have \<open>SHELL_MAX_LINE_LEN\<close> bytes; only the copy of an absolute path is cut to fit.\<close>

definition shell_full_path :: "string \<Rightarrow> 'a shell_scheme \<Rightarrow> string option" where
  "shell_full_path input s =
     (if input \<noteq> [] \<and> hd input = CHR ''/'' then Some (take (SHELL_MAX_LINE_LEN - 1) input)
      else
        let temp = shell_cwd s @ (if shell_cwd s \<noteq> ''/'' then ''/'' else []) @ input
        in if length temp < SHELL_MAX_LINE_LEN then Some temp else None)"

definition shell_normalize_path :: "string \<Rightarrow> 'a shell_scheme \<Rightarrow> string option" where
  "shell_normalize_path input s = do {
     temp \<leftarrow> shell_full_path input s;
     let output = CHR ''/'' # join_parts (norm_loop (skip_slash temp) []);
     if length output < SHELL_MAX_LINE_LEN then Some output else None }"

section \<open>The tokenizer\<close>

text \<open>
  The arguments so far, the open quote, and the number of bytes written to the buffer \<open>out\<close>. An argument is
  the text from its pointer to the first zero byte; the bytes written behind the last pointer extend the last argument.
\<close>

record lexer =
  lx_args :: "string list"
  lx_quote :: "char option"
  lx_escaped :: bool
  lx_in_token :: bool
  lx_written :: nat

definition lex_start :: lexer where
  "lex_start = \<lparr>lx_args = [], lx_quote = None, lx_escaped = False, lx_in_token = False, lx_written = 0\<rparr>"

definition lex_open :: "lexer \<Rightarrow> lexer" where
  "lex_open l = (if lx_in_token l then l else l\<lparr>lx_args := lx_args l @ [[]], lx_in_token := True\<rparr>)"

definition lex_put :: "nat \<Rightarrow> char \<Rightarrow> lexer \<Rightarrow> lexer option" where
  "lex_put size1 c l =
     (if lx_written l < size1
      then Some (l\<lparr>lx_args := butlast (lx_args l) @ [last (lx_args l) @ [c]], lx_written := Suc (lx_written l)\<rparr>) else None)"

definition lex_nul :: "nat \<Rightarrow> lexer \<Rightarrow> lexer option" where
  "lex_nul size1 l = (if lx_written l < size1 then Some (l\<lparr>lx_in_token := False, lx_written := Suc (lx_written l)\<rparr>) else None)"

definition lex_close :: "nat \<Rightarrow> lexer \<Rightarrow> lexer option" where
  "lex_close size1 l = (if lx_in_token l then lex_nul size1 l else Some l)"

definition lex_redirect :: "nat \<Rightarrow> bool \<Rightarrow> lexer \<Rightarrow> lexer option" where
  "lex_redirect size1 twice l = do {
     l1 \<leftarrow> lex_close size1 l;
     l2 \<leftarrow> lex_put size1 (CHR ''>'') (l1\<lparr>lx_args := lx_args l1 @ [[]]\<rparr>);
     l3 \<leftarrow> (if twice then lex_put size1 (CHR ''>'') l2 else Some l2);
     lex_nul size1 l3 }"

function lex :: "nat \<Rightarrow> string \<Rightarrow> lexer \<Rightarrow> lexer option" where
  "lex size1 [] l = Some l"
| "lex size1 (c # cs) l =
     (if SHELL_MAX_ARGS \<le> length (lx_args l) then Some l
      else if lx_escaped l then do { l1 \<leftarrow> lex_put size1 c (lex_open l); lex size1 cs (l1\<lparr>lx_escaped := False\<rparr>) }
      else if c = CHR 0x5C \<and> lx_quote l \<noteq> Some (CHR 0x27) then lex size1 cs (l\<lparr>lx_escaped := True\<rparr>)
      else if lx_quote l \<noteq> None then
        if lx_quote l = Some c then lex size1 cs (l\<lparr>lx_quote := None\<rparr>)
        else do { l1 \<leftarrow> lex_put size1 c (lex_open l); lex size1 cs l1 }
      else if c = CHR 0x22 \<or> c = CHR 0x27 then lex size1 cs (lex_open (l\<lparr>lx_quote := Some c\<rparr>))
      else if c = CHR '' '' then do { l1 \<leftarrow> lex_close size1 l; lex size1 cs l1 }
      else if c = CHR ''>'' then
        if cs \<noteq> [] \<and> hd cs = CHR ''>'' then do { l1 \<leftarrow> lex_redirect size1 True l; lex size1 (tl cs) l1 }
        else do { l1 \<leftarrow> lex_redirect size1 False l; lex size1 cs l1 }
      else do { l1 \<leftarrow> lex_put size1 c (lex_open l); lex size1 cs l1 })"
  by pat_completeness auto
termination
  by (relation "measure (\<lambda>(size1, cs, l). length cs)") auto

declare lex.simps(2) [simp del]

definition shell_tokens :: "string \<Rightarrow> string list option" where
  "shell_tokens ln = do {
     l \<leftarrow> lex (length ln * 2 + 1) ln lex_start;
     if lx_in_token l \<and> length ln * 2 + 1 \<le> lx_written l then None else Some (lx_args l) }"

section \<open>Dispatch\<close>

definition run_command :: "u64 \<Rightarrow> 'a shell_scheme shell_command list \<Rightarrow> string list \<Rightarrow> 'a shell_scheme \<Rightarrow>
    (int \<times> 'a shell_scheme) option" where
  "run_command now cmds argv s = (case find (\<lambda>c. cmd_name c = hd argv) cmds of
      None \<Rightarrow> Some (- 1, s)
    | Some cmd \<Rightarrow>
        if length argv = 2 \<and> (argv ! 1 = ''--help'' \<or> \<not> no_h_help cmd \<and> argv ! 1 = ''-h'') then do {
          s1 \<leftarrow> dev_print now ([CHR 0x1B] @ ''[1;36mUsage:'' @ [CHR 0x1B] @ ''[0m %s [OPTIONS] [ARGS]'' @ [CHR 0x0A, CHR 0x0A])
            [Arg_str (Some (cmd_name cmd))] s;
          s2 \<leftarrow> dev_print now (''  %s'' @ [CHR 0x0A, CHR 0x0A]) [Arg_str (Some (usage_help cmd))] s1;
          Some (0, s2) }
        else handler cmd argv s)"

text \<open>The early return when one of the two buffers cannot be allocated keeps the other one.\<close>

definition shell_execute :: "u64 \<Rightarrow> 'a shell_scheme shell_command list \<Rightarrow> string \<Rightarrow> 'a shell_scheme \<Rightarrow>
    (int \<times> 'a shell_scheme) option" where
  "shell_execute now cmds ln s =
     (if ln = [] then Some (0, s)
      else do {
        (bp, h1) \<leftarrow> kmalloc (of_nat (length ln) + 1) (rheap s);
        (op, h2) \<leftarrow> kmalloc (of_nat (length ln) * 2 + 1) h1;
        let s1 = s\<lparr>rheap := h2\<rparr>;
        if bp = None \<or> op = None then Some (- 1, s1)
        else do {
          argv \<leftarrow> shell_tokens ln;
          if argv = [] then do {
            h3 \<leftarrow> kfree bp h2;
            h4 \<leftarrow> kfree op h3;
            Some (0, s1\<lparr>rheap := h4\<rparr>) }
          else do {
            (ret, s2) \<leftarrow> run_command now cmds argv s1;
            s3 \<leftarrow> (if ret = - 1 then dev_print now (''nexus: %s: command not found'' @ [CHR 0x0A]) [Arg_str (Some (hd argv))] s2
                   else Some s2);
            h3 \<leftarrow> kfree bp (rheap s3);
            h4 \<leftarrow> kfree op h3;
            Some (ret, s3\<lparr>rheap := h4\<rparr>) } } })"

section \<open>Commands\<close>

text \<open>A message followed by a result.\<close>

definition say :: "u64 \<Rightarrow> string \<Rightarrow> string list \<Rightarrow> int \<Rightarrow> 'a shell_scheme \<Rightarrow> (int \<times> 'a shell_scheme) option" where
  "say now fmt as r s = do { s1 \<leftarrow> dev_print now (fmt @ [CHR 0x0A]) (map (\<lambda>a. Arg_str (Some a)) as) s; Some (r, s1) }"

definition cmd_pwd :: "u64 \<Rightarrow> string list \<Rightarrow> 'a shell_scheme \<Rightarrow> (int \<times> 'a shell_scheme) option" where
  "cmd_pwd now argv s = say now ''%s'' [shell_get_cwd s] 0 s"

definition cmd_clear :: "u64 \<Rightarrow> string list \<Rightarrow> 'a shell_scheme \<Rightarrow> (int \<times> 'a shell_scheme) option" where
  "cmd_clear now argv s = do {
     s1 \<leftarrow> dev_print now ([CHR 0x1B] @ ''[2J'' @ [CHR 0x1B] @ ''[H'') [] s;
     Some (0, s1) }"

definition cmd_cd :: "'a shell_scheme tables \<Rightarrow> u64 \<Rightarrow> string list \<Rightarrow> 'a shell_scheme \<Rightarrow> (int \<times> 'a shell_scheme) option" where
  "cmd_cd tabs now argv s =
     (if length argv < 2 then Some (0, s)
      else do {
        path \<leftarrow> shell_normalize_path (argv ! 1) s;
        (node, s1) \<leftarrow> vfs_resolve_path tabs (Some path) s;
        (case node of
           None \<Rightarrow> say now ''cd: %s: No such directory'' [path] 1 s1
         | Some p \<Rightarrow> do {
             n \<leftarrow> nodes s1 p;
             if nflags n AND FS_DIRECTORY = 0 then say now ''cd: %s: Not a directory'' [path] 1 s1
             else Some (0, shell_set_cwd path node s1) }) })"

definition cmd_mkdir :: "'a shell_scheme tables \<Rightarrow> u64 \<Rightarrow> string list \<Rightarrow> 'a shell_scheme \<Rightarrow> (int \<times> 'a shell_scheme) option" where
  "cmd_mkdir tabs now argv s =
     (if length argv < 2 then say now ''Usage: mkdir <path>'' [] 1 s
      else do {
        path \<leftarrow> shell_normalize_path (argv ! 1) s;
        (ret, s1) \<leftarrow> vfs_mkdir tabs (Some path) s;
        if ret \<noteq> 0 then say now ''mkdir: %s: cannot create directory'' [path] 1 s1 else Some (0, s1) })"

definition cmd_touch :: "'a shell_scheme tables \<Rightarrow> u64 \<Rightarrow> string list \<Rightarrow> 'a shell_scheme \<Rightarrow> (int \<times> 'a shell_scheme) option" where
  "cmd_touch tabs now argv s =
     (if length argv < 2 then say now ''Usage: touch <file>'' [] 1 s
      else do {
        path \<leftarrow> shell_normalize_path (argv ! 1) s;
        (existing, s1) \<leftarrow> vfs_resolve_path tabs (Some path) s;
        if existing \<noteq> None then Some (0, s1)
        else do {
          (node, s2) \<leftarrow> vfs_create tabs (Some path) s1;
          if node = None then say now ''touch: %s: cannot create file'' [path] 1 s2 else Some (0, s2) } })"

text \<open>The buffer has one byte more than the length of the node; bytes that the read did not store are not initialised.\<close>

definition cmd_cat :: "'a shell_scheme tables \<Rightarrow> u64 \<Rightarrow> string list \<Rightarrow> 'a shell_scheme \<Rightarrow> (int \<times> 'a shell_scheme) option" where
  "cmd_cat tabs now argv s =
     (if length argv < 2 then say now ''Usage: cat <file>'' [] 1 s
      else do {
        path \<leftarrow> shell_normalize_path (argv ! 1) s;
        (node, s1) \<leftarrow> vfs_resolve_path tabs (Some path) s;
        (case node of
           None \<Rightarrow> say now ''cat: %s: No such file'' [path] 1 s1
         | Some p \<Rightarrow> do {
             n \<leftarrow> nodes s1 p;
             if nflags n AND FS_FILE = 0 then say now ''cat: %s: Is a directory'' [argv ! 1] 1 s1
             else do {
               (bp, h1) \<leftarrow> kmalloc (nlength n + 1) (rheap s1);
               if bp = None then say now ''cat: out of memory'' [] 1 (s1\<lparr>rheap := h1\<rparr>)
               else do {
                 (nread, bs, s2) \<leftarrow> vfs_read tabs node 0 (nlength n) (s1\<lparr>rheap := h1\<rparr>);
                 if unat nread \<le> length bs \<and> length bs \<le> unat (nlength n) then do {
                   (r, s3) \<leftarrow> say now ''%s'' [c_string (take (unat nread) bs)] 0 s2;
                   h2 \<leftarrow> kfree bp (rheap s3);
                   Some (0, s3\<lparr>rheap := h2\<rparr>) }
                 else None } } }) })"

definition ls_entry :: "u64 \<Rightarrow> dirent \<Rightarrow> 'a shell_scheme \<Rightarrow> 'a shell_scheme option" where
  "ls_entry now de s =
     (let quote1 = (if CHR '' '' \<in> set (d_name de) then [CHR 0x22] else []);
          colour = (if d_type de AND FS_DIRECTORY \<noteq> 0 then ''[1;34m'' else ''[1;32m'')
      in dev_print now ([CHR 0x1B] @ colour @ ''%s%s%s'' @ [CHR 0x1B] @ ''[0m'')
           [Arg_str (Some quote1), Arg_str (Some (d_name de)), Arg_str (Some quote1)] s)"

partial_function (option) ls_loop :: "'a shell_scheme tables \<Rightarrow> u64 \<Rightarrow> u64 option \<Rightarrow> u32 \<Rightarrow> bool \<Rightarrow> 'a shell_scheme \<Rightarrow> 'a shell_scheme option" where
  "ls_loop tabs now node i first s =
     Option.bind (vfs_readdir tabs node i s) (\<lambda>(de, s1).
       case de of
         None \<Rightarrow> Some s1
       | Some d \<Rightarrow>
           Option.bind (if first then Some s1 else dev_print now ''  '' [] s1) (\<lambda>s2.
             Option.bind (ls_entry now d s2) (ls_loop tabs now node (i + 1) False)))"

declare ls_loop.simps [code]

definition cmd_ls :: "'a shell_scheme tables \<Rightarrow> u64 \<Rightarrow> string list \<Rightarrow> 'a shell_scheme \<Rightarrow> (int \<times> 'a shell_scheme) option" where
  "cmd_ls tabs now argv s = do {
     path \<leftarrow> (if 1 < length argv then shell_normalize_path (argv ! 1) s else Some (shell_get_cwd s));
     (node, s1) \<leftarrow> vfs_resolve_path tabs (Some path) s;
     (case node of
        None \<Rightarrow> say now ([CHR 0x1B] @ ''[1;31mls: %s: No such file or directory'' @ [CHR 0x1B] @ ''[0m'') [path] 1 s1
      | Some p \<Rightarrow> do {
          n \<leftarrow> nodes s1 p;
          if nflags n AND FS_DIRECTORY = 0 then say now ''%s'' [nname n] 0 s1
          else do {
            s2 \<leftarrow> ls_loop tabs now node 0 True s1;
            say now [] [] 0 s2 } }) }"

text \<open>The words before the first redirection that has a target, and the redirection: whether it appends, and the target.\<close>

primrec echo_scan :: "string list \<Rightarrow> string list \<times> (bool \<times> string) option" where
  "echo_scan [] = ([], None)"
| "echo_scan (a # as) =
     (if (a = ''>'' \<or> a = ''>>'') \<and> as \<noteq> [] then ([], Some (a = ''>>'', hd as))
      else (a # fst (echo_scan as), snd (echo_scan as)))"

primrec join_words :: "string list \<Rightarrow> string" where
  "join_words [] = []"
| "join_words (w # ws) = w @ (if ws = [] then [] else CHR '' '' # join_words ws)"

definition cmd_echo :: "'a shell_scheme tables \<Rightarrow> u64 \<Rightarrow> string list \<Rightarrow> 'a shell_scheme \<Rightarrow> (int \<times> 'a shell_scheme) option" where
  "cmd_echo tabs now argv s = do {
     let (words, redirect) = echo_scan (tl argv);
     let buf = join_words words;
     if SHELL_MAX_LINE_LEN \<le> length buf then None
     else (case redirect of
       None \<Rightarrow> say now ''%s'' [buf] 0 s
     | Some (append1, out_path) \<Rightarrow> do {
         path \<leftarrow> shell_normalize_path out_path s;
         (found, s1) \<leftarrow> vfs_resolve_path tabs (Some path) s;
         (node, s2) \<leftarrow> (if found = None then vfs_create tabs (Some path) s1 else Some (found, s1));
         (case node of
            None \<Rightarrow> say now ''echo: %s: cannot open for writing'' [path] 1 s2
          | Some p \<Rightarrow> do {
              n \<leftarrow> nodes s2 p;
              (wp, h1) \<leftarrow> kmalloc (of_nat (length buf) + 2) (rheap s2);
              let s3 = s2\<lparr>rheap := h1\<rparr>;
              if wp = None then Some (1, s3)
              else do {
                (k, s4) \<leftarrow> vfs_write tabs node (if append1 then nlength n else 0) (map of_char buf @ [10]) s3;
                h2 \<leftarrow> kfree wp (rheap s4);
                Some (0, s4\<lparr>rheap := h2\<rparr>) } }) }) }"

section \<open>The line editor\<close>

text \<open>The buffer \<open>line\<close> of \<open>SHELL_MAX_LINE_LEN\<close> characters, the length and the cursor, the place in the history and the saved draft.\<close>

record editor =
  ed_line :: "char list"
  ed_pos :: nat
  ed_cursor :: nat
  history_index :: nat
  current_draft :: string

text \<open>\<open>memmove\<close> inside the buffer, \<open>strcpy\<close> into it, and the C string that starts at an index.\<close>

definition buf_move :: "nat \<Rightarrow> nat \<Rightarrow> nat \<Rightarrow> char list \<Rightarrow> char list option" where
  "buf_move dst src n b =
     (if dst + n \<le> length b \<and> src + n \<le> length b then Some (take dst b @ take n (drop src b) @ drop (dst + n) b) else None)"

definition buf_strcpy :: "string \<Rightarrow> char list \<Rightarrow> char list option" where
  "buf_strcpy str b = (if length str < length b then Some (str @ CHR 0x00 # drop (Suc (length str)) b) else None)"

definition buf_string :: "nat \<Rightarrow> char list \<Rightarrow> string option" where
  "buf_string i b = (if CHR 0x00 \<in> set (drop i b) then Some (takeWhile (\<lambda>c. c \<noteq> CHR 0x00) (drop i b)) else None)"

type_synonym prints = "(string \<times> va_val list) list"

text \<open>Moves the terminal cursor back to the insertion point.\<close>

definition shift_back :: "nat \<Rightarrow> nat \<Rightarrow> prints" where
  "shift_back pos1 cur = (if cur < pos1 then [([CHR 0x1B] @ ''[%dD'', [Arg_int (of_nat (pos1 - cur))])] else [])"

definition edit_backspace :: "editor \<Rightarrow> (editor \<times> prints) option" where
  "edit_backspace e =
     (if 0 < ed_cursor e then do {
        b1 \<leftarrow> buf_move (ed_cursor e - 1) (ed_cursor e) (ed_pos e - ed_cursor e) (ed_line e);
        b2 \<leftarrow> wr b1 (ed_pos e - 1) (CHR 0x00);
        rest \<leftarrow> buf_string (ed_cursor e - 1) b2;
        Some (e\<lparr>ed_line := b2, ed_pos := ed_pos e - 1, ed_cursor := ed_cursor e - 1\<rparr>,
          ([CHR 0x08, CHR 0x1B] @ ''[K%s'', [Arg_str (Some rest)]) # shift_back (ed_pos e - 1) (ed_cursor e - 1)) }
      else Some (e, []))"

definition edit_delete :: "editor \<Rightarrow> (editor \<times> prints) option" where
  "edit_delete e =
     (if ed_cursor e < ed_pos e then do {
        b1 \<leftarrow> buf_move (ed_cursor e) (ed_cursor e + 1) (ed_pos e - ed_cursor e - 1) (ed_line e);
        b2 \<leftarrow> wr b1 (ed_pos e - 1) (CHR 0x00);
        rest \<leftarrow> buf_string (ed_cursor e) b2;
        Some (e\<lparr>ed_line := b2, ed_pos := ed_pos e - 1\<rparr>,
          ([CHR 0x1B] @ ''[K%s'', [Arg_str (Some rest)]) # shift_back (ed_pos e - 1) (ed_cursor e)) }
      else Some (e, []))"

text \<open>Replaces the line by another one, on the screen too.\<close>

definition edit_replace :: "string \<Rightarrow> editor \<Rightarrow> (editor \<times> prints) option" where
  "edit_replace str e = do {
     b \<leftarrow> buf_strcpy str (ed_line e);
     Some (e\<lparr>ed_line := b, ed_pos := length str, ed_cursor := length str\<rparr>,
       (if 0 < ed_cursor e then [([CHR 0x1B] @ ''[%dD'', [Arg_int (of_nat (ed_cursor e))])] else []) @
       [([CHR 0x1B] @ ''[K'', []), (''%s'', [Arg_str (Some str)])]) }"

definition edit_up :: "string list \<Rightarrow> nat \<Rightarrow> editor \<Rightarrow> (editor \<times> prints) option" where
  "edit_up hist count e =
     (if 0 < count \<and> 0 < history_index e \<and> int count - int SHELL_MAX_HISTORY < int (history_index e) then do {
        draft \<leftarrow> (if history_index e = count then buf_string 0 (ed_line e) else Some (current_draft e));
        ln \<leftarrow> rd hist ((history_index e - 1) mod SHELL_MAX_HISTORY);
        edit_replace ln (e\<lparr>current_draft := draft, history_index := history_index e - 1\<rparr>) }
      else Some (e, []))"

definition edit_down :: "string list \<Rightarrow> nat \<Rightarrow> editor \<Rightarrow> (editor \<times> prints) option" where
  "edit_down hist count e =
     (if history_index e < count then do {
        ln \<leftarrow> (if history_index e + 1 = count then Some (current_draft e)
               else rd hist ((history_index e + 1) mod SHELL_MAX_HISTORY));
        edit_replace ln (e\<lparr>history_index := history_index e + 1\<rparr>) }
      else Some (e, []))"

definition edit_insert :: "char \<Rightarrow> editor \<Rightarrow> (editor \<times> prints) option" where
  "edit_insert c e =
     (if ed_pos e < SHELL_MAX_LINE_LEN - 1 then do {
        b1 \<leftarrow> (if ed_cursor e < ed_pos e
               then buf_move (ed_cursor e + 1) (ed_cursor e) (ed_pos e - ed_cursor e) (ed_line e) else Some (ed_line e));
        b2 \<leftarrow> wr b1 (ed_cursor e) c;
        b3 \<leftarrow> wr b2 (ed_pos e + 1) (CHR 0x00);
        rest \<leftarrow> buf_string (ed_cursor e) b3;
        Some (e\<lparr>ed_line := b3, ed_pos := ed_pos e + 1, ed_cursor := ed_cursor e + 1\<rparr>,
          (''%s'', [Arg_str (Some rest)]) # shift_back (ed_pos e + 1) (ed_cursor e + 1)) }
      else Some (e, []))"

text \<open>The keys other than enter.\<close>

definition edit_key :: "u8 \<Rightarrow> string list \<Rightarrow> nat \<Rightarrow> editor \<Rightarrow> (editor \<times> prints) option" where
  "edit_key k hist count e =
     (if k = 8 then edit_backspace e
      else if k = KEY_DELETE then edit_delete e
      else if k = KEY_LEFT then
        Some (if 0 < ed_cursor e then (e\<lparr>ed_cursor := ed_cursor e - 1\<rparr>, [([CHR 0x1B] @ ''[D'', [])]) else (e, []))
      else if k = KEY_RIGHT then
        Some (if ed_cursor e < ed_pos e then (e\<lparr>ed_cursor := ed_cursor e + 1\<rparr>, [([CHR 0x1B] @ ''[C'', [])]) else (e, []))
      else if k = KEY_UP then edit_up hist count e
      else if k = KEY_DOWN then edit_down hist count e
      else if 32 \<le> k \<and> k \<le> 126 then edit_insert (char_of (unat k)) e
      else Some (e, []))"

section \<open>The input loop\<close>

primrec print_all :: "u64 \<Rightarrow> prints \<Rightarrow> 'a shell_scheme \<Rightarrow> 'a shell_scheme option" where
  "print_all now [] s = Some s"
| "print_all now (p # ps) s = do { s1 \<leftarrow> dev_print now (fst p) (snd p) s; print_all now ps s1 }"

definition shell_prompt :: "u64 \<Rightarrow> 'a shell_scheme \<Rightarrow> (editor \<times> 'a shell_scheme) option" where
  "shell_prompt now s = do {
     s1 \<leftarrow> dev_print now ([CHR 0x1B] @ ''[1;36mnexus'' @ [CHR 0x1B] @ ''[0m:'' @ [CHR 0x1B] @ ''[1;34m%s'' @ [CHR 0x1B] @ ''[0m$ '')
       [Arg_str (Some (shell_cwd s))] s;
     s2 \<leftarrow> dev_print now ([CHR 0x1B] @ ''[5 q'') [] s1;
     Some (\<lparr>ed_line = replicate SHELL_MAX_LINE_LEN (CHR 0x00), ed_pos = 0, ed_cursor = 0,
        history_index = history_count s, current_draft = []\<rparr>, s2) }"

definition history_add :: "string \<Rightarrow> string list \<Rightarrow> nat \<Rightarrow> string list" where
  "history_add ln hist count = hist[count mod SHELL_MAX_HISTORY := take (SHELL_MAX_LINE_LEN - 1) ln]"

definition shell_enter :: "u64 \<Rightarrow> 'a shell_scheme shell_command list \<Rightarrow> editor \<Rightarrow> 'a shell_scheme \<Rightarrow> (editor \<times> 'a shell_scheme) option" where
  "shell_enter now cmds e s = do {
     s1 \<leftarrow> dev_print now [CHR 0x0A] [] s;
     ln \<leftarrow> buf_string 0 (ed_line e);
     let s2 = (if ln \<noteq> [] then s1\<lparr>shell_history := history_add ln (shell_history s1) (history_count s1),
                 history_count := history_count s1 + 1\<rparr> else s1);
     (ret, s3) \<leftarrow> shell_execute now cmds ln s2;
     shell_prompt now s3 }"

text \<open>One turn of the loop: an event is taken from the queue, if there is one, and handled.\<close>

definition shell_turn :: "u64 \<Rightarrow> 'a shell_scheme shell_command list \<Rightarrow> editor \<Rightarrow> 'a shell_scheme \<Rightarrow> (editor \<times> 'a shell_scheme) option" where
  "shell_turn now cmds e s = do {
     (ev, i) \<leftarrow> input_poll_event (dev_input s);
     let s1 = s\<lparr>dev_input := i\<rparr>;
     (case ev of
        None \<Rightarrow> Some (e, s1)
      | Some x \<Rightarrow>
          if ev_type x \<noteq> INPUT_EVENT_KEY_PRESS then Some (e, s1)
          else if ascii x = 10 then shell_enter now cmds e s1
          else do {
            (e1, out) \<leftarrow> edit_key (ascii x) (shell_history s1) (history_count s1) e;
            s2 \<leftarrow> print_all now out s1;
            Some (e1, s2) }) }"

text \<open>What \<open>shell_run\<close> does before its loop, after the delay that lets the first process print.\<close>

definition shell_start :: "u64 \<Rightarrow> 'a shell_scheme \<Rightarrow> (editor \<times> 'a shell_scheme) option" where
  "shell_start now s = do {
     s1 \<leftarrow> dev_print now ([CHR 0x1B] @ ''[J'' @ [CHR 0x0A] @ ''Welcome to NexusOS Shell!'' @ [CHR 0x0A] @
       ''Type '' @ [CHR 0x27] @ ''help'' @ [CHR 0x27] @ '' for a list of commands.'' @ [CHR 0x0A, CHR 0x0A]) [] (s\<lparr>cwd_node := vfs_root s\<rparr>);
     shell_prompt now s1 }"

text \<open>The commands above, as the linker section holds them.\<close>

definition file_commands :: "'a shell_scheme tables \<Rightarrow> u64 \<Rightarrow> 'a shell_scheme shell_command list" where
  "file_commands tabs now =
     [\<lparr>cmd_name = ''cat'', usage_help = ''Concatenate and print files'', no_h_help = False, handler = cmd_cat tabs now\<rparr>,
      \<lparr>cmd_name = ''cd'', usage_help = ''Change directory'', no_h_help = False, handler = cmd_cd tabs now\<rparr>,
      \<lparr>cmd_name = ''echo'', usage_help = ''Print text to terminal'', no_h_help = False, handler = cmd_echo tabs now\<rparr>,
      \<lparr>cmd_name = ''ls'', usage_help = ''Lists items in current directory or specified path.'', no_h_help = True, handler = cmd_ls tabs now\<rparr>,
      \<lparr>cmd_name = ''mkdir'', usage_help = ''Create directory'', no_h_help = False, handler = cmd_mkdir tabs now\<rparr>,
      \<lparr>cmd_name = ''pwd'', usage_help = ''Print working directory'', no_h_help = False, handler = cmd_pwd now\<rparr>,
      \<lparr>cmd_name = ''touch'', usage_help = ''Create empty file'', no_h_help = False, handler = cmd_touch tabs now\<rparr>,
      \<lparr>cmd_name = ''clear'', usage_help = ''Clear terminal screen'', no_h_help = False, handler = cmd_clear now\<rparr>]"

section \<open>Paths\<close>

text \<open>What the components of a path mean from the root: empty ones and single dots stay, double dots go up.\<close>

definition path_step :: "string list \<Rightarrow> string \<Rightarrow> string list" where
  "path_step dir p = (if p = ''..'' then butlast dir else if p = ''.'' \<or> p = [] then dir else dir @ [p])"

definition path_of :: "string \<Rightarrow> string list" where
  "path_of p = foldl path_step [] (split_slash p)"

definition plain_part :: "string \<Rightarrow> bool" where
  "plain_part p \<longleftrightarrow> p \<noteq> [] \<and> p \<noteq> ''.'' \<and> p \<noteq> ''..'' \<and> slash \<notin> set p"

definition part_count :: "string \<Rightarrow> nat" where
  "part_count p = length (filter plain_part (split_slash p))"

lemma split_slash_eq:
  "split_slash r = takeWhile (\<lambda>c. c \<noteq> slash) r #
     (if dropWhile (\<lambda>c. c \<noteq> slash) r = [] then [] else split_slash (tl (dropWhile (\<lambda>c. c \<noteq> slash) r)))"
  by (induction r) (auto split: list.splits)

lemma norm_loop_fold:
  "length parts + part_count r < 32 \<Longrightarrow> norm_loop r parts = foldl path_step parts (split_slash r)"
proof (induction r parts rule: norm_loop.induct)
  case (1 r parts)
  let ?t = "takeWhile (\<lambda>c. c \<noteq> slash) r" and ?a = "dropWhile (\<lambda>c. c \<noteq> slash) r"
  show ?case
  proof (cases "r = []")
    case True
    then show ?thesis by (simp add: norm_loop.simps[of "[]"] path_step_def)
  next
    case False
    have sp: "split_slash r = ?t # (if ?a = [] then [] else split_slash (tl ?a))" by (rule split_slash_eq)
    have slash: "slash \<notin> set ?t" by (auto dest: set_takeWhileD)
    have step: "(if ?t = ''..'' then butlast parts else if ?t \<noteq> ''.'' \<and> ?t \<noteq> [] then parts @ [?t] else parts) = path_step parts ?t"
      by (simp add: path_step_def)
    have nz: "\<not> (r = [] \<or> 32 \<le> length parts)" using False 1(2) by simp
    have l: "norm_loop r parts = (if ?a = [] then path_step parts ?t else norm_loop (tl ?a) (path_step parts ?t))"
      unfolding norm_loop.simps[of r parts] Let_def step using nz by (simp only: if_False)
    show ?thesis
    proof (cases "?a = []")
      case True
      then show ?thesis unfolding l sp by (simp only: simp_thms if_True foldl_Cons foldl_Nil)
    next
      case a: False
      have "length (path_step parts ?t) + part_count (tl ?a) \<le> length parts + part_count r"
        using a slash by (auto simp: part_count_def sp path_step_def plain_part_def)
      then have b: "length (path_step parts ?t) + part_count (tl ?a) < 32" using 1(2) by simp
      have "norm_loop (tl ?a) (path_step parts ?t) = foldl path_step (path_step parts ?t) (split_slash (tl ?a))"
        using 1(1)[OF nz refl refl refl a] b unfolding step by blast
      then show ?thesis unfolding l sp using a by (simp only: if_False foldl_Cons)
    qed
  qed
qed

lemma path_of_skip_slash: "path_of (skip_slash t) = path_of t"
  by (cases t) (simp_all add: path_of_def skip_slash_def path_step_def)

lemma part_count_skip: "part_count (skip_slash t) = part_count t"
  by (cases t) (simp_all add: part_count_def skip_slash_def plain_part_def)

lemma path_step_plain: "list_all plain_part d \<Longrightarrow> slash \<notin> set p \<Longrightarrow> list_all plain_part (path_step d p)"
  by (auto simp: path_step_def plain_part_def list_all_iff dest: in_set_butlastD)

lemma split_slash_clean: "p \<in> set (split_slash r) \<Longrightarrow> slash \<notin> set p"
  by (induction r arbitrary: p) (auto split: list.splits if_splits)

lemma fold_plain:
  "list_all plain_part d \<Longrightarrow> \<forall>p\<in>set ps. slash \<notin> set p \<Longrightarrow> list_all plain_part (foldl path_step d ps)"
  by (induction ps arbitrary: d) (simp_all add: path_step_plain)

lemma path_of_plain: "list_all plain_part (path_of t)"
  unfolding path_of_def by (rule fold_plain) (auto dest: split_slash_clean)

lemma split_slash_part: "slash \<notin> set p \<Longrightarrow> split_slash (p @ slash # r) = p # split_slash r" "slash \<notin> set p \<Longrightarrow> split_slash p = [p]"
  using split_slash_app[of p "slash # r"] split_slash_app[of p "[]"] by simp_all

lemma split_join: "list_all plain_part ps \<Longrightarrow> ps \<noteq> [] \<Longrightarrow> split_slash (join_parts ps) = ps"
  by (induction ps) (auto simp: plain_part_def split_slash_part)

lemma fold_plain_id: "list_all plain_part ps \<Longrightarrow> foldl path_step d ps = d @ ps"
  by (induction ps arbitrary: d) (auto simp: path_step_def plain_part_def)

lemma path_of_join: "list_all plain_part ps \<Longrightarrow> path_of (slash # join_parts ps) = ps"
  by (cases "ps = []") (simp_all add: path_of_def path_step_def split_join fold_plain_id)

lemma components_join: "list_all plain_part ps \<Longrightarrow> path_components (slash # join_parts ps) = map (take 127) ps"
  by (cases "ps = []") (simp_all add: path_components_def split_join plain_part_def list_all_iff filter_id_conv)

lemma part_count_join: "list_all plain_part ps \<Longrightarrow> part_count (slash # join_parts ps) = length ps"
  by (cases "ps = []") (simp_all add: part_count_def split_join plain_part_def list_all_iff filter_id_conv)

lemma fold_length: "length (foldl path_step d ps) \<le> length d + length (filter plain_part ps) + length (filter (\<lambda>p. slash \<in> set p) ps)"
proof (induction ps arbitrary: d)
  case (Cons p ps)
  show ?case using Cons[of "path_step d p"] by (auto simp: path_step_def plain_part_def split: if_splits)
qed simp

lemma path_of_length: "length (path_of t) \<le> part_count t"
proof -
  have "filter (\<lambda>p. slash \<in> set p) (split_slash t) = []" by (auto simp: filter_empty_conv dest: split_slash_clean)
  then show ?thesis using fold_length[of "[]" "split_slash t"] by (simp add: path_of_def part_count_def)
qed

text \<open>The normal form is no longer than the path.\<close>

definition parts_size :: "string list \<Rightarrow> nat" where
  "parts_size ps = sum_list (map (\<lambda>p. Suc (length p)) ps)"

lemma join_size: "length (join_parts ps) \<le> parts_size ps - 1" "ps \<noteq> [] \<Longrightarrow> 0 < parts_size ps"
  by (induction ps) (auto simp: parts_size_def)

lemma parts_size_butlast: "parts_size (butlast ps) \<le> parts_size ps"
  by (induction ps) (auto simp: parts_size_def)

lemma fold_size: "parts_size (foldl path_step d ps) \<le> parts_size d + parts_size ps"
proof (induction ps arbitrary: d)
  case (Cons p ps)
  have "parts_size (path_step d p) \<le> parts_size d + Suc (length p)"
    using parts_size_butlast[of d] by (auto simp: path_step_def parts_size_def intro: trans_le_add1)
  then show ?case using Cons[of "path_step d p"] by (simp add: parts_size_def)
qed (simp add: parts_size_def)

lemma split_slash_size: "parts_size (split_slash t) = Suc (length t)"
proof (induction t)
  case (Cons c t)
  then show ?case by (cases "split_slash t") (simp_all add: parts_size_def)
qed (simp add: parts_size_def)

lemma path_of_size: "length (join_parts (path_of t)) \<le> length t"
  using join_size(1)[of "path_of t"] fold_size[of "[]" "split_slash t"] split_slash_size[of t]
  by (simp add: path_of_def parts_size_def)

lemma norm_absolute:
  assumes "shell_full_path input s = Some t" "t = slash # r" "length t < 256" "part_count t < 32"
  shows "shell_normalize_path input s = Some (slash # join_parts (path_of t))"
proof -
  have "norm_loop (skip_slash t) [] = path_of t"
    using norm_loop_fold[of "[]" "skip_slash t"] assms(4) path_of_skip_slash[of t] by (simp add: part_count_skip path_of_def)
  moreover have "length (join_parts (path_of t)) \<le> length r"
    using path_of_size[of r] path_of_skip_slash[of t] assms(2) by (simp add: skip_slash_def)
  ultimately show ?thesis using assms(1-3) by (simp add: shell_normalize_path_def SHELL_MAX_LINE_LEN_def)
qed

definition full_path :: "string \<Rightarrow> string \<Rightarrow> string" where
  "full_path dir input =
     (if input \<noteq> [] \<and> hd input = slash then take 255 input else dir @ (if dir = ''/'' then [] else ''/'') @ input)"

text \<open>
  C36. Path normalisation. From an absolute working directory, a path that fits the buffer and names fewer than 32
  plain components is turned into the one path whose components are those that the dots leave: it
  contains no empty component and no dots, the VFS reads exactly these components from it, and normalising it
  again changes nothing. A relative path that does not fit together with the working directory is written past
  the end of the buffer.
\<close>

theorem shell_normalize_correct:
  assumes "shell_cwd s = slash # d"
  shows "(length (full_path (shell_cwd s) input) < 256 \<and> part_count (full_path (shell_cwd s) input) < 32 \<longrightarrow>
      (let ps = path_of (full_path (shell_cwd s) input); out = slash # join_parts ps
       in shell_normalize_path input s = Some out \<and> list_all plain_part ps \<and> path_components out = map (take 127) ps \<and> shell_normalize_path out s = Some out)) \<and>
    (256 \<le> length (full_path (shell_cwd s) input) \<longrightarrow> shell_normalize_path input s = None)"
proof -
  let ?t = "full_path (shell_cwd s) input"
  have full: "shell_full_path input s = (if length ?t < 256 then Some ?t else None)"
    by (auto simp: shell_full_path_def full_path_def Let_def SHELL_MAX_LINE_LEN_def)
  have slash: "\<exists>r. ?t = slash # r"
    using assms by (cases input) (auto simp: full_path_def)
  have A: "let ps = path_of ?t; out = slash # join_parts ps
       in shell_normalize_path input s = Some out \<and> list_all plain_part ps \<and> path_components out = map (take 127) ps \<and> shell_normalize_path out s = Some out"
    if l: "length ?t < 256" and n: "part_count ?t < 32"
  proof -
    let ?out = "slash # join_parts (path_of ?t)"
    obtain r where r: "?t = slash # r" using slash by blast
    have 1: "shell_normalize_path input s = Some ?out" using norm_absolute[OF _ r l n] full l by simp
    then have lo: "length ?out < 256" by (auto simp: shell_normalize_path_def SHELL_MAX_LINE_LEN_def Let_def split: Option.bind_splits if_splits)
    have f: "shell_full_path ?out s = Some ?out" using lo by (simp add: shell_full_path_def SHELL_MAX_LINE_LEN_def)
    have "part_count ?out < 32" using part_count_join[OF path_of_plain, of ?t] path_of_length[of ?t] n by simp
    then have "shell_normalize_path ?out s = Some ?out"
      using norm_absolute[OF f refl lo] path_of_join[OF path_of_plain, of ?t] by simp
    then show ?thesis using 1 path_of_plain[of ?t] components_join[OF path_of_plain, of ?t] by (simp add: Let_def)
  qed
  have "shell_normalize_path input s = None" if "256 \<le> length ?t"
    using full that by (simp add: shell_normalize_path_def)
  with A show ?thesis by blast
qed

text \<open>A shell in the directory \<open>/mnt/a\<close>.\<close>

definition demo_shell :: shell where
  "demo_shell = devfs.extend demo_dev (shell.fields ''/mnt/a'' None (replicate SHELL_MAX_HISTORY []) 0)"

theorem shell_normalize_witness:
  "shell_normalize_path ''../b/./c//'' demo_shell = Some ''/mnt/b/c'' \<and>
   shell_normalize_path ''/mnt/b/c'' demo_shell = Some ''/mnt/b/c'' \<and>
   shell_normalize_path (replicate 249 (CHR ''x'')) demo_shell = None"
proof -
  have c: "shell_cwd demo_shell = slash # ''mnt/a''" by (simp add: demo_shell_def devfs.defs shell.defs)
  have f: "full_path (shell_cwd demo_shell) ''../b/./c//'' = ''/mnt/a/../b/./c//''" unfolding c by code_simp
  have n: "length ''/mnt/a/../b/./c//'' < 256 \<and> part_count ''/mnt/a/../b/./c//'' < 32" by code_simp
  have o: "slash # join_parts (path_of ''/mnt/a/../b/./c//'') = ''/mnt/b/c''" by code_simp
  have "256 \<le> length (full_path (shell_cwd demo_shell) (replicate 249 (CHR ''x'')))"
    unfolding c by (simp add: full_path_def)
  then show ?thesis
    using shell_normalize_correct[OF c, of "''../b/./c//''"] shell_normalize_correct[OF c, of "replicate 249 (CHR ''x'')"] n
    unfolding f Let_def o by blast
qed

section \<open>Tokens\<close>

text \<open>How much of the output buffer is spoken for: what is written, and the end of the open token.\<close>

definition lex_used :: "lexer \<Rightarrow> nat" where
  "lex_used l = lx_written l + (if lx_in_token l then 1 else 0)"

lemma lex_open_facts [simp]:
  "lx_in_token (lex_open l)" "lx_written (lex_open l) = lx_written l" "lx_escaped (lex_open l) = lx_escaped l"
  "lx_quote (lex_open l) = lx_quote l" "length (lx_args (lex_open l)) \<le> Suc (length (lx_args l))"
  by (simp_all add: lex_open_def)

lemma lex_put_ok:
  assumes "lex_used l + 2 \<le> size1" "length (lx_args l) < 16"
  obtains l1 where "lex_put size1 c (lex_open l) = Some l1" "lex_used l1 \<le> lex_used l + 2" "length (lx_args l1) \<le> 16"
    "lx_in_token l1" "lx_written l1 = Suc (lx_written l)"
proof -
  have "lx_args (lex_open l) \<noteq> []" if "\<not> lx_in_token l" using that by (simp add: lex_open_def)
  show thesis
    by (rule that[of "(lex_open l)\<lparr>lx_args := butlast (lx_args (lex_open l)) @ [last (lx_args (lex_open l)) @ [c]], lx_written := Suc (lx_written l)\<rparr>"])
      (use assms in \<open>auto simp: lex_put_def lex_used_def lex_open_def split: if_splits\<close>)
qed

lemma lex_close_ok:
  assumes "lex_used l \<le> size1"
  obtains l1 where "lex_close size1 l = Some l1" "lex_used l1 \<le> lex_used l" "lx_args l1 = lx_args l" "\<not> lx_in_token l1"
proof (cases "lx_in_token l")
  case True
  show thesis
    by (rule that[of "l\<lparr>lx_in_token := False, lx_written := Suc (lx_written l)\<rparr>"])
      (use assms True in \<open>simp_all add: lex_close_def lex_nul_def lex_used_def\<close>)
next
  case False
  show thesis by (rule that[of l]) (use False in \<open>simp_all add: lex_close_def\<close>)
qed

lemma lex_redirect_ok:
  assumes "lex_used l + (if twice then 3 else 2) \<le> size1" "length (lx_args l) < 16"
  obtains l1 where "lex_redirect size1 twice l = Some l1" "lex_used l1 \<le> lex_used l + (if twice then 3 else 2)"
    "length (lx_args l1) \<le> 16"
proof -
  obtain l0 where l0: "lex_close size1 l = Some l0" "lex_used l0 \<le> lex_used l" "lx_args l0 = lx_args l" "\<not> lx_in_token l0"
    using lex_close_ok[of l size1] assms(1) by (auto split: if_splits)
  show thesis
    by (rule that[of "l0\<lparr>lx_args := lx_args l0 @ [if twice then ''>>'' else ''>''], lx_in_token := False,
         lx_written := lx_written l0 + (if twice then 3 else 2)\<rparr>"])
      (use assms l0 in \<open>auto simp: lex_redirect_def lex_put_def lex_nul_def lex_used_def split: if_splits\<close>)
qed

lemma lex_safe:
  "lex_used l + 2 * length cs \<le> size1 \<Longrightarrow> length (lx_args l) \<le> 16 \<Longrightarrow>
   \<exists>l'. lex size1 cs l = Some l' \<and> lex_used l' \<le> size1 \<and> length (lx_args l') \<le> 16"
proof (induction "length cs" arbitrary: cs l rule: less_induct)
  case less
  show ?case
  proof (cases cs)
    case Nil
    then show ?thesis using less.prems by simp
  next
    case (Cons c ds)
    note IH = less.hyps[of ds]
    have IHd: "\<exists>l'. lex size1 ds m = Some l' \<and> lex_used l' \<le> size1 \<and> length (lx_args l') \<le> 16"
      if "lex_used m \<le> lex_used l + 2" "length (lx_args m) \<le> 16" for m
      using IH[of m] that less.prems(1) Cons by simp
    show ?thesis
    proof (cases "SHELL_MAX_ARGS \<le> length (lx_args l)")
      case True
      then show ?thesis using less.prems Cons by (simp add: lex.simps(2))
    next
      case False
      then have few: "length (lx_args l) < 16" by (simp add: SHELL_MAX_ARGS_def)
      obtain l1 where l1: "lex_put size1 c (lex_open l) = Some l1" "lex_used l1 \<le> lex_used l + 2" "length (lx_args l1) \<le> 16"
        using lex_put_ok[of l size1 c] few less.prems(1) Cons by auto
      obtain l2 where l2: "lex_close size1 l = Some l2" "lex_used l2 \<le> lex_used l" "lx_args l2 = lx_args l"
        using lex_close_ok[of l size1] less.prems(1) by auto
      obtain l3 where l3: "lex_redirect size1 False l = Some l3" "lex_used l3 \<le> lex_used l + 2" "length (lx_args l3) \<le> 16"
        using lex_redirect_ok[of l False size1] few less.prems(1) Cons by auto
      define P where "P x \<longleftrightarrow> (\<exists>l'. x = Some l' \<and> lex_used l' \<le> size1 \<and> length (lx_args l') \<le> 16)" for x
      have PI: "P (lex size1 ds m)" if "lex_used m \<le> lex_used l + 2" "length (lx_args m) \<le> 16" for m
        using IHd[OF that] by (simp only: P_def)
      have put: "P (Option.bind (lex_put size1 c (lex_open l)) (lex size1 ds))"
        using PI[OF l1(2,3)] l1(1) by simp
      have esc: "P (Option.bind (lex_put size1 c (lex_open l)) (\<lambda>l1. lex size1 ds (l1\<lparr>lx_escaped := False\<rparr>)))"
        using PI[of "l1\<lparr>lx_escaped := False\<rparr>"] l1 by (simp add: lex_used_def)
      have bs: "P (lex size1 ds (l\<lparr>lx_escaped := True\<rparr>))" and cq: "P (lex size1 ds (l\<lparr>lx_quote := None\<rparr>))"
        using few by (auto intro!: PI simp: lex_used_def)
      have oq: "P (lex size1 ds (lex_open (l\<lparr>lx_quote := Some c\<rparr>)))"
        using few by (auto intro!: PI simp: lex_used_def lex_open_def)
      have sp: "P (Option.bind (lex_close size1 l) (lex size1 ds))" using PI[of l2] l2 few by simp
      have re: "P (Option.bind (lex_redirect size1 False l) (lex size1 ds))" using PI[OF l3(2,3)] l3(1) by simp
      have re2: "P (Option.bind (lex_redirect size1 True l) (lex size1 (tl ds)))" if ne: "ds \<noteq> []"
      proof -
        obtain d es where ds: "ds = d # es" using ne by (cases ds) auto
        obtain l4 where l4: "lex_redirect size1 True l = Some l4" "lex_used l4 \<le> lex_used l + 3" "length (lx_args l4) \<le> 16"
          using lex_redirect_ok[of l True size1] few less.prems(1) Cons ds by auto
        show ?thesis using less.hyps[of es l4] l4 less.prems(1) Cons ds by (simp add: P_def)
      qed
      have two: "P (if ds \<noteq> [] \<and> hd ds = CHR ''>'' then Option.bind (lex_redirect size1 True l) (lex size1 (tl ds))
          else Option.bind (lex_redirect size1 False l) (lex size1 ds))" using re re2 by simp
      have "P (lex size1 cs l)"
        unfolding Cons lex.simps(2)[of size1 c ds l] if_distrib[of P]
        using False put esc bs cq oq sp two[unfolded if_distrib[of P]] by (simp only: if_cancel if_False if_True) (simp split: if_splits)
      then show ?thesis by (simp only: P_def)
    qed
  qed
qed

text \<open>A way to write any argument: every character escaped, and two quotes for the empty one.\<close>

definition quote_arg :: "string \<Rightarrow> string" where
  "quote_arg a = (if a = [] then [CHR 0x27, CHR 0x27] else concat (map (\<lambda>c. [CHR 0x5C, c]) a))"

primrec quote_line :: "string list \<Rightarrow> string" where
  "quote_line [] = []"
| "quote_line (a # as) = quote_arg a @ (if as = [] then [] else CHR '' '' # quote_line as)"

definition lex_at :: "string list \<Rightarrow> bool \<Rightarrow> nat \<Rightarrow> lexer" where
  "lex_at as tok w = \<lparr>lx_args = as, lx_quote = None, lx_escaped = False, lx_in_token = tok, lx_written = w\<rparr>"

lemma lex_escaped:
  assumes "length as < 16" "w < size1"
  shows "lex size1 (CHR 0x5C # c # cs) (lex_at as False w) = lex size1 cs (lex_at (as @ [[c]]) True (Suc w))"
    and "as \<noteq> [] \<Longrightarrow> lex size1 (CHR 0x5C # c # cs) (lex_at as True w) = lex size1 cs (lex_at (butlast as @ [last as @ [c]]) True (Suc w))"
  using assms by (simp_all add: lex.simps(2) lex_at_def SHELL_MAX_ARGS_def lex_put_def lex_open_def)

lemma lex_escaped_text:
  "length as < 16 \<Longrightarrow> as \<noteq> [] \<Longrightarrow> w + length a \<le> size1 \<Longrightarrow>
   lex size1 (concat (map (\<lambda>c. [CHR 0x5C, c]) a) @ cs) (lex_at as True w) =
   lex size1 cs (lex_at (butlast as @ [last as @ a]) True (w + length a))"
proof (induction a arbitrary: as w)
  case Nil
  then show ?case by simp
next
  case (Cons c a)
  have "lex size1 (CHR 0x5C # c # concat (map (\<lambda>c. [CHR 0x5C, c]) a) @ cs) (lex_at as True w) =
      lex size1 (concat (map (\<lambda>c. [CHR 0x5C, c]) a) @ cs) (lex_at (butlast as @ [last as @ [c]]) True (Suc w))"
    using lex_escaped(2)[of as w size1] Cons.prems by simp
  moreover have "length (butlast as @ [last as @ [c]]) < 16" using Cons.prems(1,2) by (cases as) simp_all
  ultimately show ?case using Cons.IH[of "butlast as @ [last as @ [c]]" "Suc w"] Cons.prems(3) by simp
qed

lemma lex_full: "16 \<le> length (lx_args l) \<Longrightarrow> lex size1 cs l = Some l"
  by (cases cs) (simp_all add: lex.simps(2) SHELL_MAX_ARGS_def)

lemma lex_quote_arg:
  assumes "length as < 15" "w + length a \<le> size1"
  shows "lex size1 (quote_arg a @ cs) (lex_at as False w) = lex size1 cs (lex_at (as @ [a]) True (w + length a))"
proof (cases a)
  case Nil
  then show ?thesis using assms by (simp add: quote_arg_def lex.simps(2) lex_at_def SHELL_MAX_ARGS_def lex_open_def)
next
  case (Cons c b)
  then show ?thesis
    using assms lex_escaped(1)[of as w size1] lex_escaped_text[of "as @ [[c]]" "Suc w" b size1 cs] by (simp add: quote_arg_def)
qed

lemma lex_quote_last:
  assumes "length as = 15" "w + length a \<le> size1"
  shows "\<exists>l. lex size1 (quote_arg a @ cs) (lex_at as False w) = Some l \<and> lx_args l = as @ [take 1 a]"
proof (cases a)
  case Nil
  then show ?thesis using assms
    by (simp add: quote_arg_def lex.simps(2)[of size1 "CHR 0x27"] lex_at_def SHELL_MAX_ARGS_def lex_open_def lex_full)
next
  case (Cons c b)
  then show ?thesis
    using assms lex_escaped(1)[of as w size1] lex_full[of "lex_at (as @ [[c]]) True (Suc w)" size1]
    by (simp add: quote_arg_def lex_at_def)
qed

lemma lex_quote_line:
  "length as + length bs \<le> 16 \<Longrightarrow> length as < 16 \<Longrightarrow> bs \<noteq> [] \<Longrightarrow> w + length (quote_line bs) \<le> size1 \<Longrightarrow>
   \<exists>l. lex size1 (quote_line bs) (lex_at as False w) = Some l \<and>
     lx_args l = as @ (if length as + length bs = 16 then butlast bs @ [take 1 (last bs)] else bs)"
proof (induction bs arbitrary: as w)
  case (Cons b bs)
  have fit: "w + length b \<le> size1" "bs \<noteq> [] \<Longrightarrow> w + length b + 1 + length (quote_line bs) \<le> size1"
  proof -
    have "length b \<le> length (quote_arg b)" by (simp add: quote_arg_def sum_list_triv length_concat comp_def)
    then show "w + length b \<le> size1" "bs \<noteq> [] \<Longrightarrow> w + length b + 1 + length (quote_line bs) \<le> size1"
      using Cons.prems(4) by auto
  qed
  show ?case
  proof (cases "length as = 15")
    case True
    then have "bs = []" using Cons.prems(1) by simp
    then show ?thesis using lex_quote_last[OF True fit(1), of "[]"] True by simp
  next
    case False
    then have small: "length as < 15" using Cons.prems(2) by simp
    show ?thesis
    proof (cases "bs = []")
      case True
      then show ?thesis using lex_quote_arg[OF small fit(1), of "[]"] small by (simp add: lex_at_def)
    next
      case bs: False
      have "lex size1 (CHR '' '' # quote_line bs) (lex_at (as @ [b]) True (w + length b)) =
          lex size1 (quote_line bs) (lex_at (as @ [b]) False (w + length b + 1))"
        using small fit(2)[OF bs] by (simp add: lex.simps(2) lex_at_def SHELL_MAX_ARGS_def lex_close_def lex_nul_def)
      then have "lex size1 (quote_line (b # bs)) (lex_at as False w) = lex size1 (quote_line bs) (lex_at (as @ [b]) False (w + length b + 1))"
        using lex_quote_arg[OF small fit(1), of "CHR '' '' # quote_line bs"] bs by simp
      then show ?thesis using Cons.IH[of "as @ [b]" "w + length b + 1"] Cons.prems(1) small bs fit(2)[OF bs] by auto
    qed
  qed
qed simp

text \<open>
  C37. The tokenizer. Every line is split without leaving the output buffer and into at most 16 arguments. Any
  list of at most 15 arguments, with blanks, quotes and redirection characters in them, can be written as a
  line that is split into exactly these arguments; of a sixteenth argument only the first character survives.
\<close>

theorem shell_tokens_correct:
  "(\<exists>argv. shell_tokens ln = Some argv \<and> length argv \<le> 16) \<and>
   (length as \<le> 16 \<longrightarrow>
    shell_tokens (quote_line as) = Some (if length as = 16 then butlast as @ [take 1 (last as)] else as))"
proof -
  have total: "\<exists>l. lex (length t * 2 + 1) t lex_start = Some l \<and> lex_used l \<le> length t * 2 + 1 \<and> length (lx_args l) \<le> 16" for t
    by (rule lex_safe) (simp_all add: lex_start_def lex_used_def)
  have some: "shell_tokens t = Some (lx_args l)" if "lex (length t * 2 + 1) t lex_start = Some l" for t l
  proof -
    have "lex_used l \<le> length t * 2 + 1" using total[of t] that by auto
    then show ?thesis using that by (simp add: shell_tokens_def lex_used_def split: if_splits)
  qed
  have "shell_tokens (quote_line as) = Some (if length as = 16 then butlast as @ [take 1 (last as)] else as)" if few: "length as \<le> 16"
  proof (cases "as = []")
    case True
    then show ?thesis by (simp add: shell_tokens_def lex_start_def)
  next
    case False
    obtain l where "lex (length (quote_line as) * 2 + 1) (quote_line as) (lex_at [] False 0) = Some l"
        "lx_args l = (if length as = 16 then butlast as @ [take 1 (last as)] else as)"
      using lex_quote_line[of "[]" as 0 "length (quote_line as) * 2 + 1"] few False by auto
    then show ?thesis using some[of "quote_line as" l] by (simp add: lex_at_def lex_start_def)
  qed
  moreover obtain l where "lex (length ln * 2 + 1) ln lex_start = Some l" "length (lx_args l) \<le> 16" using total[of ln] by blast
  ultimately show ?thesis using some[of ln l] by auto
qed

theorem shell_tokens_witness:
  "length [''echo'', ''a b'', []] \<le> 16 \<and> shell_tokens (quote_line [''echo'', ''a b'', []]) = Some [''echo'', ''a b'', []] \<and>
   shell_tokens (quote_line (replicate 16 ''ab'')) = Some (replicate 15 ''ab'' @ [''a''])"
proof -
  have r: "butlast (replicate 16 ''ab'') @ [take 1 (last (replicate 16 ''ab''))] = replicate 15 ''ab'' @ [''a'']" by code_simp
  show ?thesis
    using shell_tokens_correct[of "[]" "[''echo'', ''a b'', []]"] shell_tokens_correct[of "[]" "replicate 16 ''ab''"] r by simp
qed

section \<open>Editing\<close>

text \<open>
  An editor without buffers: the text before and behind the cursor, the place in the list of all lines entered so far, and
  the draft. Only the last \<open>SHELL_MAX_HISTORY\<close> lines can be reached.
\<close>

type_synonym aed = "string \<times> string \<times> nat \<times> string"

definition akey :: "u8 \<Rightarrow> string list \<Rightarrow> aed \<Rightarrow> aed" where
  "akey k h z = (case z of (b, a, i, d) \<Rightarrow>
     if k = 8 then (butlast b, a, i, d)
     else if k = KEY_DELETE then (b, tl a, i, d)
     else if k = KEY_LEFT then (if b = [] then z else (butlast b, last b # a, i, d))
     else if k = KEY_RIGHT then (if a = [] then z else (b @ [hd a], tl a, i, d))
     else if k = KEY_UP then
       if 0 < i \<and> length h < i + SHELL_MAX_HISTORY then (h ! (i - 1), [], i - 1, if i = length h then b @ a else d) else z
     else if k = KEY_DOWN then
       if i < length h then (if i + 1 = length h then d else h ! (i + 1), [], i + 1, d) else z
     else if 32 \<le> k \<and> k \<le> 126 \<and> length b + length a < SHELL_MAX_LINE_LEN - 1 then (b @ [char_of (unat k)], a, i, d)
     else z)"

definition str_ok :: "string \<Rightarrow> bool" where
  "str_ok x \<longleftrightarrow> length x < SHELL_MAX_LINE_LEN \<and> CHR 0x00 \<notin> set x"

definition hist_ok :: "string list \<Rightarrow> string list \<Rightarrow> bool" where
  "hist_ok ring h \<longleftrightarrow> length ring = SHELL_MAX_HISTORY \<and> (\<forall>x\<in>set h. str_ok x) \<and>
     (\<forall>i < length h. length h \<le> i + SHELL_MAX_HISTORY \<longrightarrow> ring ! (i mod SHELL_MAX_HISTORY) = h ! i)"

definition ed_rep :: "string \<Rightarrow> string \<Rightarrow> editor \<Rightarrow> bool" where
  "ed_rep b a e \<longleftrightarrow> (\<exists>junk. ed_line e = b @ a @ CHR 0x00 # junk) \<and> length (ed_line e) = SHELL_MAX_LINE_LEN \<and>
     ed_pos e = length b + length a \<and> ed_cursor e = length b \<and> CHR 0x00 \<notin> set b \<and> CHR 0x00 \<notin> set a"

definition ed_refines :: "string list \<Rightarrow> editor \<Rightarrow> aed \<Rightarrow> bool" where
  "ed_refines h e z = (case z of (b, a, i, d) \<Rightarrow>
     ed_rep b a e \<and> history_index e = i \<and> current_draft e = d \<and> i \<le> length h \<and> length h \<le> i + SHELL_MAX_HISTORY \<and> str_ok d)"

lemma buf_string_app: "CHR 0x00 \<notin> set a \<Longrightarrow> i = length b \<Longrightarrow> buf_string i (b @ a @ CHR 0x00 # junk) = Some a"
  by (auto simp: buf_string_def) (subst takeWhile_append2, auto)

lemma ed_rep_text: "ed_rep b a e \<Longrightarrow> buf_string 0 (ed_line e) = Some (b @ a)"
  using buf_string_app[of "b @ a" 0 "[]"] by (auto simp: ed_rep_def)

lemma ed_rep_room: "ed_rep b a e \<Longrightarrow> length b + length a < SHELL_MAX_LINE_LEN"
  by (auto simp: ed_rep_def)

text \<open>Closing the gap that a removed character leaves.\<close>

lemma close_gap:
  assumes "ln = b @ c # a @ CHR 0x00 # junk"
  obtains b1 xs where "buf_move (length b) (Suc (length b)) (length a) ln = Some b1" "length xs = Suc (length junk)"
    "wr b1 (length b + length a) (CHR 0x00) = Some (b @ a @ CHR 0x00 # xs)"
proof -
  obtain x xs where x: "drop (length a) (c # a @ CHR 0x00 # junk) = x # xs" "length xs = Suc (length junk)"
    by (cases "drop (length a) (c # a @ CHR 0x00 # junk)") (auto dest: arg_cong[where f = length])
  show thesis
    by (rule that[of "b @ a @ x # xs" xs]) (use x assms in \<open>simp_all add: buf_move_def wr_def list_update_append\<close>)
qed

lemma backspace_rep:
  assumes "ed_rep (b @ [c]) a e"
  shows "\<exists>e' out. edit_backspace e = Some (e', out) \<and> ed_rep b a e' \<and> history_index e' = history_index e \<and> current_draft e' = current_draft e"
proof -
  obtain junk where j: "ed_line e = b @ c # a @ CHR 0x00 # junk" using assms by (auto simp: ed_rep_def)
  obtain b1 xs where g: "buf_move (length b) (Suc (length b)) (length a) (ed_line e) = Some b1" "length xs = Suc (length junk)"
      "wr b1 (length b + length a) (CHR 0x00) = Some (b @ a @ CHR 0x00 # xs)"
    by (rule close_gap[OF j])
  let ?e = "e\<lparr>ed_line := b @ a @ CHR 0x00 # xs, ed_pos := length b + length a, ed_cursor := length b\<rparr>"
  have "\<exists>out. edit_backspace e = Some (?e, out)"
    using assms g buf_string_app[of a "length b" b xs] by (simp add: edit_backspace_def ed_rep_def)
  moreover have "ed_rep b a ?e" using assms g(2) j by (auto simp: ed_rep_def)
  ultimately show ?thesis by auto
qed

lemma delete_rep:
  assumes "ed_rep b (c # a) e"
  shows "\<exists>e' out. edit_delete e = Some (e', out) \<and> ed_rep b a e' \<and> history_index e' = history_index e \<and> current_draft e' = current_draft e"
proof -
  obtain junk where j: "ed_line e = b @ c # a @ CHR 0x00 # junk" using assms by (auto simp: ed_rep_def)
  obtain b1 xs where g: "buf_move (length b) (Suc (length b)) (length a) (ed_line e) = Some b1" "length xs = Suc (length junk)"
      "wr b1 (length b + length a) (CHR 0x00) = Some (b @ a @ CHR 0x00 # xs)"
    by (rule close_gap[OF j])
  let ?e = "e\<lparr>ed_line := b @ a @ CHR 0x00 # xs, ed_pos := length b + length a\<rparr>"
  have "\<exists>out. edit_delete e = Some (?e, out)"
    using assms g buf_string_app[of a "length b" b xs] by (simp add: edit_delete_def ed_rep_def)
  moreover have "ed_rep b a ?e" using assms g(2) j by (auto simp: ed_rep_def)
  ultimately show ?thesis by auto
qed

lemma insert_rep:
  assumes "ed_rep b a e" "c \<noteq> CHR 0x00" "length b + length a < SHELL_MAX_LINE_LEN - 1"
  shows "\<exists>e' out. edit_insert c e = Some (e', out) \<and> ed_rep (b @ [c]) a e' \<and> history_index e' = history_index e \<and> current_draft e' = current_draft e"
proof -
  obtain junk where j: "ed_line e = b @ a @ CHR 0x00 # junk" using assms by (auto simp: ed_rep_def)
  have "length junk = SHELL_MAX_LINE_LEN - 1 - length b - length a" using assms(1) j by (auto simp: ed_rep_def)
  then obtain y ys where y: "junk = y # ys" using assms(3) by (cases junk) auto
  obtain x where x: "(if ed_cursor e < ed_pos e then buf_move (ed_cursor e + 1) (ed_cursor e) (ed_pos e - ed_cursor e) (ed_line e)
      else Some (ed_line e)) = Some (b @ x # a @ junk)"
  proof (cases a)
    case Nil
    then show ?thesis using assms(1) j that[of "CHR 0x00"] by (simp add: ed_rep_def)
  next
    case (Cons a1 as)
    then show ?thesis using assms(1) j that[of a1] y by (simp add: ed_rep_def buf_move_def)
  qed
  have w1: "wr (b @ x # a @ junk) (ed_cursor e) c = Some (b @ c # a @ junk)"
    using assms(1) by (simp add: wr_def ed_rep_def list_update_append)
  have w2: "wr (b @ c # a @ junk) (ed_pos e + 1) (CHR 0x00) = Some (b @ c # a @ CHR 0x00 # ys)"
    using assms(1) y by (simp add: wr_def ed_rep_def list_update_append)
  have s: "buf_string (ed_cursor e) (b @ c # a @ CHR 0x00 # ys) = Some (c # a)"
    using assms(1,2) buf_string_app[of "c # a" "ed_cursor e" b ys] by (simp add: ed_rep_def)
  let ?e = "e\<lparr>ed_line := b @ c # a @ CHR 0x00 # ys, ed_pos := ed_pos e + 1, ed_cursor := ed_cursor e + 1\<rparr>"
  have p: "ed_pos e < SHELL_MAX_LINE_LEN - 1" using assms(1,3) by (simp add: ed_rep_def)
  have "\<exists>out. edit_insert c e = Some (?e, out)"
    unfolding edit_insert_def x using p w1 w2 s by simp
  moreover have "ed_rep (b @ [c]) a ?e" using assms(1,2) y j by (auto simp: ed_rep_def)
  ultimately show ?thesis by auto
qed

lemma replace_rep:
  assumes "ed_rep b a e" "str_ok x"
  shows "\<exists>e' out. edit_replace x e = Some (e', out) \<and> ed_rep x [] e' \<and> history_index e' = history_index e \<and> current_draft e' = current_draft e"
  using assms by (auto simp: edit_replace_def buf_strcpy_def ed_rep_def str_ok_def)

lemma ed_rep_irrelevant [simp]:
  "ed_rep b a (e\<lparr>current_draft := d\<rparr>) = ed_rep b a e" "ed_rep b a (e\<lparr>history_index := i\<rparr>) = ed_rep b a e"
  by (simp_all add: ed_rep_def)

lemma hist_ok_rd:
  assumes "hist_ok ring h" "i < length h" "length h \<le> i + SHELL_MAX_HISTORY"
  shows "rd ring (i mod SHELL_MAX_HISTORY) = Some (h ! i)" "str_ok (h ! i)"
  using assms by (auto simp: hist_ok_def rd_def SHELL_MAX_HISTORY_def)

lemma up_refines:
  assumes "hist_ok ring h" "ed_refines h e z"
  shows "\<exists>e' out. edit_up ring (length h) e = Some (e', out) \<and> ed_refines h e' (akey KEY_UP h z)"
proof -
  obtain b a i d where z: "z = (b, a, i, d)" by (cases z)
  have r: "ed_rep b a e" "history_index e = i" "current_draft e = d" "i \<le> length h" "length h \<le> i + SHELL_MAX_HISTORY" "str_ok d"
    using assms(2) by (simp_all add: ed_refines_def z)
  have k: "akey KEY_UP h z = (if 0 < i \<and> length h < i + SHELL_MAX_HISTORY then (h ! (i - 1), [], i - 1, if i = length h then b @ a else d) else z)"
    by (simp add: akey_def z KEY_UP_def KEY_DELETE_def KEY_LEFT_def KEY_RIGHT_def)
  have g: "(0 < length h \<and> 0 < i \<and> int (length h) - int SHELL_MAX_HISTORY < int i) = (0 < i \<and> length h < i + SHELL_MAX_HISTORY)"
    using r(4) by auto
  show ?thesis
  proof (cases "0 < i \<and> length h < i + SHELL_MAX_HISTORY")
    case False
    then have "edit_up ring (length h) e = Some (e, [])" unfolding edit_up_def r(2) g by (simp only: if_False)
    moreover have "akey KEY_UP h z = z" unfolding k using False by (simp only: if_False)
    ultimately show ?thesis using assms(2) by simp
  next
    case True
    let ?d = "if i = length h then b @ a else d"
    have "str_ok ?d" using r(1,6) ed_rep_room[OF r(1)] by (auto simp: str_ok_def ed_rep_def)
    moreover have h: "rd ring ((i - 1) mod SHELL_MAX_HISTORY) = Some (h ! (i - 1))" "str_ok (h ! (i - 1))"
      using hist_ok_rd[OF assms(1), of "i - 1"] True r(4) by auto
    moreover obtain e' out where e': "edit_replace (h ! (i - 1)) (e\<lparr>current_draft := ?d, history_index := i - 1\<rparr>) = Some (e', out)"
        "ed_rep (h ! (i - 1)) [] e'" "history_index e' = i - 1" "current_draft e' = ?d"
      using replace_rep[OF _ h(2), of b a "e\<lparr>current_draft := ?d, history_index := i - 1\<rparr>"] r(1) by auto
    moreover have "(if i = length h then buf_string 0 (ed_line e) else Some d) = Some ?d" using ed_rep_text[OF r(1)] by simp
    ultimately have "edit_up ring (length h) e = Some (e', out)" unfolding edit_up_def r(2,3) g using True by simp
    then show ?thesis using True e' h(2) \<open>str_ok ?d\<close> r(4) by (simp add: k ed_refines_def) linarith
  qed
qed

lemma down_refines:
  assumes "hist_ok ring h" "ed_refines h e z"
  shows "\<exists>e' out. edit_down ring (length h) e = Some (e', out) \<and> ed_refines h e' (akey KEY_DOWN h z)"
proof -
  obtain b a i d where z: "z = (b, a, i, d)" by (cases z)
  have r: "ed_rep b a e" "history_index e = i" "current_draft e = d" "i \<le> length h" "length h \<le> i + SHELL_MAX_HISTORY" "str_ok d"
    using assms(2) by (simp_all add: ed_refines_def z)
  have k: "akey KEY_DOWN h z = (if i < length h then (if i + 1 = length h then d else h ! (i + 1), [], i + 1, d) else z)"
    by (simp add: akey_def z KEY_UP_def KEY_DOWN_def KEY_DELETE_def KEY_LEFT_def KEY_RIGHT_def)
  show ?thesis
  proof (cases "i < length h")
    case False
    then show ?thesis using assms(2) r(2) by (simp add: k edit_down_def)
  next
    case True
    let ?x = "if i + 1 = length h then d else h ! (i + 1)"
    have x: "(if i + 1 = length h then Some d else rd ring ((i + 1) mod SHELL_MAX_HISTORY)) = Some ?x" "str_ok ?x"
      using hist_ok_rd[OF assms(1), of "i + 1"] True r(5,6) by auto
    obtain e' out where e': "edit_replace ?x (e\<lparr>history_index := i + 1\<rparr>) = Some (e', out)"
        "ed_rep ?x [] e'" "history_index e' = i + 1" "current_draft e' = d"
      using replace_rep[OF _ x(2), of b a "e\<lparr>history_index := i + 1\<rparr>"] r(1,3) by auto
    have "edit_down ring (length h) e = Some (e', out)" unfolding edit_down_def r(2,3) x(1) using True e'(1) by simp
    then show ?thesis using True e' r(5,6) by (simp add: k ed_refines_def)
  qed
qed

lemma edit_key_refines:
  assumes "hist_ok ring h" "ed_refines h e z"
  shows "\<exists>e' out. edit_key k ring (length h) e = Some (e', out) \<and> ed_refines h e' (akey k h z)"
proof -
  obtain b a i d where z: "z = (b, a, i, d)" by (cases z)
  have r: "ed_rep b a e" "history_index e = i" "current_draft e = d" "i \<le> length h" "length h \<le> i + SHELL_MAX_HISTORY" "str_ok d"
    using assms(2) by (simp_all add: ed_refines_def z)
  note keys = KEY_UP_def KEY_DOWN_def KEY_DELETE_def KEY_LEFT_def KEY_RIGHT_def
  consider (bs) "k = 8" | (del) "k = KEY_DELETE" | (lt) "k = KEY_LEFT" | (rt) "k = KEY_RIGHT" | (up) "k = KEY_UP" | (down) "k = KEY_DOWN"
    | (char) "32 \<le> k" "k \<le> 126" "k \<noteq> 8" "k \<noteq> KEY_DELETE" "k \<noteq> KEY_LEFT" "k \<noteq> KEY_RIGHT" "k \<noteq> KEY_UP" "k \<noteq> KEY_DOWN"
    | (other) "\<not> (32 \<le> k \<and> k \<le> 126)" "k \<noteq> 8" "k \<noteq> KEY_DELETE" "k \<noteq> KEY_LEFT" "k \<noteq> KEY_RIGHT" "k \<noteq> KEY_UP" "k \<noteq> KEY_DOWN"
    by blast
  then show ?thesis
  proof cases
    case bs
    show ?thesis
    proof (cases b rule: rev_cases)
      case Nil
      then show ?thesis using bs assms(2) r(1) by (simp add: edit_key_def akey_def z edit_backspace_def ed_rep_def)
    next
      case (snoc b' c)
      then show ?thesis using bs r backspace_rep[of b' c a e] by (auto simp: edit_key_def akey_def z ed_refines_def)
    qed
  next
    case del
    show ?thesis
    proof (cases a)
      case Nil
      then show ?thesis using del assms(2) r(1) by (simp add: edit_key_def akey_def z edit_delete_def ed_rep_def keys)
    next
      case (Cons c a')
      then show ?thesis using del r delete_rep[of b c a' e] by (auto simp: edit_key_def akey_def z ed_refines_def keys)
    qed
  next
    case lt
    then show ?thesis using r
      by (cases b rule: rev_cases) (auto simp: edit_key_def akey_def z ed_refines_def ed_rep_def keys)
  next
    case rt
    then show ?thesis using r by (cases a) (auto simp: edit_key_def akey_def z ed_refines_def ed_rep_def keys)
  next
    case up
    then show ?thesis using up_refines[OF assms] by (simp add: edit_key_def keys)
  next
    case down
    then show ?thesis using down_refines[OF assms] by (simp add: edit_key_def keys)
  next
    case char
    have c: "(char_of (unat k) :: char) \<noteq> CHR 0x00"
    proof
      assume "(char_of (unat k) :: char) = CHR 0x00"
      then have "of_char (char_of (unat k) :: char) = (0 :: nat)" by simp
      moreover have "unat k < 256" using unsigned_less[of k] by simp
      ultimately have "unat k = 0" by simp
      then show False using char(1) by (simp add: word_le_nat_alt)
    qed
    have ek: "edit_key k ring (length h) e = edit_insert (char_of (unat k)) e" using char by (simp add: edit_key_def)
    have ak: "akey k h z = (if length b + length a < SHELL_MAX_LINE_LEN - 1 then (b @ [char_of (unat k)], a, i, d) else z)"
      using char by (simp add: akey_def z)
    show ?thesis
    proof (cases "length b + length a < SHELL_MAX_LINE_LEN - 1")
      case True
      then show ?thesis using r insert_rep[OF r(1) c True] unfolding ek ak by (auto simp: ed_refines_def)
    next
      case False
      then show ?thesis using assms(2) r(1) unfolding ek ak by (simp add: edit_insert_def ed_rep_def)
    qed
  next
    case other
    then show ?thesis using assms(2) by (auto simp: edit_key_def akey_def z)
  qed
qed

lemma history_add_ok:
  assumes "hist_ok ring h" "str_ok ln"
  shows "hist_ok (history_add ln ring (length h)) (h @ [ln])"
proof -
  have "ring[length h mod 32 := ln] ! (i mod 32) = (h @ [ln]) ! i" if i: "i < length h + 1" "length h + 1 \<le> i + 32" for i
  proof (cases "i = length h")
    case True
    then show ?thesis using assms(1) by (simp add: hist_ok_def SHELL_MAX_HISTORY_def)
  next
    case False
    have "i mod 32 \<noteq> length h mod 32"
    proof
      assume "i mod 32 = length h mod 32"
      then have "32 dvd length h - i" using i(1) by (metis mod_eq_dvd_iff_nat less_Suc_eq_le Suc_eq_plus1)
      then show False using i False by (auto dest: dvd_imp_le)
    qed
    then show ?thesis using assms(1) i False by (simp add: hist_ok_def SHELL_MAX_HISTORY_def nth_append)
  qed
  then show ?thesis using assms
    by (auto simp: hist_ok_def history_add_def str_ok_def SHELL_MAX_HISTORY_def SHELL_MAX_LINE_LEN_def)
qed

text \<open>The keys of a line, one after the other, without what they print.\<close>

primrec edit_keys :: "u8 list \<Rightarrow> string list \<Rightarrow> nat \<Rightarrow> editor \<Rightarrow> editor option" where
  "edit_keys [] hist count e = Some e"
| "edit_keys (k # ks) hist count e = do { (e1, out) \<leftarrow> edit_key k hist count e; edit_keys ks hist count e1 }"

definition fresh_editor :: "nat \<Rightarrow> editor" where
  "fresh_editor count = \<lparr>ed_line = replicate SHELL_MAX_LINE_LEN (CHR 0x00), ed_pos = 0, ed_cursor = 0,
     history_index = count, current_draft = []\<rparr>"

lemma edit_keys_refines:
  "hist_ok ring h \<Longrightarrow> ed_refines h e z \<Longrightarrow>
   \<exists>e'. edit_keys ks ring (length h) e = Some e' \<and> ed_refines h e' (fold (\<lambda>k. akey k h) ks z)"
proof (induction ks arbitrary: e z)
  case (Cons k ks)
  obtain e1 out where "edit_key k ring (length h) e = Some (e1, out)" "ed_refines h e1 (akey k h z)"
    using edit_key_refines[OF Cons.prems] by blast
  then show ?case using Cons.IH[OF Cons.prems(1)] by simp
qed simp

lemma fresh_refines: "ed_refines h (fresh_editor (length h)) ([], [], length h, [])"
proof -
  have "replicate SHELL_MAX_LINE_LEN (CHR 0x00) = CHR 0x00 # replicate (SHELL_MAX_LINE_LEN - 1) (CHR 0x00)"
    by (simp add: SHELL_MAX_LINE_LEN_def numeral_eq_Suc)
  then show ?thesis by (auto simp: ed_refines_def ed_rep_def fresh_editor_def str_ok_def SHELL_MAX_LINE_LEN_def)
qed

text \<open>
  C38. The line editor. Whatever keys are pressed after a prompt, the buffer operations succeed and the buffer holds
  the text of an editor without buffers: the line at enter is the text before the cursor followed by that behind
  it, at most 255 characters, and the arrow keys reach the last 32 lines and come back to the unfinished draft. Storing the line
  in the ring of the history makes it the newest line.
\<close>

theorem shell_edit_refines:
  assumes "hist_ok ring h" "fold (\<lambda>k. akey k h) ks ([], [], length h, []) = (b, a, i, d)"
  shows "\<exists>e. edit_keys ks ring (length h) (fresh_editor (length h)) = Some e \<and> buf_string 0 (ed_line e) = Some (b @ a) \<and>
    ed_cursor e = length b \<and> hist_ok (history_add (b @ a) ring (length h)) (h @ [b @ a])"
proof -
  obtain e where e: "edit_keys ks ring (length h) (fresh_editor (length h)) = Some e" "ed_refines h e (b, a, i, d)"
    using edit_keys_refines[OF assms(1) fresh_refines, of ks] assms(2) by auto
  then have r: "ed_rep b a e" by (simp add: ed_refines_def)
  then have "str_ok (b @ a)" using ed_rep_room[OF r] by (auto simp: str_ok_def ed_rep_def)
  then show ?thesis using e(1) r ed_rep_text[OF r] history_add_ok[OF assms(1)] by (auto simp: ed_rep_def)
qed

theorem shell_edit_witness:
  "\<exists>e. edit_keys [120, KEY_UP, KEY_LEFT, 97, KEY_RIGHT, 33, 8] ((replicate 32 [])[0 := ''ls'']) 1 (fresh_editor 1) = Some e \<and>
     buf_string 0 (ed_line e) = Some ''las'' \<and> ed_cursor e = 3"
proof -
  have h: "hist_ok ((replicate 32 [])[0 := ''ls'']) [''ls'']"
    by (simp add: hist_ok_def str_ok_def SHELL_MAX_HISTORY_def SHELL_MAX_LINE_LEN_def)
  have "fold (\<lambda>k. akey k [''ls'']) [120, KEY_UP, KEY_LEFT, 97, KEY_RIGHT, 33, 8] ([], [], length [''ls''], []) = (''las'', [], 0, ''x'')"
    by code_simp
  from shell_edit_refines[OF h this] show ?thesis by auto
qed

end
