(* ===== verification/UsbHid.thy ===== *)
theory UsbHid
  imports Input Heap
begin

text \<open>
  The HID class driver of \<open>kernel/src/drivers/usb/usb_hid.c\<close>: reports of USB keyboards and mice become events on the
  queue of the input manager. A report is a list of bytes, and the private data of a device, if it has any, is an
  argument and a result.
\<close>

section \<open>Key codes\<close>

definition ascii_of :: "string \<Rightarrow> u8 list" where
  "ascii_of cs = map of_char cs"

definition hid_ascii_noshft :: "u8 list" where
  "hid_ascii_noshft = [0, 0, 0, 0] @ ascii_of ''abcdefghijklmnopqrstuvwxyz1234567890'' @ [10, 27, 8, 9, 32] @
     ascii_of (''-=[]'' @ [CHR 0x5C]) @ [0] @ ascii_of ('';'' @ [CHR 0x27, CHR 0x60] @ '',./'') @ replicate 71 0"

definition hid_ascii_shift :: "u8 list" where
  "hid_ascii_shift = [0, 0, 0, 0] @ ascii_of ''ABCDEFGHIJKLMNOPQRSTUVWXYZ!@#$%^&*()'' @ [10, 27, 8, 9, 32] @
     ascii_of ''_+{}|'' @ [0] @ ascii_of ('':'' @ [CHR 0x22] @ ''~<>?'') @ replicate 71 0"

definition hid_keycode_to_ascii :: "u8 \<Rightarrow> u8 \<Rightarrow> u8 option" where
  "hid_keycode_to_ascii keycode mods =
     (if 128 \<le> keycode then Some 0
      else if mods AND 0x22 \<noteq> 0 then rd hid_ascii_shift (unat keycode) else rd hid_ascii_noshft (unat keycode))"

section \<open>Reports\<close>

definition HID_TYPE_KEYBOARD :: nat where "HID_TYPE_KEYBOARD = 1"
definition HID_TYPE_MOUSE :: nat where "HID_TYPE_MOUSE = 2"

record usb_hid_private =
  hid_type :: nat
  prev_report :: "u8 list"

definition hid_flags :: "u8 \<Rightarrow> u8" where
  "hid_flags mods =
     (if mods AND 0x02 \<noteq> 0 \<or> mods AND 0x20 \<noteq> 0 then MOD_SHIFT else 0) OR
     (if mods AND 0x01 \<noteq> 0 \<or> mods AND 0x10 \<noteq> 0 then MOD_CTRL else 0) OR
     (if mods AND 0x04 \<noteq> 0 \<or> mods AND 0x40 \<noteq> 0 then MOD_ALT else 0)"

text \<open>The inner loops: whether one of the six key slots of a report holds the code.\<close>

definition has_key :: "u8 list \<Rightarrow> u8 \<Rightarrow> bool" where
  "has_key r k \<longleftrightarrow> (\<exists>j \<in> set [2..<8]. r ! j = k)"

definition hid_make :: "u8 list \<Rightarrow> u8 list \<Rightarrow> nat \<Rightarrow> input \<Rightarrow> input option" where
  "hid_make prev report i s =
     (if report ! i = 0 \<or> 128 \<le> report ! i \<or> has_key prev (report ! i) then Some s
      else do {
        a \<leftarrow> hid_keycode_to_ascii (report ! i) (report ! 0);
        input_push_event (zero_event\<lparr>ev_type := INPUT_EVENT_KEY_PRESS, scancode := report ! i,
          ev_modifiers := hid_flags (report ! 0), ascii := a\<rparr>) s })"

definition hid_break :: "u8 list \<Rightarrow> u8 list \<Rightarrow> nat \<Rightarrow> input \<Rightarrow> input option" where
  "hid_break prev report i s =
     (if prev ! i = 0 \<or> has_key report (prev ! i) then Some s
      else input_push_event (zero_event\<lparr>ev_type := INPUT_EVENT_KEY_RELEASE, scancode := prev ! i,
          ev_modifiers := hid_flags (report ! 0)\<rparr>) s)"

definition hid_process_keyboard :: "usb_hid_private \<Rightarrow> u8 list \<Rightarrow> input \<Rightarrow> (usb_hid_private \<times> input) option" where
  "hid_process_keyboard hid report s = do {
     s1 \<leftarrow> for_range (hid_make (prev_report hid) report) 2 6 s;
     s2 \<leftarrow> for_range (hid_break (prev_report hid) report) 2 6 s1;
     Some (hid\<lparr>prev_report := take 8 report\<rparr>, s2) }"

text \<open>The event structure is not cleared between the two uses, so a button event repeats the movement.\<close>

definition hid_process_mouse :: "u8 list \<Rightarrow> input \<Rightarrow> input option" where
  "hid_process_mouse report s = do {
     let dx = (scast (report ! 1) :: u16);
     let dy = (scast (report ! 2) :: u16);
     let moved = dx \<noteq> 0 \<or> dy \<noteq> 0;
     let evt = (if moved then zero_event\<lparr>ev_type := INPUT_EVENT_MOUSE_MOVE, mouse_dx := dx, mouse_dy := dy\<rparr> else zero_event);
     s1 \<leftarrow> (if moved then input_push_event evt s else Some s);
     let btns = report ! 0 AND 0x07;
     if btns \<noteq> 0 then input_push_event (evt\<lparr>ev_type := INPUT_EVENT_MOUSE_BUTTON, mouse_buttons := btns\<rparr>) s1 else Some s1 }"

text \<open>The buffer of the report has at least the \<open>len\<close> bytes the controller reports.\<close>

definition usb_hid_process_report :: "usb_hid_private option \<Rightarrow> u8 list \<Rightarrow> u32 \<Rightarrow> input \<Rightarrow> (usb_hid_private option \<times> input) option" where
  "usb_hid_process_report priv report len1 s = (case priv of
      None \<Rightarrow> Some (None, s)
    | Some hid \<Rightarrow>
        if length report < unat len1 then None
        else if hid_type hid = HID_TYPE_KEYBOARD \<and> 8 \<le> len1 then do {
          (h, s1) \<leftarrow> hid_process_keyboard hid report s;
          Some (Some h, s1) }
        else if hid_type hid = HID_TYPE_MOUSE \<and> 3 \<le> len1 then do {
          s1 \<leftarrow> hid_process_mouse report s;
          Some (priv, s1) }
        else Some (priv, s))"

definition SIZEOF_HID_PRIVATE :: u64 where "SIZEOF_HID_PRIVATE = 12"

text \<open>The result, the new private data with its address, and the heap.\<close>

definition usb_hid_probe :: "heap \<Rightarrow> (int \<times> (u64 \<times> usb_hid_private) option \<times> heap) option" where
  "usb_hid_probe h = do {
     (p, h1) \<leftarrow> kmalloc SIZEOF_HID_PRIVATE h;
     Some (case p of
       None \<Rightarrow> (- 1, None, h1)
     | Some a \<Rightarrow> (0, Some (a, \<lparr>hid_type = HID_TYPE_KEYBOARD, prev_report = replicate 8 0\<rparr>), h1)) }"

section \<open>Events of a report\<close>

text \<open>The keys that are down in one report and not in the other, in the order of their slots.\<close>

definition new_keys :: "u8 list \<Rightarrow> u8 list \<Rightarrow> u8 list" where
  "new_keys prev report = filter (\<lambda>k. k \<noteq> 0 \<and> k < 128 \<and> \<not> has_key prev k) (map (\<lambda>i. report ! i) [2..<8])"

definition gone_keys :: "u8 list \<Rightarrow> u8 list \<Rightarrow> u8 list" where
  "gone_keys prev report = filter (\<lambda>k. k \<noteq> 0 \<and> \<not> has_key report k) (map (\<lambda>i. prev ! i) [2..<8])"

definition press_event :: "u8 \<Rightarrow> u8 \<Rightarrow> input_event" where
  "press_event mods k = zero_event\<lparr>ev_type := INPUT_EVENT_KEY_PRESS, scancode := k, ev_modifiers := hid_flags mods,
     ascii := (if mods AND 0x22 \<noteq> 0 then hid_ascii_shift ! unat k else hid_ascii_noshft ! unat k)\<rparr>"

definition release_event :: "u8 \<Rightarrow> u8 \<Rightarrow> input_event" where
  "release_event mods k = zero_event\<lparr>ev_type := INPUT_EVENT_KEY_RELEASE, scancode := k, ev_modifiers := hid_flags mods\<rparr>"

lemma table_lengths [simp]: "length hid_ascii_noshft = 128" "length hid_ascii_shift = 128"
  by (simp_all add: hid_ascii_noshft_def hid_ascii_shift_def ascii_of_def)

lemma loop_pushes:
  assumes "\<And>i s. f i s = (if c (k i) then input_push_event (ev (k i)) s else Some s)"
  shows "for_range f a n s = events.push_all (map ev (filter c (map k [a..<a + n]))) s"
proof (induction n arbitrary: a s)
  case (Suc n)
  have "[a..<a + Suc n] = a # [Suc a..<Suc a + n]" by (simp add: upt_conv_Cons)
  then show ?case using Suc[of "Suc a"] assms[of a s] by (cases "input_push_event (ev (k a)) s") (simp_all del: upt_Suc)
qed simp

lemma make_pushes: "for_range (hid_make prev report) 2 6 s = events.push_all (map (press_event (report ! 0)) (new_keys prev report)) s"
proof -
  have "hid_make prev report i s = (if report ! i \<noteq> 0 \<and> report ! i < 128 \<and> \<not> has_key prev (report ! i)
      then input_push_event (press_event (report ! 0) (report ! i)) s else Some s)" for i s
  proof (cases "report ! i < 128")
    case True
    then have "unat (report ! i) < 128" "\<not> 128 \<le> report ! i" by (simp_all add: word_less_nat_alt word_le_nat_alt)
    then show ?thesis using True by (simp add: hid_make_def press_event_def hid_keycode_to_ascii_def)
  next
    case False
    then have "128 \<le> report ! i" by simp
    then show ?thesis using False by (simp only: hid_make_def simp_thms if_True if_False)
  qed
  from loop_pushes[where k = "\<lambda>i. report ! i" and c = "\<lambda>k. k \<noteq> 0 \<and> k < 128 \<and> \<not> has_key prev k", OF this, of 2 6 s]
  show ?thesis by (simp add: new_keys_def)
qed

lemma break_pushes: "for_range (hid_break prev report) 2 6 s = events.push_all (map (release_event (report ! 0)) (gone_keys prev report)) s"
proof -
  have "hid_break prev report i s = (if prev ! i \<noteq> 0 \<and> \<not> has_key report (prev ! i)
      then input_push_event (release_event (report ! 0) (prev ! i)) s else Some s)" for i s
    by (simp add: hid_break_def release_event_def)
  from loop_pushes[where k = "\<lambda>i. prev ! i" and c = "\<lambda>k. k \<noteq> 0 \<and> \<not> has_key report k", OF this, of 2 6 s]
  show ?thesis by (simp add: gone_keys_def)
qed

lemma keyboard_report:
  assumes "inq_inv s" "length report = 8"
  shows "\<exists>s'. hid_process_keyboard hid report s = Some (hid\<lparr>prev_report := report\<rparr>, s') \<and> inq_inv s' \<and>
    pending s' = last_n 255 (pending s @ map (press_event (report ! 0)) (new_keys (prev_report hid) report) @
      map (release_event (report ! 0)) (gone_keys (prev_report hid) report))"
proof -
  let ?p = "map (press_event (report ! 0)) (new_keys (prev_report hid) report)"
  let ?r = "map (release_event (report ! 0)) (gone_keys (prev_report hid) report)"
  obtain s1 where s1: "events.push_all ?p s = Some s1" "inq_inv s1" "pending s1 = last_n 255 (pending s @ ?p)"
    using events.push_all_ok[OF assms(1) pending_bound] by blast
  obtain s2 where "events.push_all ?r s1 = Some s2" "inq_inv s2" "pending s2 = last_n 255 (pending s1 @ ?r)"
    using events.push_all_ok[OF s1(2) pending_bound] by blast
  then show ?thesis using s1 assms(2) by (simp add: hid_process_keyboard_def make_pushes break_pushes last_n_append)
qed

section \<open>Typing on a USB keyboard\<close>

text \<open>The key of a printable character, and the reports sent when it is pressed and released.\<close>

definition hid_layout :: "(u8 \<times> bool \<times> u8) list" where
  "hid_layout = map (\<lambda>(i, c). (c, False, of_nat i)) (enumerate 0 hid_ascii_noshft) @
     map (\<lambda>(i, c). (c, True, of_nat i)) (enumerate 0 hid_ascii_shift)"

definition hid_key :: "u8 \<Rightarrow> bool \<times> u8" where
  "hid_key c = (case map_of hid_layout c of Some k \<Rightarrow> k | None \<Rightarrow> (False, 0))"

definition idle_report :: "u8 list" where
  "idle_report = replicate 8 0"

definition type_reports :: "u8 \<Rightarrow> u8 list list" where
  "type_reports c = (case hid_key c of (shift, k) \<Rightarrow> [[if shift then 2 else 0, 0, k, 0, 0, 0, 0, 0], idle_report])"

definition hid_events :: "u8 \<Rightarrow> input_event list" where
  "hid_events c = (case hid_key c of (shift, k) \<Rightarrow>
     [zero_event\<lparr>ev_type := INPUT_EVENT_KEY_PRESS, scancode := k, ev_modifiers := (if shift then MOD_SHIFT else 0), ascii := c\<rparr>,
      zero_event\<lparr>ev_type := INPUT_EVENT_KEY_RELEASE, scancode := k\<rparr>])"

primrec hid_reports :: "u8 list list \<Rightarrow> usb_hid_private option \<Rightarrow> input \<Rightarrow> (usb_hid_private option \<times> input) option" where
  "hid_reports [] priv s = Some (priv, s)"
| "hid_reports (r # rs) priv s = do {
     (p1, s1) \<leftarrow> usb_hid_process_report priv r (of_nat (length r)) s;
     hid_reports rs p1 s1 }"

lemma printable_tables: "set printable \<subseteq> set hid_ascii_noshft \<union> set hid_ascii_shift"
  by (simp add: printable_def hid_ascii_noshft_def hid_ascii_shift_def ascii_of_def upt_rec)

lemma hid_key_printable:
  assumes "c \<in> set printable"
  obtains shift k where "hid_key c = (shift, k)" "k \<noteq> 0" "k < 128"
    "(if shift then hid_ascii_shift ! unat k else hid_ascii_noshft ! unat k) = c"
proof -
  have "map fst hid_layout = hid_ascii_noshft @ hid_ascii_shift"
    by (simp add: hid_layout_def comp_def split_def)
  then have "fst ` set hid_layout = set hid_ascii_noshft \<union> set hid_ascii_shift" by (metis set_map set_append)
  then have "c \<in> fst ` set hid_layout" using assms printable_tables by blast
  then have "map_of hid_layout c \<noteq> None" by (simp add: map_of_eq_None_iff)
  then obtain shift k where m: "map_of hid_layout c = Some (shift, k)" by auto
  have "(c, shift, k) \<in> set hid_layout" using map_of_SomeD[OF m] .
  then obtain i where i: "i < 128" "k = of_nat i" "(if shift then hid_ascii_shift ! i else hid_ascii_noshft ! i) = c"
    by (auto simp: hid_layout_def in_set_enumerate_eq)
  have u: "unat k = i" using i(1,2) by (simp add: unsigned_of_nat take_bit_nat_eq_self)
  have z: "hid_ascii_shift ! 0 = 0" "hid_ascii_noshft ! 0 = 0" by (simp_all add: hid_ascii_shift_def hid_ascii_noshft_def)
  obtain n where "c = of_nat n" "32 \<le> n" "n < 127"
    using assms unfolding printable_def set_map set_upt image_iff by (metis atLeastLessThan_iff)
  then have "unat c \<noteq> 0" by (simp add: unsigned_of_nat take_bit_nat_eq_self)
  then have "i \<noteq> 0" using i(3) z by (metis unat_0)
  then have "k \<noteq> 0" "k < 128" using u i(1) by (auto simp: word_less_nat_alt)
  moreover have "(if shift then hid_ascii_shift ! unat k else hid_ascii_noshft ! unat k) = c" unfolding u by (rule i(3))
  moreover have "hid_key c = (shift, k)" using m by (simp add: hid_key_def)
  ultimately show thesis using that by blast
qed

lemma hid_reports_append: "hid_reports (rs @ qs) priv s = Option.bind (hid_reports rs priv s) (\<lambda>(p, s1). hid_reports qs p s1)"
proof (induction rs arbitrary: priv s)
  case (Cons r rs)
  then show ?case by (cases "usb_hid_process_report priv r (of_nat (length r)) s") auto
qed simp

lemma report_keyboard:
  assumes "hid_type hid = HID_TYPE_KEYBOARD" "length r = 8" "hid_process_keyboard hid r s = Some (h, s1)"
  shows "usb_hid_process_report (Some hid) r (of_nat (length r)) s = Some (Some h, s1)"
  using assms by (simp add: usb_hid_process_report_def)

lemma type_reports_ok:
  assumes "inq_inv s" "hid_type hid = HID_TYPE_KEYBOARD" "prev_report hid = idle_report" "c \<in> set printable"
  shows "\<exists>s'. hid_reports (type_reports c) (Some hid) s = Some (Some hid, s') \<and> inq_inv s' \<and> pending s' = last_n 255 (pending s @ hid_events c)"
proof -
  obtain shift k where k: "hid_key c = (shift, k)"
      and ok: "k \<noteq> 0" "k < 128" "(if shift then hid_ascii_shift ! unat k else hid_ascii_noshft ! unat k) = c"
    by (rule hid_key_printable[OF assms(4)])
  let ?r = "[if shift then 2 else 0, 0, k, 0, 0, 0, 0, 0] :: u8 list"
  have n: "new_keys idle_report ?r = [k]" "gone_keys idle_report ?r = []" "new_keys ?r idle_report = []" "gone_keys ?r idle_report = [k]"
    using ok(1,2) by (simp_all add: new_keys_def gone_keys_def has_key_def idle_report_def upt_rec)
  have e: "[press_event (?r ! 0) k, release_event (idle_report ! 0) k] = hid_events c"
    using ok(3) by (simp add: press_event_def release_event_def hid_events_def k hid_flags_def idle_report_def zero_event_def split: if_splits)
  let ?h = "hid\<lparr>prev_report := ?r\<rparr>"
  obtain s1 where s1: "hid_process_keyboard hid ?r s = Some (?h, s1)" "inq_inv s1" "pending s1 = last_n 255 (pending s @ [press_event (?r ! 0) k])"
    using keyboard_report[OF assms(1), of ?r hid] n(1,2) assms(3) by auto
  obtain s2 where s2: "hid_process_keyboard ?h idle_report s1 = Some (hid, s2)" "inq_inv s2"
      "pending s2 = last_n 255 (pending s1 @ [release_event (idle_report ! 0) k])"
    using keyboard_report[OF s1(2), of idle_report ?h] n(3,4) assms(3) by (auto simp: idle_report_def)
  have "usb_hid_process_report (Some hid) ?r (of_nat (length ?r)) s = Some (Some ?h, s1)"
    using s1(1) assms(2) by (intro report_keyboard) simp_all
  moreover have "usb_hid_process_report (Some ?h) idle_report (of_nat (length idle_report)) s1 = Some (Some hid, s2)"
    using s2(1) assms(2) by (intro report_keyboard) (simp_all add: idle_report_def)
  ultimately have "hid_reports (type_reports c) (Some hid) s = Some (Some hid, s2)" by (simp add: type_reports_def k)
  moreover have "pending s2 = last_n 255 (pending s @ hid_events c)" using s2(3) s1(3) e by (simp add: last_n_append flip: e)
  ultimately show ?thesis using s2(2) by blast
qed



end
