(* ===== verification/Spec2Isabelle.thy ===== *)
theory Spec2Isabelle
  imports KString Spinlock LibcString Process Shell UsbHid
begin

text \<open>
  NexusOS is a monolithic x86-64 kernel in C with a small user space. This development models its memory
  managers, scheduler, library, console, input, file systems and shell as functions on explicit states and
  proves what each of them promises to the layers above it. All paths are below \<open>src/\<close>; unless a path
  starts with \<open>userspace\<close>, below \<open>src/kernel/src/\<close>.

  \<^bold>\<open>How C is rendered.\<close> Integers are words of their C width, so sums and shifts wrap as in the code; \<open>int\<close>
  counters that cannot overflow are \<open>nat\<close> or \<open>int\<close>. A C function is a HOL function from its arguments and
  the state to \<open>option\<close> of its result and the new state. \<open>None\<close> means that the C code leaves defined
  behaviour or does not return: an access outside an object, a null or dangling pointer, an endless loop.
  A theorem that ends in \<open>= Some \<dots>\<close> thus states safety and termination together with the result, and a
  theorem that ends in \<open>= None\<close> exhibits a fault. Error returns of the code (0, -1, NULL) are values. A NULL
  pointer is \<open>None\<close> of a pointer type. Counted loops are \<open>for_range\<close> or structural recursion; loops whose
  end depends on data in memory are \<open>partial_function (option)\<close>, and the theorems show that they return on
  well-formed states. There is no fuel in the development. Code between a lock and its release is one
  step, because the lock disables interrupts and the kernel runs on one processor.

  \<^bold>\<open>Theories, in the order of dependence.\<close>

  \<^item> \<open>Prelude\<close>: words, checked array access, counted loops, linked list segments.

  \<^item> \<open>Bitmap\<close> (\<open>lib/bitmap.h\<close>), \<open>Pmm\<close> (\<open>mm/pmm.c\<close>): the frame bitmap with reference counts. The locale
    \<open>bit_array\<close> is the contract of the bitmap. The invariant ties the counters to the bitmap and keeps the
    bitmap's own frames in use; initialisation establishes it and all operations keep it; allocation is first fit
    for single frames and for runs (C1 to C4); references are counted exactly.

  \<^item> \<open>Vmm\<close> (\<open>mm/vmm.c\<close>): four-level page tables as frames of physical memory. The invariant says that the
    tables form a tree of frames in use. Mapping and unmapping change the translation of one page, and a
    cloned space shares exactly the kernel half (C5 to C7).

  \<^item> \<open>Heap\<close> (\<open>mm/heap.c\<close>) and \<open>KAlloc\<close>: the block list from the start to the end of the heap region. The
    abstract state is the set of blocks in use (C8 to C10). The locale \<open>allocator\<close> is what
    clients need of it, and its interpretation discharges the laws for \<open>kmalloc\<close> and \<open>kfree\<close>.

  \<^item> \<open>KString\<close> (\<open>lib/string.c\<close>), \<open>Spinlock\<close> (\<open>lib/spinlock.c\<close>), \<open>Klog\<close> (\<open>lib/klog.c\<close>), \<open>Printf\<close>
    (\<open>lib/printf.c\<close>): the kernel library (C11 to C17). \<open>LibcString\<close> (\<open>userspace/libc/src/string.c\<close>) is
    compared with the kernel routines (C18).

  \<^item> \<open>Sched\<close> (\<open>sched/scheduler.c\<close>, the context switch of \<open>arch/x86_64/context.asm\<close>, the tick of
    \<open>drivers/timer/pit.c\<close>): ready queues linked through the threads. An abstract scheduler on lists of thread
    ids is refined by the code; waiting threads run in turn; sleepers are never woken (C19 to C21).
    \<open>Process\<close> (\<open>sched/thread.c\<close>, \<open>sched/process.c\<close>, \<open>sched/vma.c\<close>, the fault handler of \<open>mm/vmm.c\<close>):
    creation, exit, waiting, memory areas and copy on write on top of the scheduler, the heap and the page
    tables (C22 to C24).

  \<^item> \<open>Framebuffer\<close> (\<open>drivers/video/framebuffer.c\<close>), \<open>Terminal\<close> (\<open>display/terminal.c\<close>,
    \<open>display/display_manager.c\<close>, \<open>kprintf\<close>): pixels, glyphs and the escape sequence interpreter (C25, C26).

  \<^item> \<open>Input\<close> (\<open>drivers/input/input_manager.c\<close> and the interrupt handlers of \<open>ps2_keyboard.c\<close> and
    \<open>ps2_mouse.c\<close>): the event ring as a bounded queue and the scan code decoder (C27, C28).

  \<^item> \<open>Vfs\<close> (\<open>fs/vfs.c\<close>): nodes, calls through the tables of operations, path resolution (C29).
    \<open>Ramfs\<close> (\<open>fs/ramfs.c\<close>): files and directories on the kernel heap (C30, C31).

  \<^item> \<open>Disk\<close> (\<open>drivers/storage/ata.h\<close>, the sector reads of \<open>ata.c\<close> and \<open>ahci.c\<close>, \<open>disk_read_sectors\<close>): what the
    hardware answers to a read is part of the state. The locale \<open>block_device\<close> is what the file systems need.
    \<open>Fat32\<close> (\<open>fs/fat32.c\<close>, C32), \<open>Ext4\<close> (\<open>fs/ext4.c\<close>, C33) and \<open>Ntfs\<close> (\<open>fs/ntfs.c\<close>, C34, C35): the three
    read-only file systems with their mounts. Their loops follow pointers on the disk, so each theorem says for which disks
    they return: chains that end, extent trees that are finite, attribute lists without a cycle.

  \<^item> \<open>Devfs\<close> (\<open>fs/devfs.c\<close>): the null, zero, terminal and block devices. While the terminal waits for a key it calls the
    scheduler; what runs meanwhile is the argument \<open>others\<close>. \<open>Partition\<close> (\<open>fs/partition.c\<close>): the partition
    tables, the probe that mounts the file systems, and the dispatch over all tables of operations.

  \<^item> \<open>Shell\<close> (\<open>shell/shell_core.c\<close> and the file commands of \<open>shell/cmds\<close>): path normalisation, the tokenizer, and the line
    editor, which implements an editor without buffers (C36 to C38). \<open>UsbHid\<close> (\<open>drivers/usb/usb_hid.c\<close>):
    reports of USB keyboards and mice as events (C39).

  \<^item> This theory: what is typed on the keyboard is read from the terminal device through the VFS, across the interrupt
    handler, the event queue, the line discipline and the console (C40).

  \<^bold>\<open>Bounds.\<close> The theorems on the heap assume that the heap region does not reach the end of the address
  space: an allocation of \<open>n\<close> bytes grows it by at most \<open>n + 20510\<close> bytes. Those on frames assume that the
  machine has fewer than \<open>2^52\<close> of them, as the architecture guarantees.

  The line read in C40 has at most 126 characters, because each gives two events and the queue holds 255.
  Path normalisation is exact below 32 components, the size of its array.

  \<^bold>\<open>Not modelled.\<close> Device drivers that consist of port or memory-mapped register sequences (PCI, the set-up of ATA and
  AHCI drives, xHCI and USB enumeration, the PS/2 controller, PIC, PIT programming, serial port); descriptor tables and
  assembly stubs except the context switch; boot code; the kernel debugger; the system call layer with the ELF loader, which copies
  between files and user memory through page tables while the VFS model here returns the bytes of a read as a
  value; the user programs and the C library other than its string functions, which rest on that layer. The messages that
  \<open>vfs_mount\<close>, \<open>ramfs_init\<close> and the mounts of the disk file systems print are left out, as is the serial debug log. The manifest lists
  each part with its reason.
\<close>

section \<open>From the keyboard to a read of the terminal\<close>

lemma kernel_tables_tty0: "kernel_tables others now TTY0_OPS = tty0_ops others now"
  by (simp add: kernel_tables_def RAMFS_OPS_def FAT32_OPS_def EXT4_OPS_def NTFS_OPS_def NULL_OPS_def ZERO_OPS_def TTY0_OPS_def)

text \<open>
  C40. A typed line is read back. On a kernel with an idle keyboard and no input waiting, the bytes that the
  keyboard sends for a text of at most 126 printable characters followed by the enter key are accepted by
  the interrupt handler; a \<open>vfs_read\<close> of the terminal device with room for the line then returns exactly the
  text and the newline, with its length, whatever the other threads do. The echo leaves the console and the
  kernel log well-formed, the lock of the queue is released, and only the release of the enter key is left
  waiting.
\<close>

theorem typed_line_read:
  assumes "tty_ok s" "kbd_idle 0 (dev_input s)" "pending (dev_input s) = []"
    and "set cs \<subseteq> set printable" "length cs \<le> 126" "length cs < unat sz"
    and "nodes s p = Some n" "nops n = Some TTY0_OPS"
  shows "\<exists>i s'. kbd_bytes (type_line cs) (dev_input s) = Some i \<and>
    vfs_read (kernel_tables others now) (Some p) off sz (s\<lparr>dev_input := i\<rparr>) = Some (of_nat (length cs + 1), cs @ [10], s') \<and>
    tty_ok s' \<and> pending (dev_input s') = [enter_release]"
proof -
  obtain i where i: "kbd_bytes (type_line cs) (dev_input s) = Some i" "kbd_idle 0 i" "input_cpu i = input_cpu (dev_input s)"
      "pending i = concat (map char_events cs) @ [enter_press, enter_release]"
    by (rule kbd_line[OF assms(2-5)])
  have ok: "tty_ok (s\<lparr>dev_input := i\<rparr>)" using assms(1) i(2,3) by (simp add: tty_ok_def kbd_idle_def)
  have pend: "pending (dev_input (s\<lparr>dev_input := i\<rparr>)) = concat (map char_events cs) @ enter_press # [enter_release]"
    using i(4) by simp
  obtain s' where s': "tty0_read others now p off sz (s\<lparr>dev_input := i\<rparr>) = Some (of_nat (length cs + 1), cs @ [10], s')"
      "tty_ok s'" "pending (dev_input s') = [enter_release]"
    using tty0_read_line[OF ok pend assms(4,6), of others now p off] by blast
  have "vfs_read (kernel_tables others now) (Some p) off sz (s\<lparr>dev_input := i\<rparr>) = tty0_read others now p off sz (s\<lparr>dev_input := i\<rparr>)"
    using assms(7,8) by (simp add: vfs_read_def node_op_def kernel_tables_tty0 tty0_ops_def)
  then show ?thesis using i(1) s' by (intro exI[of _ i] exI[of _ s']) simp
qed

theorem typed_line_read_witness:
  "\<exists>i s'. kbd_bytes [0x12, 0x33, 0xF0, 0x33, 0xF0, 0x12, 0x43, 0xF0, 0x43, 0x5A, 0xF0, 0x5A] (dev_input demo_dev) = Some i \<and>
     vfs_read (kernel_tables (\<lambda>s. None) 7) (Some 5) 0 64 (demo_dev\<lparr>dev_input := i\<rparr>) = Some (3, [72, 105, 10], s') \<and> tty_ok s'"
proof -
  have p: "set [72, 105] \<subseteq> set printable" by code_simp
  have b: "type_line [72, 105] = [0x12, 0x33, 0xF0, 0x33, 0xF0, 0x12, 0x43, 0xF0, 0x43, 0x5A, 0xF0, 0x5A]" by code_simp
  have n: "nodes demo_dev 5 = Some (zero_node\<lparr>nops := Some TTY0_OPS\<rparr>)"
    by (simp add: demo_dev_def demo_e4_def demo_fat_def ntfs.defs devfs.defs ext4.defs fat32.defs)
  from typed_line_read[OF demo_dev_ready p _ _ n, of 64 "\<lambda>s. None" 7 0] show ?thesis unfolding b by auto
qed

end
